(* ===== verification/Prelude.thy ===== *)
theory Prelude
  imports Main "HOL-Library.Word" "HOL-Library.AList"
begin

text \<open>
  Shared vocabulary of the development: machine integers, results that may fail, the
  state-and-failure monad in which the event handlers are written with the relations its procedures
  keep, byte order and checked arithmetic. Everything here is independent of HotStuff-rs.
\<close>

named_theorems res_simps \<open>equations of the result combinators\<close>
named_theorems keeps_intro \<open>compositional rules: a handler keeps a state predicate\<close>
named_theorems store_simps \<open>what a read of the key-value store returns after a write\<close>

section \<open>Machine integers\<close>

type_synonym u8 = "8 word"
type_synonym u32 = "32 word"
type_synonym u64 = "64 word"
type_synonym u128 = "128 word"

text \<open>Rust's \<^verbatim>\<open>checked_mul\<close> and \<^verbatim>\<open>checked_add\<close>: no value on overflow.\<close>

definition checked_mul :: "'a::len word \<Rightarrow> 'a word \<Rightarrow> 'a word option" where
  "checked_mul a b = (if unat a * unat b < 2 ^ LENGTH('a) then Some (a * b) else None)"

definition checked_add :: "'a::len word \<Rightarrow> 'a word \<Rightarrow> 'a word option" where
  "checked_add a b = (if unat a + unat b < 2 ^ LENGTH('a) then Some (a + b) else None)"

text \<open>Rust's \<^verbatim>\<open>div_ceil\<close> for a nonzero divisor.\<close>

definition div_ceil :: "'a::len word \<Rightarrow> 'a word \<Rightarrow> 'a word" where
  "div_ceil a b = (if a mod b = 0 then a div b else a div b + 1)"

text \<open>The little-endian bytes of a word, and the big-endian ones.\<close>

definition le_bytes :: "nat \<Rightarrow> 'a::len word \<Rightarrow> u8 list" where
  "le_bytes n w = map (\<lambda>i. ucast (drop_bit (8 * i) w)) [0..<n]"

definition be_bytes :: "nat \<Rightarrow> 'a::len word \<Rightarrow> u8 list" where
  "be_bytes n w = rev (le_bytes n w)"

lemma length_le_bytes [simp]: "length (le_bytes n w) = n"
  by (simp add: le_bytes_def)

lemma length_be_bytes [simp]: "length (be_bytes n w) = n"
  by (simp add: be_bytes_def)

lemma bit_of_le_bytes:
  assumes "i < 8 * n"
  shows "bit (le_bytes n w ! (i div 8)) (i mod 8) = bit w i"
proof -
  from assms have "i div 8 < n" by (simp add: less_mult_imp_div_less mult.commute)
  then show ?thesis
    by (simp add: le_bytes_def bit_simps)
qed

lemma le_bytes_inject [simp]:
  assumes "LENGTH('a) \<le> 8 * n"
  shows "le_bytes n (v :: 'a::len word) = le_bytes n w \<longleftrightarrow> v = w"
proof
  assume eq: "le_bytes n v = le_bytes n w"
  show "v = w"
  proof (rule bit_word_eqI)
    fix i assume "i < LENGTH('a)"
    with assms have "i < 8 * n" by simp
    with eq show "bit v i = bit w i"
      using bit_of_le_bytes [of i n v] bit_of_le_bytes [of i n w] by simp
  qed
qed simp

lemma be_bytes_inject [simp]:
  "LENGTH('a) \<le> 8 * n \<Longrightarrow> be_bytes n (v :: 'a::len word) = be_bytes n w \<longleftrightarrow> v = w"
  by (simp add: be_bytes_def)

section \<open>Results\<close>

text \<open>
  A Rust \<^verbatim>\<open>Result<T, E>\<close> is a value of \<open>'e + 'a\<close>, \<open>Inl\<close> the error; the \<^verbatim>\<open>?\<close> operator is
  \<open>rbind\<close>.
\<close>

definition rbind :: "'e + 'a \<Rightarrow> ('a \<Rightarrow> 'e + 'b) \<Rightarrow> 'e + 'b" where
  "rbind m f = (case m of Inl e \<Rightarrow> Inl e | Inr x \<Rightarrow> f x)"

text \<open>\<^verbatim>\<open>Result::ok\<close>, \<^verbatim>\<open>Option::ok_or\<close>.\<close>

definition res_ok :: "'e + 'a \<Rightarrow> 'a option" where
  "res_ok m = (case m of Inl _ \<Rightarrow> None | Inr x \<Rightarrow> Some x)"

definition ok_or :: "'a option \<Rightarrow> 'e \<Rightarrow> 'e + 'a" where
  "ok_or x e = (case x of None \<Rightarrow> Inl e | Some y \<Rightarrow> Inr y)"

text \<open>Short-circuit conjunction and disjunction of a fallible test, as in \<^verbatim>\<open>a? && b?\<close>.\<close>

definition rand :: "'e + bool \<Rightarrow> 'e + bool \<Rightarrow> 'e + bool" where
  "rand a b = rbind a (\<lambda>x. if x then b else Inr False)"

definition ror :: "'e + bool \<Rightarrow> 'e + bool \<Rightarrow> 'e + bool" where
  "ror a b = rbind a (\<lambda>x. if x then Inr True else b)"

lemma rbind_Inl [simp, res_simps]: "rbind (Inl e) f = Inl e"
  by (simp add: rbind_def)

lemma rbind_Inr [simp, res_simps]: "rbind (Inr x) f = f x"
  by (simp add: rbind_def)

lemma rbind_eq_Inr_iff: "rbind m f = Inr y \<longleftrightarrow> (\<exists>x. m = Inr x \<and> f x = Inr y)"
  by (cases m) auto

lemma rbind_eq_Inl_iff: "rbind m f = Inl e \<longleftrightarrow> m = Inl e \<or> (\<exists>x. m = Inr x \<and> f x = Inl e)"
  by (cases m) auto

lemma rbind_cong [fundef_cong]:
  "m = m' \<Longrightarrow> (\<And>x. m' = Inr x \<Longrightarrow> f x = f' x) \<Longrightarrow> rbind m f = rbind m' f'"
  by (cases m') auto

lemma res_ok_simps [simp]: "res_ok (Inl e) = None" "res_ok (Inr x) = Some x"
  by (simp_all add: res_ok_def)

lemma res_ok_eq_Some [simp]: "res_ok m = Some x \<longleftrightarrow> m = Inr x"
  by (cases m) auto

lemma ok_or_simps [simp]: "ok_or None e = Inl e" "ok_or (Some x) e = Inr x"
  by (simp_all add: ok_or_def)

lemma ok_or_eq_Inr [simp]: "ok_or x e = Inr y \<longleftrightarrow> x = Some y"
  by (cases x) auto

lemma ok_or_eq_Inl [simp]: "ok_or x e = Inl d \<longleftrightarrow> x = None \<and> d = e"
  by (cases x) auto

lemma rand_simps [simp, res_simps]:
  "rand (Inl e) b = Inl e" "rand (Inr True) b = b" "rand (Inr False) b = Inr False"
  by (simp_all add: rand_def)

lemma ror_simps [simp, res_simps]:
  "ror (Inl e) b = Inl e" "ror (Inr True) b = Inr True" "ror (Inr False) b = b"
  by (simp_all add: ror_def)

lemma rand_eq_True: "rand a b = Inr True \<longleftrightarrow> a = Inr True \<and> b = Inr True"
  by (auto simp: rand_def rbind_eq_Inr_iff split: if_splits)

lemma ror_eq_True: "ror a b = Inr True \<longleftrightarrow> a = Inr True \<or> (a = Inr False \<and> b = Inr True)"
  by (auto simp: ror_def rbind_eq_Inr_iff split: if_splits)

text \<open>A left fold that stops at the first error.\<close>

fun rfold :: "('b \<Rightarrow> 'a \<Rightarrow> 'e + 'a) \<Rightarrow> 'b list \<Rightarrow> 'a \<Rightarrow> 'e + 'a" where
  "rfold f [] a = Inr a"
| "rfold f (x # xs) a = rbind (f x a) (rfold f xs)"

lemma rfold_total: "(\<And>x a. x \<in> set xs \<Longrightarrow> f x a = Inr (g x a)) \<Longrightarrow> rfold f xs a = Inr (fold g xs a)"
  by (induction xs arbitrary: a) (simp_all add: rbind_def)

lemma rfold_append [simp]: "rfold f (xs @ ys) a = rbind (rfold f xs a) (rfold f ys)"
  by (induction xs arbitrary: a) (auto simp: rbind_def split: sum.splits)

lemma rfold_invariant:
  assumes "rfold f xs a = Inr b" and "I a"
    and "\<And>x a a'. x \<in> set xs \<Longrightarrow> f x a = Inr a' \<Longrightarrow> I a \<Longrightarrow> I a'"
  shows "I b"
  using assms by (induction xs arbitrary: a) (auto simp: rbind_eq_Inr_iff)

text \<open>A map over a list that stops at the first error.\<close>

fun rmap :: "('a \<Rightarrow> 'e + 'b) \<Rightarrow> 'a list \<Rightarrow> 'e + 'b list" where
  "rmap f [] = Inr []"
| "rmap f (x # xs) = rbind (f x) (\<lambda>y. rbind (rmap f xs) (\<lambda>ys. Inr (y # ys)))"

lemma rmap_total: "(\<And>x. x \<in> set xs \<Longrightarrow> f x = Inr (g x)) \<Longrightarrow> rmap f xs = Inr (map g xs)"
  by (induction xs) auto

lemma rmap_id: "(\<And>x. x \<in> set xs \<Longrightarrow> f x = Inr x) \<Longrightarrow> rmap f xs = Inr xs"
  by (induction xs) auto

section \<open>State and failure\<close>

text \<open>
  A handler takes the state and returns its result together with the state at the point
  where it stopped: a write made before an error is still made.
\<close>

type_synonym ('s, 'e, 'a) proc = "'s \<Rightarrow> ('e + 'a) \<times> 's"

definition pret :: "'a \<Rightarrow> ('s, 'e, 'a) proc" where
  "pret x = (\<lambda>s. (Inr x, s))"

definition pfail :: "'e \<Rightarrow> ('s, 'e, 'a) proc" where
  "pfail e = (\<lambda>s. (Inl e, s))"

definition pbind :: "('s, 'e, 'a) proc \<Rightarrow> ('a \<Rightarrow> ('s, 'e, 'b) proc) \<Rightarrow> ('s, 'e, 'b) proc" where
  "pbind m f = (\<lambda>s. case m s of (Inl e, s') \<Rightarrow> (Inl e, s') | (Inr x, s') \<Rightarrow> f x s')"

definition pthen :: "('s, 'e, unit) proc \<Rightarrow> ('s, 'e, 'b) proc \<Rightarrow> ('s, 'e, 'b) proc" where
  "pthen m n = pbind m (\<lambda>_. n)"

text \<open>A computation that only reads the state, and an update of the state.\<close>

definition pread :: "('s \<Rightarrow> 'e + 'a) \<Rightarrow> ('s, 'e, 'a) proc" where
  "pread f = (\<lambda>s. (f s, s))"

definition pgets :: "('s \<Rightarrow> 'a) \<Rightarrow> ('s, 'e, 'a) proc" where
  "pgets f = (\<lambda>s. (Inr (f s), s))"

definition pmodify :: "('s \<Rightarrow> 's) \<Rightarrow> ('s, 'e, unit) proc" where
  "pmodify f = (\<lambda>s. (Inr (), f s))"

definition pwhen :: "bool \<Rightarrow> ('s, 'e, unit) proc \<Rightarrow> ('s, 'e, unit) proc" where
  "pwhen b m = (if b then m else pret ())"

lemmas proc_defs = pret_def pfail_def pbind_def pthen_def pread_def pgets_def pmodify_def pwhen_def

text \<open>
  \<open>keeps R m\<close>: whatever \<open>m\<close> does, error or not, relates the state before to the state after
  by \<open>R\<close>. For a reflexive and transitive \<open>R\<close> this composes along the code of a handler.
\<close>

definition keeps :: "('s \<Rightarrow> 's \<Rightarrow> bool) \<Rightarrow> ('s, 'e, 'a) proc \<Rightarrow> bool" where
  "keeps R m \<longleftrightarrow> (\<forall>s. R s (snd (m s)))"

lemma keepsI: "(\<And>s. R s (snd (m s))) \<Longrightarrow> keeps R m"
  by (simp add: keeps_def)

lemma keepsD: "keeps R m \<Longrightarrow> R s (snd (m s))"
  by (simp add: keeps_def)

lemma keeps_pret [keeps_intro]: "reflp R \<Longrightarrow> keeps R (pret x)"
  by (simp add: keeps_def pret_def reflp_def)

lemma keeps_pfail [keeps_intro]: "reflp R \<Longrightarrow> keeps R (pfail e)"
  by (simp add: keeps_def pfail_def reflp_def)

lemma keeps_pread [keeps_intro]: "reflp R \<Longrightarrow> keeps R (pread f)"
  by (simp add: keeps_def pread_def reflp_def)

lemma keeps_pgets [keeps_intro]: "reflp R \<Longrightarrow> keeps R (pgets f)"
  by (simp add: keeps_def pgets_def reflp_def)

lemma keeps_pmodify [keeps_intro]: "(\<And>s. R s (f s)) \<Longrightarrow> keeps R (pmodify f)"
  by (simp add: keeps_def pmodify_def)

lemma keeps_pbind [keeps_intro]:
  assumes "transp R" and "keeps R m" and "\<And>x. keeps R (f x)"
  shows "keeps R (pbind m f)"
proof (rule keepsI)
  fix s
  obtain r s' where m: "m s = (r, s')" by (cases "m s")
  with keepsD [OF assms(2), of s] have st: "R s s'" by simp
  show "R s (snd (pbind m f s))"
  proof (cases r)
    case (Inl e)
    with m st show ?thesis by (simp add: pbind_def)
  next
    case (Inr x)
    with m have "snd (pbind m f s) = snd (f x s')" by (simp add: pbind_def)
    with st keepsD [OF assms(3), of s' x] assms(1) show ?thesis
      by (metis transpD)
  qed
qed

lemma keeps_pthen [keeps_intro]:
  "transp R \<Longrightarrow> keeps R m \<Longrightarrow> keeps R n \<Longrightarrow> keeps R (pthen m n)"
  by (simp add: pthen_def keeps_pbind)

lemma keeps_pwhen [keeps_intro]: "reflp R \<Longrightarrow> keeps R m \<Longrightarrow> keeps R (pwhen b m)"
  by (simp add: pwhen_def keeps_pret)

lemma keeps_if [keeps_intro]: "(b \<Longrightarrow> keeps R m) \<Longrightarrow> (\<not> b \<Longrightarrow> keeps R n) \<Longrightarrow> keeps R (if b then m else n)"
  by simp

lemma keeps_Let [keeps_intro]: "(\<And>x. keeps R (f x)) \<Longrightarrow> keeps R (Let v f)"
  by (simp add: Let_def)

lemma keeps_case_option [keeps_intro]:
  "keeps R m \<Longrightarrow> (\<And>x. keeps R (f x)) \<Longrightarrow> keeps R (case v of None \<Rightarrow> m | Some x \<Rightarrow> f x)"
  by (simp split: option.splits)

lemma keeps_case_prod [keeps_intro]: "(\<And>x y. keeps R (f x y)) \<Longrightarrow> keeps R (case v of (x, y) \<Rightarrow> f x y)"
  by (simp split: prod.splits)

text \<open>\<open>ensures Q m\<close>: if \<open>m\<close> succeeds, \<open>Q\<close> holds of the state it leaves.\<close>

definition ensures :: "('s \<Rightarrow> bool) \<Rightarrow> ('s, 'e, 'r) proc \<Rightarrow> bool" where
  "ensures Q m \<longleftrightarrow> (\<forall>s x s'. m s = (Inr x, s') \<longrightarrow> Q s')"

lemma ensures_pbind: "(\<And>x. ensures Q (f x)) \<Longrightarrow> ensures Q (pbind m f)"
  by (auto simp: ensures_def pbind_def split: prod.splits sum.splits)

lemma ensures_pthen: "ensures Q m' \<Longrightarrow> ensures Q (pthen m m')"
  by (simp add: pthen_def ensures_pbind)

lemma ensures_case_prod: "(\<And>x y. ensures Q (f x y)) \<Longrightarrow> ensures Q (case v of (x, y) \<Rightarrow> f x y)"
  by (simp split: prod.splits)

lemma ensures_Let: "(\<And>x. ensures Q (f x)) \<Longrightarrow> ensures Q (Let v f)"
  by (simp add: Let_def)

lemma ensures_kept:
  assumes "ensures Q m" and "keeps R m'" and "\<And>s s'. Q s \<Longrightarrow> R s s' \<Longrightarrow> Q s'"
  shows "ensures Q (pthen m m')"
  unfolding ensures_def
proof (intro allI impI)
  fix s x s' assume "pthen m m' s = (Inr x, s')"
  then obtain s1 where "m s = (Inr (), s1)" "m' s1 = (Inr x, s')" by (auto simp: pthen_def pbind_def split: prod.splits sum.splits)
  with assms(1,3) keepsD [OF assms(2), of s1] show "Q s'" by (auto simp: ensures_def)
qed

text \<open>
  \<open>hoare A m B F\<close>: from a state with \<open>A\<close>, \<open>m\<close> either succeeds with a result and a state that satisfy \<open>B\<close>, or
  fails in a state that satisfies \<open>F\<close>.
\<close>

definition hoare :: "('s \<Rightarrow> bool) \<Rightarrow> ('s, 'e, 'r) proc \<Rightarrow> ('r \<Rightarrow> 's \<Rightarrow> bool) \<Rightarrow> ('s \<Rightarrow> bool) \<Rightarrow> bool" where
  "hoare A m B F \<longleftrightarrow> (\<forall>s. A s \<longrightarrow> (case m s of (Inr x, s') \<Rightarrow> B x s' | (Inl _, s') \<Rightarrow> F s'))"

lemma hoare_pbind: "hoare A m B F \<Longrightarrow> (\<And>x. hoare (B x) (f x) C F) \<Longrightarrow> hoare A (pbind m f) C F"
  by (fastforce simp: hoare_def pbind_def split: prod.splits sum.splits)

lemma hoare_pthen: "hoare A m (\<lambda>_. B) F \<Longrightarrow> hoare B m' C F \<Longrightarrow> hoare A (pthen m m') C F"
  unfolding pthen_def by (rule hoare_pbind)

lemma hoare_pret: "(\<And>s. A s \<Longrightarrow> B x s) \<Longrightarrow> hoare A (pret x) B F"
  by (simp add: hoare_def pret_def)

lemma hoare_pread: "(\<And>s. A s \<Longrightarrow> F s) \<Longrightarrow> hoare A (pread f) (\<lambda>x s. A s \<and> f s = Inr x) F"
  by (simp add: hoare_def pread_def split: sum.splits)

lemma hoare_pgets: "hoare A (pgets f) (\<lambda>x s. A s \<and> x = f s) F"
  by (simp add: hoare_def pgets_def)

lemma hoare_conseq:
  "hoare A m B F \<Longrightarrow> (\<And>s. A' s \<Longrightarrow> A s) \<Longrightarrow> (\<And>x s. B x s \<Longrightarrow> B' x s) \<Longrightarrow> (\<And>s. F s \<Longrightarrow> F' s) \<Longrightarrow> hoare A' m B' F'"
  by (simp add: hoare_def split: prod.splits sum.splits) blast

lemma hoare_if: "(b \<Longrightarrow> hoare A m B F) \<Longrightarrow> (\<not> b \<Longrightarrow> hoare A m' B F) \<Longrightarrow> hoare A (if b then m else m') B F"
  by simp

lemma hoare_assume: "(p \<Longrightarrow> hoare A m B F) \<Longrightarrow> hoare (\<lambda>s. A s \<and> p) m B F"
  by (auto simp: hoare_def)

lemma hoare_exI:
  assumes "\<And>x. hoare (A x) m B F"
  shows "hoare (\<lambda>s. \<exists>x. A x s) m B F"
  unfolding hoare_def
proof (intro allI impI, elim exE)
  fix s x assume "A x s"
  with assms [of x] show "case m s of (Inr y, s') \<Rightarrow> B y s' | (Inl _, s') \<Rightarrow> F s'" by (simp add: hoare_def)
qed

lemma hoare_keeps: "keeps R m \<Longrightarrow> (\<And>s s'. A s \<Longrightarrow> R s s' \<Longrightarrow> A s') \<Longrightarrow> (\<And>s. A s \<Longrightarrow> F s) \<Longrightarrow> hoare A m (\<lambda>_. A) F"
  by (fastforce simp: hoare_def keeps_def split: prod.splits sum.splits)

lemma keeps_hoare:
  assumes "\<And>s0. hoare (\<lambda>s. s = s0) m (\<lambda>_. R s0) (R s0)"
  shows "keeps R m"
proof (rule keepsI)
  fix s
  from assms [of s] show "R s (snd (m s))" by (simp add: hoare_def split: prod.splits sum.splits)
qed

end
