(* ===== verification/Rust_Std.thy ===== *)
theory Rust_Std
  imports Prelude
begin

text \<open>
  The containers and searches of the Rust standard library that the sources call: hash maps
  and hash sets (as lists in an arbitrary iteration order), the binary search of slices, and the
  non-blocking receive of channels.
\<close>

section \<open>Hash maps\<close>

text \<open>
  A \<^verbatim>\<open>HashMap\<close> is the list of its entries in the order an iterator would visit them. Rust
  leaves that order open, so no statement below depends on it.
\<close>

type_synonym ('k, 'v) hash_map = "('k \<times> 'v) list"

definition hm_get :: "('k, 'v) hash_map \<Rightarrow> 'k \<Rightarrow> 'v option" where
  "hm_get m k = map_of m k"

definition hm_contains_key :: "('k, 'v) hash_map \<Rightarrow> 'k \<Rightarrow> bool" where
  "hm_contains_key m k \<longleftrightarrow> map_of m k \<noteq> None"

definition hm_insert :: "('k, 'v) hash_map \<Rightarrow> 'k \<Rightarrow> 'v \<Rightarrow> ('k, 'v) hash_map" where
  "hm_insert m k v = AList.update k v m"

definition hm_remove :: "('k, 'v) hash_map \<Rightarrow> 'k \<Rightarrow> ('k, 'v) hash_map" where
  "hm_remove m k = AList.delete k m"

text \<open>\<^verbatim>\<open>==\<close> of two hash maps: the same number of entries, and every entry of one is in the other.\<close>

definition hm_eq :: "('k, 'v) hash_map \<Rightarrow> ('k, 'v) hash_map \<Rightarrow> bool" where
  "hm_eq a b \<longleftrightarrow> length a = length b \<and> list_all (\<lambda>(k, v). map_of b k = Some v) a"

text \<open>The representation invariant: one entry per key.\<close>

definition hm_ok :: "('k, 'v) hash_map \<Rightarrow> bool" where
  "hm_ok m \<longleftrightarrow> distinct (map fst m)"

lemma hm_ok_Nil [simp]: "hm_ok []"
  by (simp add: hm_ok_def)

lemma hm_ok_insert [simp]: "hm_ok m \<Longrightarrow> hm_ok (hm_insert m k v)"
  by (simp add: hm_ok_def hm_insert_def distinct_update)

lemma hm_ok_remove [simp]: "hm_ok m \<Longrightarrow> hm_ok (hm_remove m k)"
  by (simp add: hm_ok_def hm_remove_def distinct_delete)

lemma hm_get_Nil [simp]: "hm_get [] k = None"
  by (simp add: hm_get_def)

lemma hm_get_insert [simp]: "hm_get (hm_insert m k v) k' = (if k' = k then Some v else hm_get m k')"
  by (simp add: hm_get_def hm_insert_def update_conv)

lemma hm_get_remove [simp]: "hm_get (hm_remove m k) k' = (if k' = k then None else hm_get m k')"
  by (simp add: hm_get_def hm_remove_def delete_conv)

lemma hm_contains_key_iff: "hm_contains_key m k \<longleftrightarrow> k \<in> fst ` set m"
  by (auto simp: hm_contains_key_def map_of_eq_None_iff)

lemma hm_contains_key_get: "hm_contains_key m k \<longleftrightarrow> hm_get m k \<noteq> None"
  by (simp add: hm_contains_key_def hm_get_def)

lemma set_keys_hm_insert [simp]: "fst ` set (hm_insert m k v) = insert k (fst ` set m)"
  by (simp add: hm_insert_def dom_update)

lemma set_keys_hm_remove [simp]: "fst ` set (hm_remove m k) = fst ` set m - {k}"
  by (simp add: hm_remove_def delete_keys flip: set_map)

lemma hm_ok_set_iff: "hm_ok m \<Longrightarrow> (k, v) \<in> set m \<longleftrightarrow> hm_get m k = Some v"
  by (simp add: hm_ok_def hm_get_def)

lemma hm_ok_map_of_set:
  assumes "hm_ok m"
  shows "set m = {(k, v). map_of m k = Some v}"
  using assms by (auto simp: hm_ok_def)

lemma hm_ok_length_eq_card: "hm_ok m \<Longrightarrow> length m = card (fst ` set m)"
  using distinct_card [of "map fst m"] by (simp add: hm_ok_def)

lemma hm_eq_iff:
  assumes "hm_ok a" and "hm_ok b"
  shows "hm_eq a b \<longleftrightarrow> map_of a = map_of b"
proof
  assume "hm_eq a b"
  then have len: "length a = length b" and sub: "set a \<subseteq> set b"
    using assms by (auto simp: hm_eq_def list_all_iff hm_ok_def)
  have "distinct a" "distinct b" using assms by (auto simp: hm_ok_def distinct_map)
  with len have "card (set a) = card (set b)" by (simp add: distinct_card)
  with sub have "set a = set b" by (simp add: card_subset_eq)
  with assms show "map_of a = map_of b" by (simp add: hm_ok_def map_of_inject_set)
next
  assume eq: "map_of a = map_of b"
  with assms have "set a = set b" by (simp add: hm_ok_def map_of_inject_set)
  moreover have "distinct a" "distinct b" using assms by (auto simp: hm_ok_def distinct_map)
  ultimately have "length a = length b" by (metis distinct_card)
  moreover have "\<forall>(k, v) \<in> set a. map_of b k = Some v"
    using assms(1) by (auto simp: hm_ok_def simp flip: eq)
  ultimately show "hm_eq a b" by (simp add: hm_eq_def list_all_iff)
qed

lemma hm_eq_refl [simp]: "hm_ok a \<Longrightarrow> hm_eq a a"
  by (simp add: hm_eq_iff)

text \<open>A sum over the values does not depend on the iteration order.\<close>

lemma sum_list_hm:
  fixes f :: "'v \<Rightarrow> 'b::comm_monoid_add"
  assumes "hm_ok m"
  shows "sum_list (map (\<lambda>(k, v). f v) m) = (\<Sum>k \<in> fst ` set m. f (the (hm_get m k)))"
proof -
  from assms have d: "distinct (map fst m)" by (simp add: hm_ok_def)
  then have "distinct m" by (simp add: distinct_map)
  then have "sum_list (map (\<lambda>(k, v). f v) m) = (\<Sum>(k, v) \<in> set m. f v)"
    by (simp add: sum_list_distinct_conv_sum_set)
  also have "\<dots> = (\<Sum>p \<in> set m. f (the (hm_get m (fst p))))"
    using assms by (intro sum.cong) (auto simp: hm_ok_set_iff)
  also have "\<dots> = (\<Sum>k \<in> fst ` set m. f (the (hm_get m k)))"
    using d by (simp add: sum.reindex distinct_map)
  finally show ?thesis .
qed

section \<open>Hash sets\<close>

type_synonym 'k hash_set = "'k list"

definition hs_insert :: "'k hash_set \<Rightarrow> 'k \<Rightarrow> 'k hash_set" where
  "hs_insert s k = (if k \<in> set s then s else s @ [k])"

definition hs_remove :: "'k hash_set \<Rightarrow> 'k \<Rightarrow> 'k hash_set" where
  "hs_remove s k = removeAll k s"

definition hs_contains :: "'k hash_set \<Rightarrow> 'k \<Rightarrow> bool" where
  "hs_contains s k \<longleftrightarrow> k \<in> set s"

lemma hs_contains_insert [simp]: "hs_contains (hs_insert s k) k' \<longleftrightarrow> k' = k \<or> hs_contains s k'"
  by (auto simp: hs_contains_def hs_insert_def)

lemma hs_contains_remove [simp]: "hs_contains (hs_remove s k) k' \<longleftrightarrow> k' \<noteq> k \<and> hs_contains s k'"
  by (auto simp: hs_contains_def hs_remove_def)

lemma hs_contains_Nil [simp]: "\<not> hs_contains [] k"
  by (simp add: hs_contains_def)

lemma distinct_hs_insert [simp]: "distinct s \<Longrightarrow> distinct (hs_insert s k)"
  by (simp add: hs_insert_def)

lemma distinct_hs_remove [simp]: "distinct s \<Longrightarrow> distinct (hs_remove s k)"
  by (simp add: hs_remove_def distinct_removeAll)

section \<open>Binary search\<close>

text \<open>
  \<^verbatim>\<open>slice::binary_search_by\<close> on the window \<open>l..r\<close>: \<open>Inr\<close> is \<^verbatim>\<open>Ok(pos)\<close>, \<open>Inl\<close> is
  \<^verbatim>\<open>Err(insert_pos)\<close>.
\<close>

function bsearch_loop :: "'a::linorder list \<Rightarrow> 'a \<Rightarrow> nat \<Rightarrow> nat \<Rightarrow> nat + nat" where
  "bsearch_loop xs k l r =
     (if l < r then
        let m = l + (r - l) div 2 in
        if xs ! m < k then bsearch_loop xs k (m + 1) r
        else if k < xs ! m then bsearch_loop xs k l m
        else Inr m
      else Inl l)"
  by pat_completeness auto
termination
  by (relation "measure (\<lambda>(xs, k, l, r). r - l)") auto

declare bsearch_loop.simps [simp del]

definition binary_search :: "'a::linorder list \<Rightarrow> 'a \<Rightarrow> nat + nat" where
  "binary_search xs k = bsearch_loop xs k 0 (length xs)"

text \<open>\<^verbatim>\<open>Vec::insert\<close> and \<^verbatim>\<open>Vec::remove\<close> at a position in range.\<close>

definition vec_insert :: "'a list \<Rightarrow> nat \<Rightarrow> 'a \<Rightarrow> 'a list" where
  "vec_insert xs i x = take i xs @ x # drop i xs"

definition vec_remove :: "'a list \<Rightarrow> nat \<Rightarrow> 'a list" where
  "vec_remove xs i = take i xs @ drop (i + 1) xs"

lemma bsearch_loop_Inr:
  assumes "bsearch_loop xs k l r = Inr i" and "r \<le> length xs"
  shows "i < length xs \<and> xs ! i = k"
  using assms
proof (induction xs k l r rule: bsearch_loop.induct)
  case (1 xs k l r)
  define m where "m = l + (r - l) div 2"
  note unf = bsearch_loop.simps [of xs k l r, folded m_def, unfolded Let_def]
  show ?case
    using "1.IH"(1) [OF _ m_def] "1.IH"(2) [OF _ m_def] "1.prems"
    by (simp only: unf) (auto simp: m_def split: if_splits)
qed

lemma bsearch_loop_Inl:
  assumes "bsearch_loop xs k l r = Inl i" and "sorted xs" and "l \<le> r" and "r \<le> length xs"
    and "\<And>j. j < l \<Longrightarrow> xs ! j < k" and "\<And>j. r \<le> j \<Longrightarrow> j < length xs \<Longrightarrow> k < xs ! j"
  shows "i \<le> length xs \<and> (\<forall>j < i. xs ! j < k) \<and> (\<forall>j. i \<le> j \<longrightarrow> j < length xs \<longrightarrow> k < xs ! j)"
  using assms
proof (induction xs k l r rule: bsearch_loop.induct)
  case (1 xs k l r)
  define m where "m = l + (r - l) div 2"
  show ?case
  proof (cases "l < r")
    case False
    then have "bsearch_loop xs k l r = Inl l" by (simp add: bsearch_loop.simps)
    with False "1.prems" show ?thesis by auto
  next
    case True
    then have m: "l \<le> m" "m < r" "m < length xs"
      using "1.prems"(4) by (auto simp: m_def)
    consider (lt) "xs ! m < k" | (gt) "k < xs ! m" | (eq) "xs ! m = k" by force
    then show ?thesis
    proof cases
      case lt
      have lo: "\<And>j. j < m + 1 \<Longrightarrow> xs ! j < k"
        using lt m "1.prems"(2) by (metis Suc_eq_plus1 le_less_trans less_Suc_eq_le sorted_nth_mono)
      have rec: "bsearch_loop xs k (m + 1) r = Inl i"
        using "1.prems"(1) True lt by (simp add: bsearch_loop.simps [of xs k l r] Let_def flip: m_def)
      show ?thesis
        by (rule "1.IH"(1) [OF True m_def lt rec "1.prems"(2) _ "1.prems"(4) lo "1.prems"(6)])
          (use m in auto)
    next
      case gt
      then have ngt: "\<not> xs ! m < k" by simp
      have hi: "\<And>j. m \<le> j \<Longrightarrow> j < length xs \<Longrightarrow> k < xs ! j"
        using gt m "1.prems"(2) by (metis less_le_trans sorted_nth_mono)
      have rec: "bsearch_loop xs k l m = Inl i"
        using "1.prems"(1) True gt ngt by (simp add: bsearch_loop.simps [of xs k l r] Let_def flip: m_def)
      show ?thesis
        by (rule "1.IH"(2) [OF True m_def ngt gt rec "1.prems"(2) m(1) _ "1.prems"(5) hi])
          (use m in auto)
    next
      case eq
      then show ?thesis
        using "1.prems"(1) True by (simp add: bsearch_loop.simps [of xs k l r] Let_def flip: m_def)
    qed
  qed
qed

lemma binary_search_Inr: "binary_search xs k = Inr i \<Longrightarrow> i < length xs \<and> xs ! i = k"
  by (auto simp: binary_search_def dest: bsearch_loop_Inr)

lemma binary_search_Inl:
  assumes "binary_search xs k = Inl i" and "sorted xs"
  shows "i \<le> length xs" and "\<And>j. j < i \<Longrightarrow> xs ! j < k"
    and "\<And>j. i \<le> j \<Longrightarrow> j < length xs \<Longrightarrow> k < xs ! j"
  using bsearch_loop_Inl [of xs k 0 "length xs" i] assms by (auto simp: binary_search_def)

lemma binary_search_Inl_notin:
  assumes "binary_search xs k = Inl i" and "sorted xs"
  shows "k \<notin> set xs"
proof
  assume "k \<in> set xs"
  then obtain j where "j < length xs" "xs ! j = k" by (auto simp: in_set_conv_nth)
  with binary_search_Inl(2,3) [OF assms, of j] show False by (cases "j < i") auto
qed

lemma binary_search_Inr_in: "binary_search xs k = Inr i \<Longrightarrow> k \<in> set xs"
  using binary_search_Inr nth_mem by metis

lemma binary_search_found_iff:
  assumes "sorted xs"
  shows "(\<exists>i. binary_search xs k = Inr i) \<longleftrightarrow> k \<in> set xs"
  using assms binary_search_Inl_notin binary_search_Inr_in
  by (metis sum.exhaust)

lemma binary_search_Inl_split:
  assumes "binary_search xs k = Inl i" and "sorted xs"
  shows "\<forall>x \<in> set (take i xs). x < k" and "\<forall>x \<in> set (drop i xs). k < x"
proof -
  show "\<forall>x \<in> set (take i xs). x < k"
    using binary_search_Inl(2) [OF assms] by (auto simp: in_set_conv_nth)
  show "\<forall>x \<in> set (drop i xs). k < x"
  proof
    fix x assume "x \<in> set (drop i xs)"
    then obtain j where "j < length (drop i xs)" "drop i xs ! j = x" by (auto simp: in_set_conv_nth)
    with binary_search_Inl(1,3) [OF assms] show "k < x" by (auto simp: nth_drop)
  qed
qed

lemma set_vec_insert [simp]: "set (vec_insert xs i x) = insert x (set xs)"
proof -
  have "set xs = set (take i xs) \<union> set (drop i xs)"
    by (metis append_take_drop_id set_append)
  then show ?thesis by (auto simp: vec_insert_def)
qed

lemma length_vec_insert [simp]: "length (vec_insert xs i x) = Suc (length xs)"
  by (simp add: vec_insert_def)

lemma sorted_distinct_vec_insert:
  assumes "binary_search xs k = Inl i" and "sorted xs" and "distinct xs"
  shows "sorted (vec_insert xs i k)" and "distinct (vec_insert xs i k)"
proof -
  note lo = binary_search_Inl_split(1) [OF assms(1,2)] and hi = binary_search_Inl_split(2) [OF assms(1,2)]
  have split: "sorted (take i xs @ drop i xs)" "distinct (take i xs @ drop i xs)"
    using assms by simp_all
  show "sorted (vec_insert xs i k)"
    using split(1) lo hi unfolding vec_insert_def sorted_append by (auto intro: less_imp_le)
  show "distinct (vec_insert xs i k)"
    using split(2) lo hi unfolding vec_insert_def distinct_append by auto
qed

lemma vec_remove_eq:
  assumes "i < length xs" and "distinct xs"
  shows "vec_remove xs i = removeAll (xs ! i) xs"
proof -
  have xs: "xs = take i xs @ xs ! i # drop (i + 1) xs"
    using assms(1) by (simp add: id_take_nth_drop)
  moreover from this assms(2) have "xs ! i \<notin> set (take i xs)" "xs ! i \<notin> set (drop (i + 1) xs)"
    by (metis distinct_append distinct.simps(2) disjoint_iff list.set_intros(1))+
  ultimately have "removeAll (xs ! i) xs = take i xs @ drop (i + 1) xs"
    by (metis append_Cons append_Nil removeAll.simps(2) removeAll_append removeAll_id)
  then show ?thesis by (simp add: vec_remove_def)
qed

section \<open>Channels\<close>

text \<open>
  What \<^verbatim>\<open>try_recv\<close> of an \<^verbatim>\<open>mpsc\<close> receiver returns: a value, or that there is none now, or none ever
  again. A channel that nobody sends to any more still delivers what was sent before.
\<close>

datatype 'a try_recv_result = TryOk 'a | TryEmpty | TryDisconnected

fun try_recv :: "bool \<Rightarrow> 'a list \<Rightarrow> 'a try_recv_result \<times> 'a list" where
  "try_recv connected [] = (if connected then TryEmpty else TryDisconnected, [])"
| "try_recv connected (x # xs) = (TryOk x, xs)"

end
