(* ===== verification/Data_Types.thy ===== *)
theory Data_Types
  imports Rust_Std
begin

text \<open>
  The data of the program (\<^verbatim>\<open>types/data_types.rs\<close>, \<^verbatim>\<open>types/block.rs\<close>, the certificate structs of
  \<^verbatim>\<open>hotstuff/types.rs\<close> and \<^verbatim>\<open>pacemaker/types.rs\<close>), the failures its functions can return or
  panic with, and the record of third-party primitives (Borsh, SHA-256, Ed25519) that the
  definitions take as an argument.
\<close>

section \<open>Newtypes\<close>

text \<open>
  A newtype around an integer is that integer at its width; \<^verbatim>\<open>new\<close> and \<^verbatim>\<open>int\<close> are the identity.
  Byte arrays of fixed length are words read big-endian, so that the lexicographic comparison
  of two arrays is the order of the words. Arithmetic wraps, as in a release build.
\<close>

type_synonym chain_id = u64
type_synonym block_height = u64
type_synonym view_number = u64
type_synonym power = u64
type_synonym total_power = u128
type_synonym data_len = u32
type_synonym epoch_length = u32
type_synonym buffer_size = u64
type_synonym crypto_hash = "256 word"
type_synonym signature_bytes = "512 word"
type_synonym verifying_key = "256 word"
type_synonym signing_key = "256 word"
type_synonym datum = "u8 list"
type_synonym data = "datum list"
type_synonym children_list = "crypto_hash list"
type_synonym signature_set = "signature_bytes option list"

definition crypto_hash_bytes :: "crypto_hash \<Rightarrow> u8 list" where
  "crypto_hash_bytes h = be_bytes 32 h"

definition signature_bytes_bytes :: "signature_bytes \<Rightarrow> u8 list" where
  "signature_bytes_bytes s = be_bytes 64 s"

definition block_height_to_le_bytes :: "block_height \<Rightarrow> u8 list" where
  "block_height_to_le_bytes h = le_bytes 8 h"

definition children_push :: "children_list \<Rightarrow> crypto_hash \<Rightarrow> children_list" where
  "children_push cs h = cs @ [h]"

definition data_len_of :: "data \<Rightarrow> data_len" where
  "data_len_of d = of_nat (length d)"

definition total_power_add :: "total_power \<Rightarrow> power \<Rightarrow> total_power" where
  "total_power_add t p = t + ucast p"

definition view_init :: view_number where
  "view_init = 0"

text \<open>The difference of two views, an \<^verbatim>\<open>i64\<close>.\<close>

definition view_sub :: "view_number \<Rightarrow> view_number \<Rightarrow> 64 word" where
  "view_sub a b = a - b"

section \<open>Failures\<close>

datatype panic =
    QuorumOverflow | EmptyValidatorSet | RemainderByZero | LeaderIndexNotFound
  | UnwrapOnNone | UnwrapOnErr | ExpectOnErr | UnwrapErrOnOk | UnreachableReached | AssertionFailed | IndexOutOfBounds
  | ExplicitPanic | InstantOverflow

text \<open>\<^verbatim>\<open>Key\<close>: the state variables, as error messages name them.\<close>

datatype key =
    BlockHeightKey crypto_hash | BlockJustifyKey crypto_hash | BlockDataHashKey crypto_hash
  | BlockDataLengthKey crypto_hash | BlockDataKey crypto_hash | BlockAtHeightKey block_height
  | BlockChildrenKey crypto_hash | CommittedAppStateKey "u8 list"
  | PendingAppStateUpdatesKey crypto_hash | CommittedValidatorSetKey
  | ValidatorSetUpdatesStatusKey crypto_hash | LockedPCKey | HighestViewEnteredKey | HighestPCKey
  | HighestCommittedBlockKey | NewestBlockKey | HighestTCKey | PreviousValidatorSetKey
  | ValidatorSetUpdateHeightKey | ValidatorSetUpdateDecidedKey | HighestViewPhaseVotedKey

datatype kv_get_error =
    DeserializeValueError key | ValueExpectedButNotFound key | Ed25519DalekError key

datatype block_tree_error =
    KVGetError kv_get_error | KVSetError key | BlockExpectedButNotFound crypto_hash

datatype update_view_error =
    NonIncreasingViewError view_number view_number | GetViewTimeoutError view_number

datatype extend_view_error =
    TriedToExtendNonEpochView view_number | ExtendGetViewTimeoutError view_number

text \<open>
  \<^verbatim>\<open>HotStuffError\<close>, \<^verbatim>\<open>PacemakerError\<close> and \<^verbatim>\<open>BlockSyncClientError\<close> wrap these; the \<^verbatim>\<open>From\<close>
  conversions that \<^verbatim>\<open>?\<close> inserts are the constructors. A panic is a failure too, and so is a
  loop that never ends.
\<close>

datatype fault =
    Panicked panic | BlockTreeFault block_tree_error
  | UpdateViewFault update_view_error | ExtendViewFault extend_view_error | Diverged

type_synonym 'a res = "fault + 'a"

definition get_err :: "kv_get_error \<Rightarrow> fault" where
  "get_err e = BlockTreeFault (KVGetError e)"

text \<open>The result of a loop whose not returning is the value \<open>None\<close>.\<close>

definition returns :: "'a res option \<Rightarrow> 'a res" where
  "returns r = (case r of None \<Rightarrow> Inl Diverged | Some x \<Rightarrow> x)"

lemma returns_simps [simp]: "returns None = Inl Diverged" "returns (Some x) = x"
  by (simp_all add: returns_def)

section \<open>Signature sets\<close>

definition signature_set_genesis :: signature_set where
  "signature_set_genesis = []"

definition signature_set_new :: "nat \<Rightarrow> signature_set" where
  "signature_set_new len = replicate len None"

definition signature_set_get :: "signature_set \<Rightarrow> nat \<Rightarrow> signature_bytes option res" where
  "signature_set_get ss pos =
     (if pos < length ss then Inr (ss ! pos) else Inl (Panicked IndexOutOfBounds))"

definition signature_set_set ::
  "signature_set \<Rightarrow> nat \<Rightarrow> signature_bytes option \<Rightarrow> signature_set res" where
  "signature_set_set ss pos sig =
     (if pos < length ss then Inr (ss[pos := sig]) else Inl (Panicked IndexOutOfBounds))"

section \<open>Phases, certificates and blocks\<close>

datatype phase = Generic | Prepare | Precommit | Commit | Decide

fun is_generic :: "phase \<Rightarrow> bool" where
  "is_generic Generic = True" | "is_generic _ = False"

fun is_prepare :: "phase \<Rightarrow> bool" where
  "is_prepare Prepare = True" | "is_prepare _ = False"

fun is_precommit :: "phase \<Rightarrow> bool" where
  "is_precommit Precommit = True" | "is_precommit _ = False"

fun is_commit :: "phase \<Rightarrow> bool" where
  "is_commit Commit = True" | "is_commit _ = False"

fun is_decide :: "phase \<Rightarrow> bool" where
  "is_decide Decide = True" | "is_decide _ = False"

record phase_certificate =
  pc_chain_id :: chain_id
  pc_view :: view_number
  pc_block :: crypto_hash
  pc_phase :: phase
  pc_signatures :: signature_set

record timeout_certificate =
  tc_chain_id :: chain_id
  tc_view :: view_number
  tc_signatures :: signature_set

record block =
  b_height :: block_height
  b_hash :: crypto_hash
  b_justify :: phase_certificate
  b_data_hash :: crypto_hash
  b_data :: data

definition genesis_pc :: phase_certificate where
  "genesis_pc = \<lparr>pc_chain_id = 0, pc_view = view_init, pc_block = 0, pc_phase = Generic,
     pc_signatures = signature_set_genesis\<rparr>"

definition is_genesis_pc :: "phase_certificate \<Rightarrow> bool" where
  "is_genesis_pc pc \<longleftrightarrow> pc = genesis_pc"

definition is_block_justify :: "phase_certificate \<Rightarrow> bool" where
  "is_block_justify pc \<longleftrightarrow> is_generic (pc_phase pc) \<or> is_decide (pc_phase pc)"

definition is_nudge_justify :: "phase_certificate \<Rightarrow> bool" where
  "is_nudge_justify pc \<longleftrightarrow>
     is_prepare (pc_phase pc) \<or> is_precommit (pc_phase pc) \<or> is_commit (pc_phase pc)"

lemma genesis_pc_sel [simp]:
  "pc_chain_id genesis_pc = 0" "pc_view genesis_pc = 0" "pc_block genesis_pc = 0"
  "pc_phase genesis_pc = Generic" "pc_signatures genesis_pc = []"
  by (simp_all add: genesis_pc_def view_init_def signature_set_genesis_def)

lemma is_genesis_pc_genesis [simp]: "is_genesis_pc genesis_pc"
  by (simp add: is_genesis_pc_def)

lemma phase_tests [simp]:
  "is_generic p \<longleftrightarrow> p = Generic" "is_prepare p \<longleftrightarrow> p = Prepare" "is_precommit p \<longleftrightarrow> p = Precommit"
  "is_commit p \<longleftrightarrow> p = Commit" "is_decide p \<longleftrightarrow> p = Decide"
  by (cases p; simp)+

text \<open>
  The phases in the order in which a validator-set-updating block goes through them; \<open>Generic\<close>
  is the one phase of the pipelined mode.
\<close>

instantiation phase :: linorder
begin

fun phase_rank :: "phase \<Rightarrow> nat" where
  "phase_rank Generic = 0" | "phase_rank Prepare = 1" | "phase_rank Precommit = 2"
| "phase_rank Commit = 3" | "phase_rank Decide = 4"

definition less_eq_phase :: "phase \<Rightarrow> phase \<Rightarrow> bool" where
  "less_eq_phase p q \<longleftrightarrow> phase_rank p \<le> phase_rank q"

definition less_phase :: "phase \<Rightarrow> phase \<Rightarrow> bool" where
  "less_phase p q \<longleftrightarrow> phase_rank p < phase_rank q"

instance
proof
  fix p q r :: phase
  show "p < q \<longleftrightarrow> p \<le> q \<and> \<not> q \<le> p" by (auto simp: less_phase_def less_eq_phase_def)
  show "p \<le> p" by (simp add: less_eq_phase_def)
  show "p \<le> q \<Longrightarrow> q \<le> r \<Longrightarrow> p \<le> r" by (simp add: less_eq_phase_def)
  show "p \<le> q \<Longrightarrow> q \<le> p \<Longrightarrow> p = q" by (cases p; cases q) (simp_all add: less_eq_phase_def)
  show "p \<le> q \<or> q \<le> p" by (auto simp: less_eq_phase_def)
qed

end

section \<open>Third-party primitives\<close>

text \<open>
  The Borsh data model of the values that are hashed, signed or used in a key: a newtype is
  its field, a tuple or a struct the sequence of its fields, a field-less enum its tag.
\<close>

datatype borsh =
    BU8 u8 | BU32 u32 | BU64 u64 | BBytes "u8 list" | BTuple "borsh list" | BVec "borsh list"
  | BOption "borsh option"

text \<open>
  The primitives, with the names the crates give them: \<^verbatim>\<open>BorshSerialize::try_to_vec\<close>,
  \<^verbatim>\<open>Sha256\<close>, \<^verbatim>\<open>VerifyingKey::from_bytes\<close>, \<^verbatim>\<open>Signature::from_slice\<close> (does the slice parse),
  \<^verbatim>\<open>Verifier::verify\<close>, \<^verbatim>\<open>Signer::sign\<close> and \<^verbatim>\<open>SigningKey::verifying_key\<close>.
\<close>

record prims =
  try_to_vec :: "borsh \<Rightarrow> u8 list"
  sha256 :: "u8 list \<Rightarrow> crypto_hash"
  vk_from_bytes :: "256 word \<Rightarrow> verifying_key option"
  sig_from_slice :: "signature_bytes \<Rightarrow> bool"
  vk_verify :: "verifying_key \<Rightarrow> u8 list \<Rightarrow> signature_bytes \<Rightarrow> bool"
  sk_sign :: "signing_key \<Rightarrow> u8 list \<Rightarrow> signature_bytes"
  sk_verifying_key :: "signing_key \<Rightarrow> verifying_key"

text \<open>What the code relies on, each a documented law of the crate concerned.\<close>

definition borsh_ints :: "prims \<Rightarrow> bool" where
  "borsh_ints P \<longleftrightarrow> (\<forall>w. try_to_vec P (BU64 w) = le_bytes 8 w) \<and> (\<forall>w. try_to_vec P (BU32 w) = le_bytes 4 w)"

definition vk_parse_exact :: "prims \<Rightarrow> bool" where
  "vk_parse_exact P \<longleftrightarrow> (\<forall>b k. vk_from_bytes P b = Some k \<longrightarrow> k = b)"

definition sigs_verify :: "prims \<Rightarrow> bool" where
  "sigs_verify P \<longleftrightarrow>
     (\<forall>sk m. sig_from_slice P (sk_sign P sk m) \<and> vk_verify P (sk_verifying_key P sk) m (sk_sign P sk m))"

definition phase_tag :: "phase \<Rightarrow> u8" where
  "phase_tag p = (case p of Generic \<Rightarrow> 0 | Prepare \<Rightarrow> 1 | Precommit \<Rightarrow> 2 | Commit \<Rightarrow> 3 | Decide \<Rightarrow> 4)"

definition pc_borsh :: "phase_certificate \<Rightarrow> borsh" where
  "pc_borsh pc = BTuple [BU64 (pc_chain_id pc), BU64 (pc_view pc), BBytes (crypto_hash_bytes (pc_block pc)),
     BU8 (phase_tag (pc_phase pc)),
     BVec (map (\<lambda>s. BOption (map_option (\<lambda>b. BBytes (signature_bytes_bytes b)) s)) (pc_signatures pc))]"

section \<open>Blocks\<close>

definition block_compute_hash :: "prims \<Rightarrow> block_height \<Rightarrow> phase_certificate \<Rightarrow> crypto_hash \<Rightarrow> crypto_hash" where
  "block_compute_hash P height justify data_hash =
     sha256 P (try_to_vec P (BU64 height) @ try_to_vec P (pc_borsh justify)
       @ try_to_vec P (BBytes (crypto_hash_bytes data_hash)))"

definition block_new ::
  "prims \<Rightarrow> block_height \<Rightarrow> phase_certificate \<Rightarrow> crypto_hash \<Rightarrow> data \<Rightarrow> block res" where
  "block_new P height justify data_hash data =
     (if is_generic (pc_phase justify) \<or> is_decide (pc_phase justify)
      then Inr \<lparr>b_height = height, b_hash = block_compute_hash P height justify data_hash,
             b_justify = justify, b_data_hash = data_hash, b_data = data\<rparr>
      else Inl (Panicked AssertionFailed))"

section \<open>Keypairs\<close>

definition keypair_sign :: "prims \<Rightarrow> signing_key \<Rightarrow> u8 list \<Rightarrow> signature_bytes" where
  "keypair_sign P sk message = sk_sign P sk message"

definition keypair_public :: "prims \<Rightarrow> signing_key \<Rightarrow> verifying_key" where
  "keypair_public P sk = sk_verifying_key P sk"

lemma length_crypto_hash_bytes [simp]: "length (crypto_hash_bytes h) = 32"
  by (simp add: crypto_hash_bytes_def)

lemma crypto_hash_bytes_inject [simp]: "crypto_hash_bytes h = crypto_hash_bytes h' \<longleftrightarrow> h = h'"
  by (simp add: crypto_hash_bytes_def)

lemma length_block_height_to_le_bytes [simp]: "length (block_height_to_le_bytes h) = 8"
  by (simp add: block_height_to_le_bytes_def)

lemma block_height_to_le_bytes_inject [simp]:
  "block_height_to_le_bytes h = block_height_to_le_bytes h' \<longleftrightarrow> h = h'"
  by (simp add: block_height_to_le_bytes_def)

end
