(* ===== verification/Update_Sets.thy ===== *)
theory Update_Sets
  imports Data_Types
begin

text \<open>
  \<^verbatim>\<open>types/update_sets.rs\<close>: the insertions and deletions a block schedules, for the app state and
  for the validator set. The interface \<open>update_target\<close> states what a keyed store has to offer
  for an update set to be applied to it; the validator set and the committed app state both
  provide it.
\<close>

record ('k, 'v) update_set =
  us_inserts :: "('k, 'v) hash_map"
  us_deletes :: "'k hash_set"

type_synonym app_state_updates = "(u8 list, u8 list) update_set"
type_synonym validator_set_updates = "(verifying_key, power) update_set"
type_synonym validator_set_updates_bytes = "(256 word, power) update_set"

definition us_new :: "('k, 'v) update_set" where
  "us_new = \<lparr>us_inserts = [], us_deletes = []\<rparr>"

definition us_insert :: "('k, 'v) update_set \<Rightarrow> 'k \<Rightarrow> 'v \<Rightarrow> ('k, 'v) update_set" where
  "us_insert u k v = u\<lparr>us_deletes := hs_remove (us_deletes u) k, us_inserts := hm_insert (us_inserts u) k v\<rparr>"

definition us_delete :: "('k, 'v) update_set \<Rightarrow> 'k \<Rightarrow> ('k, 'v) update_set" where
  "us_delete u k = u\<lparr>us_inserts := hm_remove (us_inserts u) k, us_deletes := hs_insert (us_deletes u) k\<rparr>"

definition us_get_insert :: "('k, 'v) update_set \<Rightarrow> 'k \<Rightarrow> 'v option" where
  "us_get_insert u k = hm_get (us_inserts u) k"

definition us_contains_delete :: "('k, 'v) update_set \<Rightarrow> 'k \<Rightarrow> bool" where
  "us_contains_delete u k \<longleftrightarrow> hs_contains (us_deletes u) k"

text \<open>
  \<^verbatim>\<open>TryFrom<ValidatorSetUpdatesBytes>\<close> and its converse. Collecting the parsed entries into a
  \<^verbatim>\<open>Result\<close> fails at the first key that does not parse.
\<close>

definition vsu_parse_key :: "prims \<Rightarrow> 256 word \<Rightarrow> unit + verifying_key" where
  "vsu_parse_key P b = ok_or (vk_from_bytes P b) ()"

definition vsu_try_from :: "prims \<Rightarrow> validator_set_updates_bytes \<Rightarrow> unit + validator_set_updates" where
  "vsu_try_from P u =
     rbind (rmap (\<lambda>(b, p). rbind (vsu_parse_key P b) (\<lambda>k. Inr (k, p))) (us_inserts u)) (\<lambda>ins.
     rbind (rmap (vsu_parse_key P) (us_deletes u)) (\<lambda>del.
     Inr \<lparr>us_inserts = fold (\<lambda>(k, p) m. hm_insert m k p) ins [],
          us_deletes = fold (\<lambda>k s. hs_insert s k) del []\<rparr>))"

definition vsu_to_bytes :: "validator_set_updates \<Rightarrow> validator_set_updates_bytes" where
  "vsu_to_bytes u = \<lparr>us_inserts = fold (\<lambda>(k, p) m. hm_insert m k p) (us_inserts u) [],
                     us_deletes = fold (\<lambda>k s. hs_insert s k) (us_deletes u) []\<rparr>"

section \<open>The invariant and the meaning of an update set\<close>

definition us_ok :: "('k, 'v) update_set \<Rightarrow> bool" where
  "us_ok u \<longleftrightarrow> hm_ok (us_inserts u) \<and> distinct (us_deletes u)
     \<and> (\<forall>k. \<not> (hm_contains_key (us_inserts u) k \<and> hs_contains (us_deletes u) k))"

text \<open>The map that results when an update set is committed on top of a map.\<close>

definition us_apply :: "('k, 'v) update_set \<Rightarrow> ('k \<Rightarrow> 'v option) \<Rightarrow> 'k \<Rightarrow> 'v option" where
  "us_apply u m k =
     (if us_contains_delete u k then None
      else case us_get_insert u k of Some v \<Rightarrow> Some v | None \<Rightarrow> m k)"

lemma us_ok_new: "us_ok us_new"
  by (simp add: us_ok_def us_new_def)

lemma us_ok_insert: "us_ok u \<Longrightarrow> us_ok (us_insert u k v)"
  by (auto simp: us_ok_def us_insert_def hm_contains_key_get split: if_splits)

lemma us_ok_delete: "us_ok u \<Longrightarrow> us_ok (us_delete u k)"
  by (auto simp: us_ok_def us_delete_def hm_contains_key_get split: if_splits)

lemma us_apply_new: "us_apply us_new m = m"
  by (simp add: us_apply_def us_new_def us_contains_delete_def us_get_insert_def fun_eq_iff)

lemma us_apply_insert: "us_apply (us_insert u k v) m = (us_apply u m)(k \<mapsto> v)"
  by (auto simp: us_apply_def us_insert_def us_contains_delete_def us_get_insert_def fun_eq_iff
      split: option.splits)

lemma us_apply_delete: "us_apply (us_delete u k) m = (us_apply u m)(k := None)"
  by (auto simp: us_apply_def us_delete_def us_contains_delete_def us_get_insert_def fun_eq_iff
      split: option.splits)

section \<open>Stores an update set can be applied to\<close>

text \<open>Insertions first, deletions second, in iteration order.\<close>

definition apply_update_set ::
  "('t \<Rightarrow> 'k \<Rightarrow> 'v \<Rightarrow> 'e + 't) \<Rightarrow> ('t \<Rightarrow> 'k \<Rightarrow> 't) \<Rightarrow> ('k, 'v) update_set \<Rightarrow> 't \<Rightarrow> 'e + 't" where
  "apply_update_set put remove u t =
     rbind (rfold (\<lambda>(k, v) t. put t k v) (us_inserts u) t)
       (\<lambda>t. Inr (fold (\<lambda>k t. remove t k) (us_deletes u) t))"

locale update_target =
  fixes put :: "'t \<Rightarrow> 'k \<Rightarrow> 'v \<Rightarrow> 'e + 't"
    and remove :: "'t \<Rightarrow> 'k \<Rightarrow> 't"
    and lookup :: "'t \<Rightarrow> 'k \<Rightarrow> 'v option"
    and invar :: "'t \<Rightarrow> bool"
  assumes put_ok: "invar t \<Longrightarrow> \<exists>t'. put t k v = Inr t' \<and> invar t' \<and> lookup t' = (lookup t)(k \<mapsto> v)"
    and invar_remove: "invar t \<Longrightarrow> invar (remove t k)"
    and lookup_remove: "invar t \<Longrightarrow> lookup (remove t k) = (lookup t)(k := None)"
begin

lemma put_all:
  assumes "invar t" and "distinct (map fst kvs)"
  shows "\<exists>t'. rfold (\<lambda>(k, v) t. put t k v) kvs t = Inr t' \<and> invar t' \<and> lookup t' = lookup t ++ map_of kvs"
  using assms
proof (induction kvs arbitrary: t)
  case Nil
  then show ?case by simp
next
  case (Cons kv kvs)
  obtain k v where kv: "kv = (k, v)" by (cases kv)
  obtain t1 where t1: "put t k v = Inr t1" "invar t1" "lookup t1 = (lookup t)(k \<mapsto> v)"
    using put_ok [OF Cons.prems(1)] by blast
  obtain t2 where t2: "rfold (\<lambda>(k, v) t. put t k v) kvs t1 = Inr t2" "invar t2"
      "lookup t2 = lookup t1 ++ map_of kvs"
    using Cons.IH [OF t1(2)] Cons.prems(2) by auto
  have "map_of kvs k = None"
    using Cons.prems(2) kv by (simp add: map_of_eq_None_iff)
  then have "lookup t2 = lookup t ++ map_of (kv # kvs)"
    by (auto simp: t2(3) t1(3) kv map_add_def fun_eq_iff split: option.splits)
  moreover have "rfold (\<lambda>(k, v) t. put t k v) (kv # kvs) t = Inr t2"
    by (simp add: kv t1(1) t2(1))
  ultimately show ?case using t2(2) by blast
qed

lemma remove_all:
  assumes "invar t"
  shows "invar (fold (\<lambda>k t. remove t k) ks t)
    \<and> lookup (fold (\<lambda>k t. remove t k) ks t) = (\<lambda>k. if k \<in> set ks then None else lookup t k)"
  using assms
proof (induction ks arbitrary: t)
  case (Cons k ks)
  show ?case
    using Cons.IH [OF invar_remove [OF Cons.prems]] lookup_remove [OF Cons.prems]
    by (auto simp: fun_eq_iff)
qed simp

theorem apply_update_set_correct:
  assumes "invar t" and "us_ok u"
  shows "\<exists>t'. apply_update_set put remove u t = Inr t' \<and> invar t' \<and> lookup t' = us_apply u (lookup t)"
proof -
  obtain t1 where t1: "rfold (\<lambda>(k, v) t. put t k v) (us_inserts u) t = Inr t1" "invar t1"
      "lookup t1 = lookup t ++ map_of (us_inserts u)"
    using put_all [OF assms(1)] assms(2) by (auto simp: us_ok_def hm_ok_def)
  have "lookup (fold (\<lambda>k t. remove t k) (us_deletes u) t1) = us_apply u (lookup t)"
    using remove_all [OF t1(2), of "us_deletes u"]
    by (auto simp: t1(3) us_apply_def us_contains_delete_def us_get_insert_def hs_contains_def
        hm_get_def map_add_def fun_eq_iff)
  with remove_all [OF t1(2), of "us_deletes u"] t1(1) show ?thesis
    by (simp add: apply_update_set_def)
qed

end

section \<open>Serialised validator set updates\<close>

lemma hm_insert_fresh: "k \<notin> fst ` set m \<Longrightarrow> hm_insert m k v = m @ [(k, v)]"
  by (induction m) (auto simp: hm_insert_def)

lemma fold_hm_insert_distinct:
  "distinct (map fst (m @ kvs)) \<Longrightarrow> fold (\<lambda>(k, v) m. hm_insert m k v) kvs m = m @ kvs"
  by (induction kvs arbitrary: m) (auto simp: hm_insert_fresh)

lemma fold_hs_insert_distinct:
  "distinct (s @ ks) \<Longrightarrow> fold (\<lambda>k s. hs_insert s k) ks s = s @ ks"
  by (induction ks arbitrary: s) (auto simp: hs_insert_def)

text \<open>
  Round trip of the storage format of validator set updates: an update set with one entry per key whose keys are
  all valid Ed25519 keys is read back exactly as it was written, and reading never fails on it.
\<close>

lemma vsu_bytes_roundtrip:
  assumes "us_ok u" and "\<forall>k \<in> fst ` set (us_inserts u) \<union> set (us_deletes u). vk_from_bytes P k = Some k"
  shows "vsu_try_from P (vsu_to_bytes u) = Inr u"
proof -
  have valid: "\<And>k p. (k, p) \<in> set (us_inserts u) \<Longrightarrow> vk_from_bytes P k = Some k"
    using assms(2) by force
  have "vsu_to_bytes u = u"
    using assms(1) fold_hm_insert_distinct [of "[]" "us_inserts u"] fold_hs_insert_distinct [of "[]" "us_deletes u"]
    by (simp add: vsu_to_bytes_def us_ok_def hm_ok_def)
  moreover have "rmap (\<lambda>(b, p). rbind (vsu_parse_key P b) (\<lambda>k. Inr (k, p))) (us_inserts u) = Inr (us_inserts u)"
    by (rule rmap_id) (use valid in \<open>auto simp: vsu_parse_key_def split: prod.splits\<close>)
  moreover have "rmap (vsu_parse_key P) (us_deletes u) = Inr (us_deletes u)"
    by (rule rmap_id) (use assms(2) in \<open>simp add: vsu_parse_key_def\<close>)
  ultimately show ?thesis
    using assms(1) fold_hm_insert_distinct [of "[]" "us_inserts u"] fold_hs_insert_distinct [of "[]" "us_deletes u"]
    by (simp add: vsu_try_from_def us_ok_def hm_ok_def)
qed

end
