(* ===== verification/Validator_Set.thy ===== *)
theory Validator_Set
  imports Update_Sets
begin

text \<open>
  \<^verbatim>\<open>types/validator_set.rs\<close>: the validator set as a sorted vector of keys next to a hash map of
  powers, its updates, the quorum threshold, the storage format, and the validator set state.
  The second half proves the representation invariant, that updates act on the abstract map
  from keys to powers, and that two quorums always share an honest validator.
\<close>

section \<open>The validator set\<close>

record validator_set =
  vs_validators :: "verifying_key list"
  vs_powers :: "(verifying_key, power) hash_map"

definition vs_new :: validator_set where
  "vs_new = \<lparr>vs_validators = [], vs_powers = []\<rparr>"

definition vs_contains :: "validator_set \<Rightarrow> verifying_key \<Rightarrow> bool" where
  "vs_contains vs k = hm_contains_key (vs_powers vs) k"

definition vs_put :: "validator_set \<Rightarrow> verifying_key \<Rightarrow> power \<Rightarrow> validator_set res" where
  "vs_put vs k p =
     rbind (if \<not> vs_contains vs k then
              (case binary_search (vs_validators vs) k of
                 Inr _ \<Rightarrow> Inl (Panicked UnwrapErrOnOk)
               | Inl insert_pos \<Rightarrow> Inr (vs\<lparr>vs_validators := vec_insert (vs_validators vs) insert_pos k\<rparr>))
            else Inr vs)
       (\<lambda>vs. Inr (vs\<lparr>vs_powers := hm_insert (vs_powers vs) k p\<rparr>))"

definition vs_remove :: "validator_set \<Rightarrow> verifying_key \<Rightarrow> (verifying_key \<times> power) option \<times> validator_set" where
  "vs_remove vs k =
     (case binary_search (vs_validators vs) k of
        Inr pos \<Rightarrow> (map_option (\<lambda>p. (k, p)) (hm_get (vs_powers vs) k),
                    vs\<lparr>vs_validators := vec_remove (vs_validators vs) pos,
                       vs_powers := hm_remove (vs_powers vs) k\<rparr>)
      | Inl _ \<Rightarrow> (None, vs))"

definition vs_apply_updates :: "validator_set \<Rightarrow> validator_set_updates \<Rightarrow> validator_set res" where
  "vs_apply_updates vs u =
     rbind (rfold (\<lambda>(peer, new_power) vs. vs_put vs peer new_power) (us_inserts u) vs)
       (\<lambda>vs. Inr (fold (\<lambda>peer vs. snd (vs_remove vs peer)) (us_deletes u) vs))"

definition vs_power :: "validator_set \<Rightarrow> verifying_key \<Rightarrow> power option" where
  "vs_power vs k = hm_get (vs_powers vs) k"

definition vs_total_power :: "validator_set \<Rightarrow> total_power" where
  "vs_total_power vs = fold (\<lambda>(_, p) t. total_power_add t p) (vs_powers vs) 0"

definition vs_validators_and_powers :: "validator_set \<Rightarrow> (verifying_key \<times> power) list res" where
  "vs_validators_and_powers vs =
     rmap (\<lambda>v. rbind (ok_or (vs_power vs v) (Panicked UnwrapOnNone)) (\<lambda>p. Inr (v, p))) (vs_validators vs)"

definition vs_len :: "validator_set \<Rightarrow> nat" where
  "vs_len vs = length (vs_validators vs)"

definition vs_is_empty :: "validator_set \<Rightarrow> bool" where
  "vs_is_empty vs \<longleftrightarrow> vs_len vs = 0"

definition vs_position :: "validator_set \<Rightarrow> verifying_key \<Rightarrow> nat option" where
  "vs_position vs k = (case binary_search (vs_validators vs) k of Inr pos \<Rightarrow> Some pos | Inl _ \<Rightarrow> None)"

text \<open>\<^verbatim>\<open>ValidatorSet::quorum\<close> and the associated function \<^verbatim>\<open>Certificate::quorum\<close>.\<close>

definition certificate_quorum :: "total_power \<Rightarrow> total_power res" where
  "certificate_quorum tp =
     rbind (ok_or (checked_mul tp 2) (Panicked QuorumOverflow)) (\<lambda>d. Inr (d div 3 + 1))"

definition vs_quorum :: "validator_set \<Rightarrow> total_power res" where
  "vs_quorum vs =
     rbind (ok_or (checked_mul (vs_total_power vs) 2) (Panicked QuorumOverflow)) (\<lambda>d. Inr (d div 3 + 1))"

text \<open>The derived \<^verbatim>\<open>==\<close> compares the vector and, as maps, the powers.\<close>

definition vs_eq :: "validator_set \<Rightarrow> validator_set \<Rightarrow> bool" where
  "vs_eq a b \<longleftrightarrow> vs_validators a = vs_validators b \<and> hm_eq (vs_powers a) (vs_powers b)"

section \<open>Storage format\<close>

record validator_set_bytes =
  vsb_validators :: "256 word list"
  vsb_powers :: "(256 word, power) hash_map"

fun convert_and_insert_all ::
  "prims \<Rightarrow> (256 word \<times> power) list \<Rightarrow> (verifying_key, power) hash_map \<Rightarrow> (verifying_key, power) hash_map" where
  "convert_and_insert_all P [] m = m"
| "convert_and_insert_all P ((b, p) # kvs) m =
     (case vk_from_bytes P b of None \<Rightarrow> m
      | Some pk \<Rightarrow> convert_and_insert_all P kvs (hm_insert m pk p))"

text \<open>
  Keys that do not parse are skipped in the vector, and end the conversion of the powers; the
  conversion as a whole always succeeds.
\<close>

definition vs_try_from :: "prims \<Rightarrow> validator_set_bytes \<Rightarrow> unit + validator_set" where
  "vs_try_from P b =
     Inr \<lparr>vs_validators = List.map_filter (vk_from_bytes P) (vsb_validators b),
          vs_powers = convert_and_insert_all P (vsb_powers b) []\<rparr>"

definition vs_to_bytes :: "validator_set \<Rightarrow> validator_set_bytes" where
  "vs_to_bytes vs = \<lparr>vsb_validators = vs_validators vs,
                     vsb_powers = fold (\<lambda>(k, p) m. hm_insert m k p) (vs_powers vs) []\<rparr>"

section \<open>Validator set state and update status\<close>

record validator_set_state =
  committed_vs :: validator_set
  previous_vs :: validator_set
  vss_update_height :: "block_height option"
  vss_update_decided :: bool

datatype vsu_status = NoUpdates | Pending validator_set_updates | Committed

datatype vsu_status_bytes = NoUpdatesBytes | PendingBytes validator_set_updates_bytes | CommittedBytes

fun contains_updates :: "vsu_status \<Rightarrow> bool" where
  "contains_updates NoUpdates = False"
| "contains_updates (Pending _) = True"
| "contains_updates Committed = True"

fun is_pending :: "vsu_status \<Rightarrow> bool" where
  "is_pending (Pending _) = True"
| "is_pending _ = False"

fun vsu_status_try_from :: "prims \<Rightarrow> vsu_status_bytes \<Rightarrow> unit + vsu_status" where
  "vsu_status_try_from P NoUpdatesBytes = Inr NoUpdates"
| "vsu_status_try_from P (PendingBytes b) = rbind (vsu_try_from P b) (\<lambda>u. Inr (Pending u))"
| "vsu_status_try_from P CommittedBytes = Inr Committed"

section \<open>Representation invariant\<close>

definition vs_ok :: "validator_set \<Rightarrow> bool" where
  "vs_ok vs \<longleftrightarrow> sorted (vs_validators vs) \<and> distinct (vs_validators vs) \<and> hm_ok (vs_powers vs)
     \<and> set (vs_validators vs) = fst ` set (vs_powers vs)"

lemma vs_ok_new: "vs_ok vs_new"
  by (simp add: vs_ok_def vs_new_def)

lemma vs_ok_contains: "vs_ok vs \<Longrightarrow> vs_contains vs k \<longleftrightarrow> k \<in> set (vs_validators vs)"
  by (simp add: vs_ok_def vs_contains_def hm_contains_key_iff)

lemma vs_ok_power: "vs_ok vs \<Longrightarrow> k \<in> set (vs_validators vs) \<longleftrightarrow> (\<exists>p. vs_power vs k = Some p)"
  by (metis vs_ok_contains vs_contains_def vs_power_def hm_contains_key_get not_None_eq)

lemma vs_put_ok:
  assumes "vs_ok vs"
  shows "\<exists>vs'. vs_put vs k p = Inr vs' \<and> vs_ok vs' \<and> vs_power vs' = (vs_power vs)(k \<mapsto> p)"
proof (cases "k \<in> set (vs_validators vs)")
  case True
  with assms show ?thesis
    by (auto simp: vs_put_def vs_ok_contains vs_power_def fun_eq_iff)
      (auto simp: vs_ok_def)
next
  case False
  with assms obtain i where i: "binary_search (vs_validators vs) k = Inl i"
    by (metis binary_search_Inr_in sum.exhaust)
  with False assms sorted_distinct_vec_insert [OF i] show ?thesis
    by (auto simp: vs_put_def vs_ok_contains vs_power_def fun_eq_iff) (auto simp: vs_ok_def)
qed

lemma vs_remove_ok:
  assumes "vs_ok vs"
  shows "vs_ok (snd (vs_remove vs k))"
    and "vs_power (snd (vs_remove vs k)) = (vs_power vs)(k := None)"
    and "fst (vs_remove vs k) = map_option (Pair k) (vs_power vs k)"
proof -
  have S: "sorted (vs_validators vs)" "distinct (vs_validators vs)"
    using assms by (simp_all add: vs_ok_def)
  show "vs_ok (snd (vs_remove vs k))"
  proof (cases "binary_search (vs_validators vs) k")
    case (Inr i)
    then have "vec_remove (vs_validators vs) i = removeAll k (vs_validators vs)"
      using binary_search_Inr [OF Inr] vec_remove_eq S by metis
    with Inr assms S show ?thesis
      by (auto simp: vs_remove_def vs_ok_def distinct_removeAll removeAll_filter_not_eq sorted_wrt_filter)
  qed (use assms in \<open>simp add: vs_remove_def\<close>)
  have "vs_power vs k = None" if "binary_search (vs_validators vs) k = Inl i" for i
    using binary_search_Inl_notin [OF that S(1)] vs_ok_power [OF assms, of k] by auto
  then show "vs_power (snd (vs_remove vs k)) = (vs_power vs)(k := None)"
    and "fst (vs_remove vs k) = map_option (Pair k) (vs_power vs k)"
    by (auto simp: vs_remove_def vs_power_def fun_eq_iff split: sum.splits)
qed

text \<open>The validator set provides the interface that update sets are applied to.\<close>

interpretation vs: update_target vs_put "\<lambda>vs k. snd (vs_remove vs k)" vs_power vs_ok
  by unfold_locales (use vs_put_ok vs_remove_ok in blast)+

lemma vs_apply_updates_eq: "vs_apply_updates vs u = apply_update_set vs_put (\<lambda>vs k. snd (vs_remove vs k)) u vs"
  by (simp add: vs_apply_updates_def apply_update_set_def)

text \<open>
  C22. Applying validator set updates refines the update of a map: on a well-formed validator set (the vector sorted, without
  duplicates, and with the keys of the power map) \<^verbatim>\<open>apply_updates\<close> never panics, the result is well-formed again, and
  its powers are the old powers with the inserts overriding and the deletes removed.
\<close>

lemma vs_apply_updates_refines:
  assumes "vs_ok vs" and "us_ok u"
  shows "\<exists>vs'. vs_apply_updates vs u = Inr vs' \<and> vs_ok vs' \<and> vs_power vs' = us_apply u (vs_power vs)"
  unfolding vs_apply_updates_eq by (rule vs.apply_update_set_correct [OF assms])

lemma vs_position_iff:
  assumes "vs_ok vs"
  shows "vs_position vs k = Some i \<longleftrightarrow> i < vs_len vs \<and> vs_validators vs ! i = k"
proof
  assume "vs_position vs k = Some i"
  then show "i < vs_len vs \<and> vs_validators vs ! i = k"
    by (auto simp: vs_position_def vs_len_def dest: binary_search_Inr split: sum.splits)
next
  assume i: "i < vs_len vs \<and> vs_validators vs ! i = k"
  then have "k \<in> set (vs_validators vs)" by (auto simp: vs_len_def)
  with assms obtain j where j: "binary_search (vs_validators vs) k = Inr j"
    by (metis vs_ok_def binary_search_found_iff)
  with i assms have "j = i"
    using binary_search_Inr [OF j] by (metis vs_len_def vs_ok_def nth_eq_iff_index_eq)
  with j show "vs_position vs k = Some i" by (simp add: vs_position_def)
qed

lemma vs_position_None: "vs_ok vs \<Longrightarrow> vs_position vs k = None \<longleftrightarrow> k \<notin> set (vs_validators vs)"
  by (metis vs_position_iff vs_len_def in_set_conv_nth not_None_eq)

lemma vs_validators_and_powers_ok:
  assumes "vs_ok vs"
  shows "vs_validators_and_powers vs = Inr (map (\<lambda>v. (v, the (vs_power vs v))) (vs_validators vs))"
  unfolding vs_validators_and_powers_def
proof (rule rmap_total)
  fix v assume "v \<in> set (vs_validators vs)"
  with assms obtain p where "vs_power vs v = Some p" by (auto simp: vs_ok_power)
  then show "rbind (ok_or (vs_power vs v) (Panicked UnwrapOnNone)) (\<lambda>p. Inr (v, p)) = Inr (v, the (vs_power vs v))"
    by simp
qed

lemma vs_eq_iff:
  assumes "vs_ok a" and "vs_ok b"
  shows "vs_eq a b \<longleftrightarrow> vs_power a = vs_power b"
proof -
  have "vs_power a = vs_power b \<Longrightarrow> vs_validators a = vs_validators b"
    using assms vs_ok_power [OF assms(1)] vs_ok_power [OF assms(2)]
    by (metis sorted_distinct_set_unique vs_ok_def subsetI subset_antisym)
  with assms show ?thesis
    by (auto simp: vs_eq_def vs_ok_def hm_eq_iff vs_power_def hm_get_def fun_eq_iff)
qed

section \<open>Power and quorums\<close>

text \<open>The power of a set of validators, and of the whole set, as natural numbers.\<close>

definition vs_power_of :: "validator_set \<Rightarrow> verifying_key set \<Rightarrow> nat" where
  "vs_power_of vs A = (\<Sum>k \<in> A \<inter> set (vs_validators vs). unat (the (vs_power vs k)))"

definition vs_sum :: "validator_set \<Rightarrow> nat" where
  "vs_sum vs = sum_list (map (\<lambda>(_, p). unat p) (vs_powers vs))"

lemma fold_total_power:
  assumes "unat t + sum_list (map (\<lambda>(_, p). unat p) kvs) < 2 ^ 128"
  shows "unat (fold (\<lambda>(_, p) t. total_power_add t p) kvs t) = unat t + sum_list (map (\<lambda>(_, p). unat p) kvs)"
  using assms
proof (induction kvs arbitrary: t)
  case (Cons kv kvs)
  obtain k p where kv: "kv = (k, p)" by (cases kv)
  have p: "unat (ucast p :: u128) = unat p"
    using unsigned_less [of p, where 'a = nat]
    by (simp add: unsigned_ucast_eq take_bit_nat_eq_self)
  with Cons.prems kv have "unat (total_power_add t p) = unat t + unat p"
    by (simp add: total_power_add_def unat_add_lem [THEN iffD1])
  with Cons kv show ?case by simp
qed simp

lemma vs_total_power_eq: "vs_sum vs < 2 ^ 128 \<Longrightarrow> unat (vs_total_power vs) = vs_sum vs"
  using fold_total_power [of 0 "vs_powers vs"] by (simp add: vs_total_power_def vs_sum_def)

lemma vs_power_of_all: "vs_ok vs \<Longrightarrow> vs_power_of vs (set (vs_validators vs)) = vs_sum vs"
  using sum_list_hm [of "vs_powers vs" unat]
  by (simp add: vs_power_of_def vs_sum_def vs_ok_def vs_power_def)

lemma vs_quorum_value:
  assumes "2 * vs_sum vs < 2 ^ 128"
  shows "\<exists>q. vs_quorum vs = Inr q \<and> unat q = 2 * vs_sum vs div 3 + 1"
proof -
  have t: "unat (vs_total_power vs) = vs_sum vs" using assms by (intro vs_total_power_eq) simp
  have two: "unat (2 :: u128) = 2" by simp
  have d: "unat (vs_total_power vs * 2) = 2 * vs_sum vs"
    using assms t by (simp add: unat_word_ariths)
  have "unat (vs_total_power vs * 2 div 3) = 2 * vs_sum vs div 3"
    by (simp add: unat_div d)
  moreover have "2 * vs_sum vs div 3 + 1 < 2 ^ 128" using assms by simp
  ultimately have "unat (vs_total_power vs * 2 div 3 + 1) = 2 * vs_sum vs div 3 + 1"
    by (simp add: unat_word_ariths)
  with assms t show ?thesis
    by (simp add: vs_quorum_def checked_mul_def)
qed

text \<open>\<open>A\<close> is a quorum of \<open>vs\<close>; a set of faulty validators is tolerated up to a third of the power.\<close>

definition vs_is_quorum :: "validator_set \<Rightarrow> verifying_key set \<Rightarrow> bool" where
  "vs_is_quorum vs A \<longleftrightarrow> vs_ok vs \<and> 2 * vs_sum vs < 2 ^ 128 \<and>
     (\<exists>q. vs_quorum vs = Inr q \<and> unat q \<le> vs_power_of vs A)"

definition vs_tolerates :: "validator_set \<Rightarrow> verifying_key set \<Rightarrow> bool" where
  "vs_tolerates vs F \<longleftrightarrow> 3 * vs_power_of vs F \<le> vs_sum vs"

text \<open>What a voting protocol asks of its quorums.\<close>

locale quorum_system =
  fixes is_quorum :: "'s \<Rightarrow> 'p set \<Rightarrow> bool"
    and tolerates :: "'s \<Rightarrow> 'p set \<Rightarrow> bool"
  assumes honest_intersection:
    "is_quorum s A \<Longrightarrow> is_quorum s B \<Longrightarrow> tolerates s F \<Longrightarrow> \<exists>p \<in> A \<inter> B. p \<notin> F"
begin

text \<open>
  If every honest process of a quorum supports at most one value, two quorums support the
  same value.
\<close>

lemma unique_decision:
  assumes "is_quorum s A" and "is_quorum s B" and "tolerates s F"
    and "\<And>p. p \<in> A \<Longrightarrow> p \<notin> F \<Longrightarrow> supports p v" and "\<And>p. p \<in> B \<Longrightarrow> p \<notin> F \<Longrightarrow> supports p w"
    and "\<And>p. p \<notin> F \<Longrightarrow> supports p v \<Longrightarrow> supports p w \<Longrightarrow> v = w"
  shows "v = w"
  using honest_intersection [OF assms(1-3)] assms(4-6) by blast

end

lemma vs_power_of_Un_Int:
  "vs_power_of vs A + vs_power_of vs B = vs_power_of vs (A \<union> B) + vs_power_of vs (A \<inter> B)"
proof -
  let ?V = "set (vs_validators vs)"
  have "(A \<inter> ?V) \<inter> (B \<inter> ?V) = (A \<inter> B) \<inter> ?V" "(A \<inter> ?V) \<union> (B \<inter> ?V) = (A \<union> B) \<inter> ?V" by auto
  then show ?thesis
    using sum.union_inter [of "A \<inter> ?V" "B \<inter> ?V" "\<lambda>k. unat (the (vs_power vs k))"]
    by (simp add: vs_power_of_def)
qed

lemma vs_power_of_mono: "A \<subseteq> B \<Longrightarrow> vs_power_of vs A \<le> vs_power_of vs B"
  by (auto simp: vs_power_of_def intro!: sum_mono2)

lemma vs_power_of_le_sum: "vs_ok vs \<Longrightarrow> vs_power_of vs A \<le> vs_sum vs"
  using vs_power_of_mono [of "A \<inter> set (vs_validators vs)" "set (vs_validators vs)" vs] vs_power_of_all
  by (simp add: vs_power_of_def Int_assoc)

lemma vs_quorums_overlap:
  assumes "vs_is_quorum vs A" and "vs_is_quorum vs B"
  shows "vs_sum vs < 3 * vs_power_of vs (A \<inter> B)"
proof -
  from assms obtain q where "vs_quorum vs = Inr q" and ge: "unat q \<le> vs_power_of vs A" "unat q \<le> vs_power_of vs B"
    by (auto simp: vs_is_quorum_def)
  then have "unat q = 2 * vs_sum vs div 3 + 1"
    using vs_quorum_value [of vs] assms(1) by (auto simp: vs_is_quorum_def)
  moreover have "vs_power_of vs (A \<union> B) \<le> vs_sum vs"
    using assms(1) by (simp add: vs_is_quorum_def vs_power_of_le_sum)
  ultimately show ?thesis using ge vs_power_of_Un_Int [of vs A B] by linarith
qed

interpretation vsq: quorum_system vs_is_quorum vs_tolerates
proof
  fix vs A B F
  assume Q: "vs_is_quorum vs A" "vs_is_quorum vs B" and F: "vs_tolerates vs F"
  show "\<exists>p \<in> A \<inter> B. p \<notin> F"
  proof (rule ccontr)
    assume "\<not> ?thesis"
    then have "A \<inter> B \<subseteq> F" by auto
    then have "vs_power_of vs (A \<inter> B) \<le> vs_power_of vs F" by (rule vs_power_of_mono)
    with vs_quorums_overlap [OF Q] F show False by (simp add: vs_tolerates_def)
  qed
qed

end
