(* ===== verification/Certificates.thy ===== *)
theory Certificates
  imports Validator_Set
begin

text \<open>
  Votes, certificates and their verification (\<^verbatim>\<open>types/signed_messages.rs\<close>, the vote structs of
  \<^verbatim>\<open>hotstuff/messages.rs\<close>, \<^verbatim>\<open>pacemaker/messages.rs\<close> and \<^verbatim>\<open>block_sync/messages.rs\<close>, and the two
  \<^verbatim>\<open>is_correctly_signed\<close> methods). The main lemma states exactly which certificates pass.
\<close>

section \<open>Votes\<close>

record phase_vote =
  pv_chain_id :: chain_id
  pv_view :: view_number
  pv_block :: crypto_hash
  pv_phase :: phase
  pv_signature :: signature_bytes

record timeout_vote =
  tv_chain_id :: chain_id
  tv_view :: view_number
  tv_signature :: signature_bytes
  tv_highest_tc :: "timeout_certificate option"

record advertise_block =
  ab_chain_id :: chain_id
  ab_highest_committed_block_height :: block_height
  ab_signature :: signature_bytes

text \<open>The bytes that are signed: Borsh of a tuple of the vote's fields.\<close>

definition phase_message :: "prims \<Rightarrow> chain_id \<Rightarrow> view_number \<Rightarrow> crypto_hash \<Rightarrow> phase \<Rightarrow> u8 list" where
  "phase_message P c v b ph =
     try_to_vec P (BTuple [BU64 c, BU64 v, BBytes (crypto_hash_bytes b), BU8 (phase_tag ph)])"

definition timeout_message :: "prims \<Rightarrow> chain_id \<Rightarrow> view_number \<Rightarrow> u8 list" where
  "timeout_message P c v = try_to_vec P (BTuple [BU64 c, BU64 v])"

definition advertise_block_message :: "prims \<Rightarrow> chain_id \<Rightarrow> block_height \<Rightarrow> u8 list" where
  "advertise_block_message P c h = try_to_vec P (BTuple [BU64 c, BU64 h])"

text \<open>\<^verbatim>\<open>SignedMessage::is_correct\<close>, and its three implementors.\<close>

definition signed_message_is_correct ::
  "prims \<Rightarrow> verifying_key \<Rightarrow> u8 list \<Rightarrow> signature_bytes \<Rightarrow> bool" where
  "signed_message_is_correct P k message_bytes sig = vk_verify P k message_bytes sig"

definition phase_vote_is_correct :: "prims \<Rightarrow> verifying_key \<Rightarrow> phase_vote \<Rightarrow> bool" where
  "phase_vote_is_correct P k v = signed_message_is_correct P k
     (phase_message P (pv_chain_id v) (pv_view v) (pv_block v) (pv_phase v)) (pv_signature v)"

definition timeout_vote_is_correct :: "prims \<Rightarrow> verifying_key \<Rightarrow> timeout_vote \<Rightarrow> bool" where
  "timeout_vote_is_correct P k v = signed_message_is_correct P k
     (timeout_message P (tv_chain_id v) (tv_view v)) (tv_signature v)"

definition advertise_block_is_correct :: "prims \<Rightarrow> verifying_key \<Rightarrow> advertise_block \<Rightarrow> bool" where
  "advertise_block_is_correct P k a = signed_message_is_correct P k
     (advertise_block_message P (ab_chain_id a) (ab_highest_committed_block_height a)) (ab_signature a)"

definition phase_vote_new ::
  "prims \<Rightarrow> signing_key \<Rightarrow> chain_id \<Rightarrow> view_number \<Rightarrow> crypto_hash \<Rightarrow> phase \<Rightarrow> phase_vote" where
  "phase_vote_new P sk c v b ph =
     \<lparr>pv_chain_id = c, pv_view = v, pv_block = b, pv_phase = ph,
      pv_signature = keypair_sign P sk (phase_message P c v b ph)\<rparr>"

definition timeout_vote_new ::
  "prims \<Rightarrow> signing_key \<Rightarrow> chain_id \<Rightarrow> view_number \<Rightarrow> timeout_certificate option \<Rightarrow> timeout_vote" where
  "timeout_vote_new P sk c v tc =
     \<lparr>tv_chain_id = c, tv_view = v, tv_signature = keypair_sign P sk (timeout_message P c v),
      tv_highest_tc = tc\<rparr>"

definition advertise_block_new :: "prims \<Rightarrow> signing_key \<Rightarrow> chain_id \<Rightarrow> block_height \<Rightarrow> advertise_block" where
  "advertise_block_new P me c h =
     \<lparr>ab_chain_id = c, ab_highest_committed_block_height = h,
      ab_signature = keypair_sign P me (advertise_block_message P c h)\<rparr>"

section \<open>Checking the signatures of a certificate\<close>

text \<open>
  The loop over signatures and validators that adds up the power, \<open>None\<close> where the source
  returns \<^verbatim>\<open>false\<close> from inside the loop.
\<close>

fun tally_signatures ::
  "prims \<Rightarrow> u8 list \<Rightarrow> (signature_bytes option \<times> verifying_key \<times> power) list \<Rightarrow> total_power \<Rightarrow> total_power option" where
  "tally_signatures P msg [] acc = Some acc"
| "tally_signatures P msg ((None, _) # rest) acc = tally_signatures P msg rest acc"
| "tally_signatures P msg ((Some sig, signer, pw) # rest) acc =
     (if sig_from_slice P sig then
        (if vk_verify P signer msg sig then tally_signatures P msg rest (total_power_add acc pw)
         else None)
      else None)"

definition is_correctly_signed :: "prims \<Rightarrow> u8 list \<Rightarrow> signature_set \<Rightarrow> validator_set \<Rightarrow> bool res" where
  "is_correctly_signed P msg sigs vs =
     (if length sigs \<noteq> vs_len vs then Inr False
      else rbind (vs_validators_and_powers vs) (\<lambda>vps.
        case tally_signatures P msg (zip sigs vps) 0 of
          None \<Rightarrow> Inr False
        | Some acc \<Rightarrow> rbind (vs_quorum vs) (\<lambda>q. Inr (q \<le> acc))))"

definition pc_is_correctly_signed :: "prims \<Rightarrow> phase_certificate \<Rightarrow> validator_set \<Rightarrow> bool res" where
  "pc_is_correctly_signed P pc vs =
     is_correctly_signed P (phase_message P (pc_chain_id pc) (pc_view pc) (pc_block pc) (pc_phase pc))
       (pc_signatures pc) vs"

definition tc_is_correctly_signed :: "prims \<Rightarrow> timeout_certificate \<Rightarrow> validator_set \<Rightarrow> bool res" where
  "tc_is_correctly_signed P tc vs =
     is_correctly_signed P (timeout_message P (tc_chain_id tc) (tc_view tc)) (tc_signatures tc) vs"

section \<open>Which certificates pass\<close>

text \<open>The validators whose signature slot is filled, and the validity of the filled slots.\<close>

definition signers :: "validator_set \<Rightarrow> signature_set \<Rightarrow> verifying_key set" where
  "signers vs sigs = {vs_validators vs ! i | i. i < length sigs \<and> i < vs_len vs \<and> sigs ! i \<noteq> None}"

definition slots_valid :: "prims \<Rightarrow> u8 list \<Rightarrow> signature_set \<Rightarrow> validator_set \<Rightarrow> bool" where
  "slots_valid P msg sigs vs \<longleftrightarrow>
     (\<forall>i sig. i < length sigs \<longrightarrow> sigs ! i = Some sig \<longrightarrow>
        sig_from_slice P sig \<and> vk_verify P (vs_validators vs ! i) msg sig)"

text \<open>Validator sets within the bound that the documentation of \<^verbatim>\<open>ValidatorSet\<close> asks for.\<close>

definition vs_good :: "validator_set \<Rightarrow> bool" where
  "vs_good vs \<longleftrightarrow> vs_ok vs \<and> 2 * vs_sum vs < 2 ^ 128"

definition slot_powers :: "(signature_bytes option \<times> verifying_key \<times> power) list \<Rightarrow> nat" where
  "slot_powers l = sum_list (map (\<lambda>(s, _, p). case s of None \<Rightarrow> 0 | Some _ \<Rightarrow> unat p) l)"

lemma tally_signatures_Some:
  assumes "unat t + slot_powers l < 2 ^ 128"
  shows "(\<exists>r. tally_signatures P msg l t = Some r) \<longleftrightarrow>
       (\<forall>s k p. (Some s, k, p) \<in> set l \<longrightarrow> sig_from_slice P s \<and> vk_verify P k msg s)"
    and "tally_signatures P msg l t = Some r \<Longrightarrow> unat r = unat t + slot_powers l"
proof -
  have "((\<exists>r. tally_signatures P msg l t = Some r) \<longleftrightarrow>
       (\<forall>s k p. (Some s, k, p) \<in> set l \<longrightarrow> sig_from_slice P s \<and> vk_verify P k msg s)) \<and>
    (\<forall>r. tally_signatures P msg l t = Some r \<longrightarrow> unat r = unat t + slot_powers l)"
    using assms
  proof (induction P msg l t rule: tally_signatures.induct)
    case (3 P msg sig signer pw rest acc)
    have p: "unat (ucast pw :: u128) = unat pw"
      using unsigned_less [of pw, where 'a = nat]
      by (simp add: unsigned_ucast_eq take_bit_nat_eq_self)
    have add: "unat (total_power_add acc pw) = unat acc + unat pw"
      using "3.prems" p by (simp add: slot_powers_def total_power_add_def unat_add_lem [THEN iffD1])
    show ?case
      using "3.IH" "3.prems" add
      by (cases "sig_from_slice P sig \<and> vk_verify P signer msg sig") (simp_all add: slot_powers_def, blast+)
  qed (auto simp: slot_powers_def)
  then show "(\<exists>r. tally_signatures P msg l t = Some r) \<longleftrightarrow>
       (\<forall>s k p. (Some s, k, p) \<in> set l \<longrightarrow> sig_from_slice P s \<and> vk_verify P k msg s)"
    and "tally_signatures P msg l t = Some r \<Longrightarrow> unat r = unat t + slot_powers l"
    by auto
qed

text \<open>The slots of a certificate next to the validators and powers they belong to.\<close>

definition vs_slots :: "signature_set \<Rightarrow> validator_set \<Rightarrow> (signature_bytes option \<times> verifying_key \<times> power) list" where
  "vs_slots sigs vs = zip sigs (map (\<lambda>v. (v, the (vs_power vs v))) (vs_validators vs))"

lemma slot_powers_signers:
  assumes "vs_ok vs" and "length sigs = vs_len vs"
  shows "slot_powers (vs_slots sigs vs) = vs_power_of vs (signers vs sigs)"
proof -
  let ?I = "{i. i < vs_len vs \<and> sigs ! i \<noteq> None}"
  let ?p = "\<lambda>i. unat (the (vs_power vs (vs_validators vs ! i)))"
  have "slot_powers (vs_slots sigs vs) = (\<Sum>i < vs_len vs. if sigs ! i \<noteq> None then ?p i else 0)"
    using assms(2) unfolding slot_powers_def vs_slots_def vs_len_def
    by (subst sum_list_sum_nth) (auto simp: atLeast0LessThan intro!: sum.cong split: option.splits)
  also have "\<dots> = (\<Sum>i \<in> ?I. ?p i)"
    by (simp add: sum.If_cases Int_def)
  also have "\<dots> = (\<Sum>v \<in> (!) (vs_validators vs) ` ?I. unat (the (vs_power vs v)))"
    using assms(1) by (subst sum.reindex) (auto simp: inj_on_def vs_ok_def vs_len_def nth_eq_iff_index_eq)
  also have "(!) (vs_validators vs) ` ?I = signers vs sigs \<inter> set (vs_validators vs)"
    using assms(2) by (auto simp: signers_def vs_len_def)
  finally show ?thesis by (simp add: vs_power_of_def)
qed

lemma vs_slots_valid:
  assumes "length sigs = vs_len vs"
  shows "(\<forall>s k p. (Some s, k, p) \<in> set (vs_slots sigs vs) \<longrightarrow> sig_from_slice P s \<and> vk_verify P k msg s)
     \<longleftrightarrow> slots_valid P msg sigs vs"
proof -
  have "(Some s, k, p) \<in> set (vs_slots sigs vs) \<longleftrightarrow>
      (\<exists>i < length sigs. sigs ! i = Some s \<and> k = vs_validators vs ! i \<and> p = the (vs_power vs k))" for s k p
    using assms by (auto simp: vs_slots_def set_zip vs_len_def cong: conj_cong) (metis (no_types, lifting) nth_map)
  then show ?thesis unfolding slots_valid_def by (simp only:) blast
qed

lemma is_correctly_signed_iff:
  assumes "vs_good vs"
  shows "is_correctly_signed P msg sigs vs =
    Inr (length sigs = vs_len vs \<and> slots_valid P msg sigs vs \<and> vs_is_quorum vs (signers vs sigs))"
proof (cases "length sigs = vs_len vs")
  case False
  then show ?thesis by (simp add: is_correctly_signed_def)
next
  case True
  from assms have ok: "vs_ok vs" and bd: "2 * vs_sum vs < 2 ^ 128" by (simp_all add: vs_good_def)
  let ?l = "vs_slots sigs vs"
  have pw: "slot_powers ?l = vs_power_of vs (signers vs sigs)" using ok True by (rule slot_powers_signers)
  with vs_power_of_le_sum [OF ok, of "signers vs sigs"] bd have lt: "unat (0 :: u128) + slot_powers ?l < 2 ^ 128"
    by simp
  obtain q where q: "vs_quorum vs = Inr q" using vs_quorum_value [OF bd] by blast
  show ?thesis
  proof (cases "tally_signatures P msg ?l 0")
    case None
    with tally_signatures_Some(1) [OF lt, of P msg] vs_slots_valid [OF True, of P msg]
    have "\<not> slots_valid P msg sigs vs" by (metis option.distinct(1))
    with None True ok show ?thesis
      by (simp add: is_correctly_signed_def vs_validators_and_powers_ok vs_slots_def)
  next
    case (Some r)
    with tally_signatures_Some [OF lt, of P msg] vs_slots_valid [OF True, of P msg] pw
    have "slots_valid P msg sigs vs" "unat r = vs_power_of vs (signers vs sigs)" by auto
    with Some True ok bd q show ?thesis
      by (simp add: is_correctly_signed_def vs_validators_and_powers_ok vs_slots_def vs_is_quorum_def word_le_nat_alt)
  qed
qed

text \<open>
  C19. Exactly which phase certificates are accepted: on a well-formed validator set within the documented power bound
  the check never panics, and it answers true if and only if there is one signature slot per validator, every filled
  slot verifies under the key of its position over the certificate's own contents, and the signers form a quorum.
\<close>

lemma pc_is_correctly_signed_iff:
  assumes "vs_good vs"
  shows "pc_is_correctly_signed P pc vs =
    Inr (length (pc_signatures pc) = vs_len vs
      \<and> slots_valid P (phase_message P (pc_chain_id pc) (pc_view pc) (pc_block pc) (pc_phase pc)) (pc_signatures pc) vs
      \<and> vs_is_quorum vs (signers vs (pc_signatures pc)))"
  unfolding pc_is_correctly_signed_def by (rule is_correctly_signed_iff [OF assms])

lemma tc_is_correctly_signed_iff:
  assumes "vs_good vs"
  shows "tc_is_correctly_signed P tc vs =
    Inr (length (tc_signatures tc) = vs_len vs
      \<and> slots_valid P (timeout_message P (tc_chain_id tc) (tc_view tc)) (tc_signatures tc) vs
      \<and> vs_is_quorum vs (signers vs (tc_signatures tc)))"
  unfolding tc_is_correctly_signed_def by (rule is_correctly_signed_iff [OF assms])

section \<open>Signatures without a domain\<close>

text \<open>
  No domain separation between block sync and the pacemaker: the signature of an \<^verbatim>\<open>AdvertiseBlock\<close> for a block
  height is, byte for byte, a correct signature of a \<^verbatim>\<open>TimeoutVote\<close> for the view with the same number, so anyone
  who sees the advertisement can present the signer's timeout vote for that view.
\<close>

lemma advertise_block_signature_is_timeout_vote:
  assumes "advertise_block_is_correct P k a"
  shows "timeout_vote_is_correct P k
    \<lparr>tv_chain_id = ab_chain_id a, tv_view = ab_highest_committed_block_height a,
     tv_signature = ab_signature a, tv_highest_tc = tc\<rparr>"
  using assms
  by (simp add: advertise_block_is_correct_def timeout_vote_is_correct_def advertise_block_message_def timeout_message_def)

end
