(* ===== verification/Kv_Store.thy ===== *)
theory Kv_Store
  imports Certificates
begin

text \<open>
  Persistence: the key layout of \<^verbatim>\<open>block_tree/variables.rs\<close>, the \<^verbatim>\<open>KVGet\<close> getters of
  \<^verbatim>\<open>block_tree/pluggables.rs\<close> and the \<^verbatim>\<open>BlockTreeWriteBatch\<close> setters of
  \<^verbatim>\<open>block_tree/accessors/internal.rs\<close>. The user's key-value store is the map of its contents; a
  write batch is the list of its operations, applied in order when it is written. A stored
  value stands for its Borsh bytes: reading it at another type is a decoding error, and
  serialization into a vector does not fail.
\<close>

section \<open>Values and batches\<close>

datatype kv_val =
    VU64 u64 | VU32 u32 | VHash crypto_hash | VPc phase_certificate | VTc timeout_certificate
  | VBytes "u8 list" | VChildren children_list | VAppUpdates app_state_updates
  | VValidatorSet validator_set_bytes | VStatus vsu_status_bytes | VBool bool

fun as_u64 :: "kv_val \<Rightarrow> u64 option" where
  "as_u64 (VU64 x) = Some x" | "as_u64 _ = None"

fun as_u32 :: "kv_val \<Rightarrow> u32 option" where
  "as_u32 (VU32 x) = Some x" | "as_u32 _ = None"

fun as_hash :: "kv_val \<Rightarrow> crypto_hash option" where
  "as_hash (VHash x) = Some x" | "as_hash _ = None"

fun as_pc :: "kv_val \<Rightarrow> phase_certificate option" where
  "as_pc (VPc x) = Some x" | "as_pc _ = None"

fun as_tc :: "kv_val \<Rightarrow> timeout_certificate option" where
  "as_tc (VTc x) = Some x" | "as_tc _ = None"

fun as_bytes :: "kv_val \<Rightarrow> u8 list option" where
  "as_bytes (VBytes x) = Some x" | "as_bytes _ = None"

fun as_children :: "kv_val \<Rightarrow> children_list option" where
  "as_children (VChildren x) = Some x" | "as_children _ = None"

fun as_app_updates :: "kv_val \<Rightarrow> app_state_updates option" where
  "as_app_updates (VAppUpdates x) = Some x" | "as_app_updates _ = None"

fun as_validator_set :: "kv_val \<Rightarrow> validator_set_bytes option" where
  "as_validator_set (VValidatorSet x) = Some x" | "as_validator_set _ = None"

fun as_status :: "kv_val \<Rightarrow> vsu_status_bytes option" where
  "as_status (VStatus x) = Some x" | "as_status _ = None"

fun as_bool :: "kv_val \<Rightarrow> bool option" where
  "as_bool (VBool x) = Some x" | "as_bool _ = None"

type_synonym kv_store = "u8 list \<Rightarrow> kv_val option"

datatype kv_op = KSet "u8 list" kv_val | KDelete "u8 list"

type_synonym write_batch = "kv_op list"

fun kv_apply :: "kv_op \<Rightarrow> kv_store \<Rightarrow> kv_store" where
  "kv_apply (KSet k v) s = s(k \<mapsto> v)"
| "kv_apply (KDelete k) s = s(k := None)"

definition kv_write :: "write_batch \<Rightarrow> kv_store \<Rightarrow> kv_store" where
  "kv_write wb s = fold kv_apply wb s"

section \<open>Where each variable is stored\<close>

definition vconcat :: "u8 list \<Rightarrow> u8 list \<Rightarrow> u8 list" where
  "vconcat a b = a @ b"

datatype kv_path =
    PBlockHeight crypto_hash | PBlockJustify crypto_hash | PBlockDataHash crypto_hash
  | PBlockDataLen crypto_hash | PBlockDatum crypto_hash u32 | PBlockAtHeight block_height
  | PChildren crypto_hash | PAppState "u8 list" | PPendingAppState crypto_hash
  | PCommittedValidatorSet | PStatus crypto_hash | PLockedPC | PHighestViewEntered | PHighestPC
  | PHighestCommittedBlock | PNewestBlock | PHighestTC | PPreviousValidatorSet
  | PUpdateHeight | PUpdateDecided | PHighestViewPhaseVoted

definition block_prefix :: "crypto_hash \<Rightarrow> u8 list" where
  "block_prefix b = vconcat [0] (crypto_hash_bytes b)"

fun path_bytes :: "prims \<Rightarrow> kv_path \<Rightarrow> u8 list" where
  "path_bytes P (PBlockHeight b) = vconcat (block_prefix b) [0]"
| "path_bytes P (PBlockJustify b) = vconcat (block_prefix b) [1]"
| "path_bytes P (PBlockDataHash b) = vconcat (block_prefix b) [2]"
| "path_bytes P (PBlockDataLen b) = vconcat (block_prefix b) [3]"
| "path_bytes P (PBlockDatum b i) = vconcat (vconcat (block_prefix b) [4]) (try_to_vec P (BU32 i))"
| "path_bytes P (PBlockAtHeight h) = vconcat [1] (block_height_to_le_bytes h)"
| "path_bytes P (PChildren b) = vconcat [2] (crypto_hash_bytes b)"
| "path_bytes P (PAppState k) = vconcat [3] k"
| "path_bytes P (PPendingAppState b) = vconcat [4] (crypto_hash_bytes b)"
| "path_bytes P PCommittedValidatorSet = [5]"
| "path_bytes P (PStatus b) = vconcat [6] (crypto_hash_bytes b)"
| "path_bytes P PLockedPC = [7]"
| "path_bytes P PHighestViewEntered = [8]"
| "path_bytes P PHighestPC = [9]"
| "path_bytes P PHighestCommittedBlock = [10]"
| "path_bytes P PNewestBlock = [11]"
| "path_bytes P PHighestTC = [12]"
| "path_bytes P PPreviousValidatorSet = [13]"
| "path_bytes P PUpdateHeight = [14]"
| "path_bytes P PUpdateDecided = [15]"
| "path_bytes P PHighestViewPhaseVoted = [16]"

section \<open>Getters\<close>

text \<open>Reading a value that may be absent, and one that has to be there.\<close>

definition kv_get_opt :: "kv_store \<Rightarrow> u8 list \<Rightarrow> (kv_val \<Rightarrow> 'a option) \<Rightarrow> key \<Rightarrow> 'a option res" where
  "kv_get_opt s path f k = (case s path of None \<Rightarrow> Inr None
     | Some v \<Rightarrow> rbind (ok_or (f v) (get_err (DeserializeValueError k))) (\<lambda>x. Inr (Some x)))"

definition kv_get_req :: "kv_store \<Rightarrow> u8 list \<Rightarrow> (kv_val \<Rightarrow> 'a option) \<Rightarrow> key \<Rightarrow> 'a res" where
  "kv_get_req s path f k = rbind (ok_or (s path) (get_err (ValueExpectedButNotFound k)))
     (\<lambda>v. ok_or (f v) (get_err (DeserializeValueError k)))"

definition kv_block_height :: "prims \<Rightarrow> kv_store \<Rightarrow> crypto_hash \<Rightarrow> block_height option res" where
  "kv_block_height P s b = kv_get_opt s (path_bytes P (PBlockHeight b)) as_u64 (BlockHeightKey b)"

definition kv_block_justify :: "prims \<Rightarrow> kv_store \<Rightarrow> crypto_hash \<Rightarrow> phase_certificate res" where
  "kv_block_justify P s b = kv_get_req s (path_bytes P (PBlockJustify b)) as_pc (BlockJustifyKey b)"

definition kv_block_data_hash :: "prims \<Rightarrow> kv_store \<Rightarrow> crypto_hash \<Rightarrow> crypto_hash option res" where
  "kv_block_data_hash P s b = kv_get_opt s (path_bytes P (PBlockDataHash b)) as_hash (BlockDataHashKey b)"

definition kv_block_data_len :: "prims \<Rightarrow> kv_store \<Rightarrow> crypto_hash \<Rightarrow> data_len option res" where
  "kv_block_data_len P s b = kv_get_opt s (path_bytes P (PBlockDataLen b)) as_u32 (BlockDataLengthKey b)"

definition kv_block_datum :: "prims \<Rightarrow> kv_store \<Rightarrow> crypto_hash \<Rightarrow> u32 \<Rightarrow> datum option" where
  "kv_block_datum P s b i = Option.bind (s (path_bytes P (PBlockDatum b i))) as_bytes"

text \<open>
  \<^verbatim>\<open>Iterator::find\<close> with what is left of the iterator afterwards. \<^verbatim>\<open>block_data\<close> first looks for a
  missing datum and then collects from the same iterator.
\<close>

fun iter_find :: "('a \<Rightarrow> bool) \<Rightarrow> 'a list \<Rightarrow> 'a option \<times> 'a list" where
  "iter_find p [] = (None, [])"
| "iter_find p (x # xs) = (if p x then (Some x, xs) else iter_find p xs)"

definition kv_block_data :: "prims \<Rightarrow> kv_store \<Rightarrow> crypto_hash \<Rightarrow> data option res" where
  "kv_block_data P s b =
     rbind (kv_block_data_len P s b) (\<lambda>data_len. case data_len of
         None \<Rightarrow> Inr None
       | Some len \<Rightarrow>
          (case iter_find (\<lambda>datum. datum = None) (map (\<lambda>i. kv_block_datum P s b (of_nat i)) [0..<unat len]) of
             (None, data) \<Rightarrow> rbind (rmap (\<lambda>datum. ok_or datum (Panicked UnwrapOnNone)) data) (\<lambda>d. Inr (Some d))
           | (Some _, _) \<Rightarrow> Inl (get_err (ValueExpectedButNotFound (BlockDataKey b)))))"

definition kv_block :: "prims \<Rightarrow> kv_store \<Rightarrow> crypto_hash \<Rightarrow> block option res" where
  "kv_block P s b =
     rbind (kv_block_height P s b) (\<lambda>height. case height of
         None \<Rightarrow> Inr None
       | Some h \<Rightarrow>
           rbind (kv_block_justify P s b) (\<lambda>justify.
           rbind (kv_block_data_hash P s b) (\<lambda>data_hash.
           rbind (kv_block_data P s b) (\<lambda>data.
           rbind (ok_or data_hash (get_err (ValueExpectedButNotFound (BlockDataHashKey b)))) (\<lambda>data_hash.
           rbind (ok_or data (get_err (ValueExpectedButNotFound (BlockDataKey b)))) (\<lambda>data.
           Inr (Some \<lparr>b_height = h, b_hash = b, b_justify = justify, b_data_hash = data_hash, b_data = data\<rparr>)))))))"

definition kv_block_at_height :: "prims \<Rightarrow> kv_store \<Rightarrow> block_height \<Rightarrow> crypto_hash option res" where
  "kv_block_at_height P s h = kv_get_opt s (path_bytes P (PBlockAtHeight h)) as_hash (BlockAtHeightKey h)"

definition kv_children :: "prims \<Rightarrow> kv_store \<Rightarrow> crypto_hash \<Rightarrow> children_list res" where
  "kv_children P s b = kv_get_req s (path_bytes P (PChildren b)) as_children (BlockChildrenKey b)"

definition kv_committed_app_state :: "prims \<Rightarrow> kv_store \<Rightarrow> u8 list \<Rightarrow> u8 list option" where
  "kv_committed_app_state P s k = Option.bind (s (path_bytes P (PAppState k))) as_bytes"

definition kv_pending_app_state_updates :: "prims \<Rightarrow> kv_store \<Rightarrow> crypto_hash \<Rightarrow> app_state_updates option res" where
  "kv_pending_app_state_updates P s b =
     kv_get_opt s (path_bytes P (PPendingAppState b)) as_app_updates (PendingAppStateUpdatesKey b)"

definition map_ed25519 :: "unit + 'a \<Rightarrow> key \<Rightarrow> 'a res" where
  "map_ed25519 r k = ok_or (res_ok r) (get_err (Ed25519DalekError k))"

definition kv_committed_validator_set :: "prims \<Rightarrow> kv_store \<Rightarrow> validator_set res" where
  "kv_committed_validator_set P s =
     rbind (kv_get_req s (path_bytes P PCommittedValidatorSet) as_validator_set CommittedValidatorSetKey)
       (\<lambda>b. map_ed25519 (vs_try_from P b) CommittedValidatorSetKey)"

definition kv_validator_set_updates_status :: "prims \<Rightarrow> kv_store \<Rightarrow> crypto_hash \<Rightarrow> vsu_status res" where
  "kv_validator_set_updates_status P s b =
     rbind (kv_get_opt s (path_bytes P (PStatus b)) as_status (ValidatorSetUpdatesStatusKey b)) (\<lambda>st.
       map_ed25519 (vsu_status_try_from P (case st of None \<Rightarrow> NoUpdatesBytes | Some x \<Rightarrow> x))
         (ValidatorSetUpdatesStatusKey b))"

definition kv_locked_pc :: "prims \<Rightarrow> kv_store \<Rightarrow> phase_certificate res" where
  "kv_locked_pc P s = kv_get_req s (path_bytes P PLockedPC) as_pc LockedPCKey"

definition kv_highest_view_entered :: "prims \<Rightarrow> kv_store \<Rightarrow> view_number res" where
  "kv_highest_view_entered P s = kv_get_req s (path_bytes P PHighestViewEntered) as_u64 HighestViewEnteredKey"

definition kv_highest_pc :: "prims \<Rightarrow> kv_store \<Rightarrow> phase_certificate res" where
  "kv_highest_pc P s = kv_get_req s (path_bytes P PHighestPC) as_pc HighestPCKey"

definition kv_highest_committed_block :: "prims \<Rightarrow> kv_store \<Rightarrow> crypto_hash option res" where
  "kv_highest_committed_block P s =
     kv_get_opt s (path_bytes P PHighestCommittedBlock) as_hash HighestCommittedBlockKey"

definition kv_newest_block :: "prims \<Rightarrow> kv_store \<Rightarrow> crypto_hash option res" where
  "kv_newest_block P s = kv_get_opt s (path_bytes P PNewestBlock) as_hash NewestBlockKey"

definition kv_highest_tc :: "prims \<Rightarrow> kv_store \<Rightarrow> timeout_certificate option res" where
  "kv_highest_tc P s = kv_get_opt s (path_bytes P PHighestTC) as_tc HighestTCKey"

text \<open>The source names the committed validator set in the errors of this getter too.\<close>

definition kv_previous_validator_set :: "prims \<Rightarrow> kv_store \<Rightarrow> validator_set res" where
  "kv_previous_validator_set P s =
     rbind (kv_get_req s (path_bytes P PPreviousValidatorSet) as_validator_set CommittedValidatorSetKey)
       (\<lambda>b. map_ed25519 (vs_try_from P b) CommittedValidatorSetKey)"

definition kv_validator_set_update_block_height :: "prims \<Rightarrow> kv_store \<Rightarrow> block_height option res" where
  "kv_validator_set_update_block_height P s =
     kv_get_opt s (path_bytes P PUpdateHeight) as_u64 ValidatorSetUpdateHeightKey"

definition kv_validator_set_update_complete :: "prims \<Rightarrow> kv_store \<Rightarrow> bool res" where
  "kv_validator_set_update_complete P s =
     kv_get_req s (path_bytes P PUpdateDecided) as_bool ValidatorSetUpdateDecidedKey"

definition kv_validator_set_state :: "prims \<Rightarrow> kv_store \<Rightarrow> validator_set_state res" where
  "kv_validator_set_state P s =
     rbind (kv_committed_validator_set P s) (\<lambda>c.
     rbind (kv_previous_validator_set P s) (\<lambda>p.
     rbind (kv_validator_set_update_block_height P s) (\<lambda>h.
     rbind (kv_validator_set_update_complete P s) (\<lambda>d.
     Inr \<lparr>committed_vs = c, previous_vs = p, vss_update_height = h, vss_update_decided = d\<rparr>))))"

definition kv_highest_view_phase_voted :: "prims \<Rightarrow> kv_store \<Rightarrow> view_number option res" where
  "kv_highest_view_phase_voted P s =
     kv_get_opt s (path_bytes P PHighestViewPhaseVoted) as_u64 HighestViewPhaseVotedKey"

section \<open>The write batch\<close>

definition wb_new :: write_batch where
  "wb_new = []"

definition wb_set :: "prims \<Rightarrow> kv_path \<Rightarrow> kv_val \<Rightarrow> write_batch \<Rightarrow> write_batch" where
  "wb_set P p v wb = wb @ [KSet (path_bytes P p) v]"

definition wb_delete :: "prims \<Rightarrow> kv_path \<Rightarrow> write_batch \<Rightarrow> write_batch" where
  "wb_delete P p wb = wb @ [KDelete (path_bytes P p)]"

definition wb_set_block :: "prims \<Rightarrow> block \<Rightarrow> write_batch \<Rightarrow> write_batch" where
  "wb_set_block P b wb =
     (let wb = wb_set P (PBlockHeight (b_hash b)) (VU64 (b_height b)) wb;
          wb = wb_set P (PBlockJustify (b_hash b)) (VPc (b_justify b)) wb;
          wb = wb_set P (PBlockDataHash (b_hash b)) (VHash (b_data_hash b)) wb;
          wb = wb_set P (PBlockDataLen (b_hash b)) (VU32 (data_len_of (b_data b))) wb
      in fold (\<lambda>(i, datum). wb_set P (PBlockDatum (b_hash b) (of_nat i)) (VBytes datum))
           (zip [0..<length (b_data b)] (b_data b)) wb)"

definition wb_delete_block :: "prims \<Rightarrow> crypto_hash \<Rightarrow> data_len \<Rightarrow> write_batch \<Rightarrow> write_batch" where
  "wb_delete_block P b len wb =
     (let wb = wb_delete P (PBlockHeight b) wb;
          wb = wb_delete P (PBlockJustify b) wb;
          wb = wb_delete P (PBlockDataHash b) wb;
          wb = wb_delete P (PBlockDataLen b) wb
      in fold (\<lambda>i. wb_delete P (PBlockDatum b (of_nat i))) [0..<unat len] wb)"

text \<open>The one setter whose key is encoded by Borsh while the getter uses \<^verbatim>\<open>to_le_bytes\<close>.\<close>

definition wb_set_block_at_height :: "prims \<Rightarrow> block_height \<Rightarrow> crypto_hash \<Rightarrow> write_batch \<Rightarrow> write_batch" where
  "wb_set_block_at_height P h b wb = wb @ [KSet (vconcat [1] (try_to_vec P (BU64 h))) (VHash b)]"

definition wb_set_children :: "prims \<Rightarrow> crypto_hash \<Rightarrow> children_list \<Rightarrow> write_batch \<Rightarrow> write_batch" where
  "wb_set_children P b cs = wb_set P (PChildren b) (VChildren cs)"

definition wb_delete_children :: "prims \<Rightarrow> crypto_hash \<Rightarrow> write_batch \<Rightarrow> write_batch" where
  "wb_delete_children P b = wb_delete P (PChildren b)"

definition wb_set_committed_app_state :: "prims \<Rightarrow> u8 list \<Rightarrow> u8 list \<Rightarrow> write_batch \<Rightarrow> write_batch" where
  "wb_set_committed_app_state P k v = wb_set P (PAppState k) (VBytes v)"

definition wb_delete_committed_app_state :: "prims \<Rightarrow> u8 list \<Rightarrow> write_batch \<Rightarrow> write_batch" where
  "wb_delete_committed_app_state P k = wb_delete P (PAppState k)"

definition wb_set_pending_app_state_updates ::
  "prims \<Rightarrow> crypto_hash \<Rightarrow> app_state_updates \<Rightarrow> write_batch \<Rightarrow> write_batch" where
  "wb_set_pending_app_state_updates P b u = wb_set P (PPendingAppState b) (VAppUpdates u)"

definition wb_apply_app_state_updates :: "prims \<Rightarrow> app_state_updates \<Rightarrow> write_batch \<Rightarrow> write_batch" where
  "wb_apply_app_state_updates P u wb =
     fold (\<lambda>k. wb_delete_committed_app_state P k) (us_deletes u)
       (fold (\<lambda>(k, v). wb_set_committed_app_state P k v) (us_inserts u) wb)"

definition wb_delete_pending_app_state_updates :: "prims \<Rightarrow> crypto_hash \<Rightarrow> write_batch \<Rightarrow> write_batch" where
  "wb_delete_pending_app_state_updates P b = wb_delete P (PPendingAppState b)"

definition wb_set_committed_validator_set :: "prims \<Rightarrow> validator_set \<Rightarrow> write_batch \<Rightarrow> write_batch" where
  "wb_set_committed_validator_set P vs = wb_set P PCommittedValidatorSet (VValidatorSet (vs_to_bytes vs))"

definition wb_set_pending_validator_set_updates ::
  "prims \<Rightarrow> crypto_hash \<Rightarrow> validator_set_updates \<Rightarrow> write_batch \<Rightarrow> write_batch" where
  "wb_set_pending_validator_set_updates P b u = wb_set P (PStatus b) (VStatus (PendingBytes (vsu_to_bytes u)))"

definition wb_set_committed_validator_set_updates :: "prims \<Rightarrow> crypto_hash \<Rightarrow> write_batch \<Rightarrow> write_batch" where
  "wb_set_committed_validator_set_updates P b = wb_set P (PStatus b) (VStatus CommittedBytes)"

definition wb_delete_block_validator_set_updates :: "prims \<Rightarrow> crypto_hash \<Rightarrow> write_batch \<Rightarrow> write_batch" where
  "wb_delete_block_validator_set_updates P b = wb_delete P (PStatus b)"

definition wb_set_locked_pc :: "prims \<Rightarrow> phase_certificate \<Rightarrow> write_batch \<Rightarrow> write_batch" where
  "wb_set_locked_pc P pc = wb_set P PLockedPC (VPc pc)"

definition wb_set_highest_view_entered :: "prims \<Rightarrow> view_number \<Rightarrow> write_batch \<Rightarrow> write_batch" where
  "wb_set_highest_view_entered P v = wb_set P PHighestViewEntered (VU64 v)"

definition wb_set_highest_pc :: "prims \<Rightarrow> phase_certificate \<Rightarrow> write_batch \<Rightarrow> write_batch" where
  "wb_set_highest_pc P pc = wb_set P PHighestPC (VPc pc)"

definition wb_set_highest_committed_block :: "prims \<Rightarrow> crypto_hash \<Rightarrow> write_batch \<Rightarrow> write_batch" where
  "wb_set_highest_committed_block P b = wb_set P PHighestCommittedBlock (VHash b)"

definition wb_set_newest_block :: "prims \<Rightarrow> crypto_hash \<Rightarrow> write_batch \<Rightarrow> write_batch" where
  "wb_set_newest_block P b = wb_set P PNewestBlock (VHash b)"

definition wb_set_highest_tc :: "prims \<Rightarrow> timeout_certificate \<Rightarrow> write_batch \<Rightarrow> write_batch" where
  "wb_set_highest_tc P tc = wb_set P PHighestTC (VTc tc)"

definition wb_set_previous_validator_set :: "prims \<Rightarrow> validator_set \<Rightarrow> write_batch \<Rightarrow> write_batch" where
  "wb_set_previous_validator_set P vs = wb_set P PPreviousValidatorSet (VValidatorSet (vs_to_bytes vs))"

definition wb_set_validator_set_update_block_height :: "prims \<Rightarrow> block_height \<Rightarrow> write_batch \<Rightarrow> write_batch" where
  "wb_set_validator_set_update_block_height P h = wb_set P PUpdateHeight (VU64 h)"

definition wb_set_validator_set_update_decided :: "prims \<Rightarrow> bool \<Rightarrow> write_batch \<Rightarrow> write_batch" where
  "wb_set_validator_set_update_decided P d = wb_set P PUpdateDecided (VBool d)"

definition wb_set_highest_view_phase_voted :: "prims \<Rightarrow> view_number \<Rightarrow> write_batch \<Rightarrow> write_batch" where
  "wb_set_highest_view_phase_voted P v = wb_set P PHighestViewPhaseVoted (VU64 v)"

lemmas wb_setter_defs = wb_set_children_def wb_delete_children_def wb_set_committed_app_state_def
  wb_delete_committed_app_state_def wb_set_pending_app_state_updates_def wb_delete_pending_app_state_updates_def
  wb_set_committed_validator_set_def wb_set_pending_validator_set_updates_def wb_set_committed_validator_set_updates_def
  wb_delete_block_validator_set_updates_def wb_set_locked_pc_def wb_set_highest_view_entered_def wb_set_highest_pc_def
  wb_set_highest_committed_block_def wb_set_newest_block_def wb_set_highest_tc_def wb_set_previous_validator_set_def
  wb_set_validator_set_update_block_height_def wb_set_validator_set_update_decided_def
  wb_set_highest_view_phase_voted_def

lemmas kv_getter_defs = kv_block_height_def kv_block_justify_def kv_block_data_hash_def kv_block_data_len_def
  kv_block_at_height_def kv_children_def kv_pending_app_state_updates_def
  kv_committed_validator_set_def kv_validator_set_updates_status_def kv_locked_pc_def kv_highest_view_entered_def
  kv_highest_pc_def kv_highest_committed_block_def kv_newest_block_def kv_highest_tc_def kv_previous_validator_set_def
  kv_validator_set_update_block_height_def kv_validator_set_update_complete_def kv_highest_view_phase_voted_def

section \<open>The key layout\<close>

fun is_datum :: "kv_path \<Rightarrow> bool" where
  "is_datum (PBlockDatum _ _) = True"
| "is_datum _ = False"

lemma block_prefix_append_inject: "block_prefix b @ xs = block_prefix c @ ys \<longleftrightarrow> b = c \<and> xs = ys"
  by (auto simp: block_prefix_def vconcat_def)

lemma block_prefix_inject [simp]: "block_prefix b = block_prefix c \<longleftrightarrow> b = c"
  using block_prefix_append_inject [of b "[]" c "[]"] by simp

lemma block_prefix_Cons: "block_prefix b @ xs = 0 # crypto_hash_bytes b @ xs"
  by (simp add: block_prefix_def vconcat_def)

text \<open>
  No two variables share a key, except that telling the data of one block apart needs the
  law of the integer encoding.
\<close>

lemma path_bytes_inject [store_simps]:
  assumes "\<not> (is_datum p \<and> is_datum p')"
  shows "path_bytes P p = path_bytes P p' \<longleftrightarrow> p = p'"
  using assms by (cases p; cases p') (simp_all add: vconcat_def block_prefix_append_inject, simp_all add: block_prefix_Cons)

lemma path_bytes_datum:
  "borsh_ints P \<Longrightarrow> path_bytes P (PBlockDatum b i) = path_bytes P (PBlockDatum c j) \<longleftrightarrow> b = c \<and> i = j"
  by (simp add: vconcat_def block_prefix_append_inject borsh_ints_def)

declare path_bytes.simps [simp del]

section \<open>Reading what was written\<close>

lemma kv_write_new [store_simps]: "kv_write wb_new s = s"
  by (simp add: kv_write_def wb_new_def)

lemma kv_write_set [store_simps]: "kv_write (wb_set P p v wb) s = (kv_write wb s)(path_bytes P p \<mapsto> v)"
  by (simp add: kv_write_def wb_set_def)

lemma kv_write_delete [store_simps]: "kv_write (wb_delete P p wb) s = (kv_write wb s)(path_bytes P p := None)"
  by (simp add: kv_write_def wb_delete_def)

lemma wb_set_block_at_height_eq:
  "borsh_ints P \<Longrightarrow> wb_set_block_at_height P h b = wb_set P (PBlockAtHeight h) (VHash b)"
  by (simp add: fun_eq_iff wb_set_block_at_height_def wb_set_def path_bytes.simps borsh_ints_def block_height_to_le_bytes_def)

text \<open>
  \<open>same_at P ps s s'\<close>: the two stores agree on the variables \<open>ps\<close>; a getter that reads only
  those variables returns the same.
\<close>

definition same_at :: "prims \<Rightarrow> kv_path set \<Rightarrow> kv_store \<Rightarrow> kv_store \<Rightarrow> bool" where
  "same_at P ps s s' \<longleftrightarrow> (\<forall>p \<in> ps. s' (path_bytes P p) = s (path_bytes P p))"

lemma same_at_refl [simp]: "same_at P ps s s"
  by (simp add: same_at_def)

lemma same_at_trans: "same_at P ps s t \<Longrightarrow> same_at P ps t u \<Longrightarrow> same_at P ps s u"
  by (simp add: same_at_def)

lemma same_atD: "same_at P ps s s' \<Longrightarrow> p \<in> ps \<Longrightarrow> s' (path_bytes P p) = s (path_bytes P p)"
  by (simp add: same_at_def)

lemma same_at_mono: "same_at P ps s s' \<Longrightarrow> qs \<subseteq> ps \<Longrightarrow> same_at P qs s s'"
  by (auto simp: same_at_def)

text \<open>The data of a block, one key per datum.\<close>

lemma kv_write_fold_set:
  "kv_write (fold (\<lambda>(i, d). wb_set P (f i) (g d)) xs wb) s =
     fold (\<lambda>(i, d) s. s(path_bytes P (f i) \<mapsto> g d)) xs (kv_write wb s)"
  by (induction xs arbitrary: wb) (auto simp: kv_write_set)

lemma kv_write_fold_delete:
  "kv_write (fold (\<lambda>i. wb_delete P (f i)) xs wb) s = fold (\<lambda>i s. s(path_bytes P (f i) := None)) xs (kv_write wb s)"
  by (induction xs arbitrary: wb) (auto simp: kv_write_delete)

lemma fold_upd_other:
  "\<forall>(i, d) \<in> set xs. k i \<noteq> q \<Longrightarrow> fold (\<lambda>(i, d) s. s(k i \<mapsto> g d)) xs s q = s q"
  by (induction xs arbitrary: s) auto

lemma fold_upd_nth:
  assumes "j < length xs" and "\<And>i. i < length xs \<Longrightarrow> k i = k j \<Longrightarrow> i = j"
  shows "fold (\<lambda>(i, d) s. s(k i \<mapsto> g d)) (zip [0..<length xs] xs) s (k j) = Some (g (xs ! j))"
  using assms
proof (induction xs rule: rev_induct)
  case (snoc x xs)
  show ?case
  proof (cases "j = length xs")
    case False
    with snoc.prems have "k (length xs) \<noteq> k j" by (metis length_append_singleton lessI)
    with False snoc show ?thesis by (simp add: nth_append)
  qed simp
qed simp

lemma iter_find_None: "fst (iter_find p xs) = None \<longleftrightarrow> (\<forall>x \<in> set xs. \<not> p x)"
  by (induction xs) auto

lemma iter_find_exhausts: "fst (iter_find p xs) = None \<Longrightarrow> snd (iter_find p xs) = []"
  by (induction xs) (auto split: if_splits)

text \<open>Whatever is stored, the data that \<^verbatim>\<open>block_data\<close> returns is empty.\<close>

lemma kv_block_data_eq:
  "kv_block_data P s b =
     rbind (kv_block_data_len P s b) (\<lambda>l. case l of None \<Rightarrow> Inr None
       | Some len \<Rightarrow> if \<exists>i < unat len. kv_block_datum P s b (of_nat i) = None
           then Inl (get_err (ValueExpectedButNotFound (BlockDataKey b))) else Inr (Some []))"
proof -
  let ?l = "\<lambda>len. map (\<lambda>i. kv_block_datum P s b (of_nat i)) [0..<unat len]"
  have "(case iter_find (\<lambda>datum. datum = None) (?l len) of
        (None, data) \<Rightarrow> rbind (rmap (\<lambda>datum. ok_or datum (Panicked UnwrapOnNone)) data) (\<lambda>d. Inr (Some d))
      | (Some _, _) \<Rightarrow> Inl (get_err (ValueExpectedButNotFound (BlockDataKey b)))) =
      (if \<exists>i < unat len. kv_block_datum P s b (of_nat i) = None
       then Inl (get_err (ValueExpectedButNotFound (BlockDataKey b))) else Inr (Some []))" for len :: data_len
    using iter_find_None [of "\<lambda>datum. datum = None" "?l len"] iter_find_exhausts [of "\<lambda>datum. datum = None" "?l len"]
    by (cases "iter_find (\<lambda>datum. datum = None) (?l len)") (auto split: option.splits)
  then show ?thesis by (auto simp: kv_block_data_def rbind_def split: sum.splits option.splits)
qed

lemma set_block_frame:
  assumes "p \<notin> {PBlockHeight (b_hash b), PBlockJustify (b_hash b), PBlockDataHash (b_hash b), PBlockDataLen (b_hash b)}"
    and "\<not> is_datum p"
  shows "kv_write (wb_set_block P b wb) s (path_bytes P p) = kv_write wb s (path_bytes P p)"
proof -
  have "path_bytes P (PBlockDatum h (of_nat i)) \<noteq> path_bytes P p" for h i
    using assms(2) by (cases p) (auto simp: store_simps)
  with assms show ?thesis
    by (auto simp: wb_set_block_def Let_def kv_write_fold_set fold_upd_other store_simps)
qed

lemma set_block_fields:
  shows "kv_block_height P (kv_write (wb_set_block P b wb) s) (b_hash b) = Inr (Some (b_height b))"
    and "kv_block_justify P (kv_write (wb_set_block P b wb) s) (b_hash b) = Inr (b_justify b)"
    and "kv_block_data_hash P (kv_write (wb_set_block P b wb) s) (b_hash b) = Inr (Some (b_data_hash b))"
    and "kv_block_data_len P (kv_write (wb_set_block P b wb) s) (b_hash b) = Inr (Some (data_len_of (b_data b)))"
  by (simp_all add: wb_set_block_def Let_def kv_write_fold_set fold_upd_other store_simps
      kv_getter_defs kv_get_opt_def kv_get_req_def)

lemma set_block_datum:
  assumes "borsh_ints P" and "j < length (b_data b)" and "length (b_data b) < 2 ^ 32"
  shows "kv_block_datum P (kv_write (wb_set_block P b wb) s) (b_hash b) (of_nat j) = Some (b_data b ! j)"
proof -
  have inj: "i = j" if "i < length (b_data b)" "(of_nat i :: u32) = of_nat j" for i
    using that assms(2,3) by (simp add: word_of_nat_eq_iff take_bit_nat_eq_self)
  show ?thesis
    using assms inj fold_upd_nth [of j "b_data b" "\<lambda>i. path_bytes P (PBlockDatum (b_hash b) (of_nat i))" VBytes]
    by (simp add: wb_set_block_def Let_def kv_write_fold_set kv_block_datum_def path_bytes_datum)
qed

lemma delete_block_frame:
  assumes "p \<notin> {PBlockHeight b, PBlockJustify b, PBlockDataHash b, PBlockDataLen b}" and "\<not> is_datum p"
  shows "kv_write (wb_delete_block P b len wb) s (path_bytes P p) = kv_write wb s (path_bytes P p)"
proof -
  have o: "fold (\<lambda>i s. s(k i := None)) xs s q = s q" if "\<forall>i \<in> set xs. k i \<noteq> q" for xs :: "nat list" and k s q
    using that by (induction xs arbitrary: s) auto
  have "path_bytes P (PBlockDatum h (of_nat i)) \<noteq> path_bytes P p" for h i
    using assms(2) by (cases p) (auto simp: store_simps)
  with assms show ?thesis
    by (auto simp: wb_delete_block_def Let_def kv_write_fold_delete o store_simps)
qed

lemma delete_block_fields:
  assumes "p \<in> {PBlockHeight b, PBlockJustify b, PBlockDataHash b, PBlockDataLen b}"
  shows "kv_write (wb_delete_block P b len wb) s (path_bytes P p) = None"
proof -
  have o: "fold (\<lambda>i s. s(k i := None)) xs s q = None" if "s q = None" for xs :: "nat list" and k s q
    using that by (induction xs arbitrary: s) auto
  from assms show ?thesis
    unfolding wb_delete_block_def Let_def kv_write_fold_delete
    by (intro o) (auto simp: store_simps)
qed

section \<open>Properties of the store\<close>

text \<open>
  The key layout is injective: no two state variables, fields of blocks, or data of a block are ever stored under
  the same bytes, so a write to one never changes another. The only law used of Borsh is the encoding of integers.
\<close>

lemma path_bytes_injective:
  assumes "borsh_ints P"
  shows "path_bytes P p = path_bytes P q \<longleftrightarrow> p = q"
  using path_bytes_inject [of p q P] path_bytes_datum [OF assms] by (cases p; cases q) simp_all

text \<open>
  C34. A stored block is read back without its data: after \<^verbatim>\<open>set_block\<close>, every datum can be fetched by its index, but
  \<^verbatim>\<open>block\<close> returns the block with all its fields intact except that the data vector is empty. The getter looks for a
  missing datum with \<^verbatim>\<open>find\<close>, which runs the iterator to its end, and then collects from the exhausted iterator.
\<close>

lemma set_block_then_block:
  assumes "borsh_ints P" and "length (b_data b) < 2 ^ 32"
  shows "(\<forall>j < length (b_data b).
       kv_block_datum P (kv_write (wb_set_block P b wb) s) (b_hash b) (of_nat j) = Some (b_data b ! j)) \<and>
    kv_block P (kv_write (wb_set_block P b wb) s) (b_hash b) = Inr (Some (b\<lparr>b_data := []\<rparr>))"
proof -
  define s' where "s' = kv_write (wb_set_block P b wb) s"
  have len: "unat (data_len_of (b_data b)) = length (b_data b)"
    using assms(2) by (simp add: data_len_of_def unat_of_nat take_bit_nat_eq_self)
  have d: "\<forall>j < length (b_data b). kv_block_datum P s' (b_hash b) (of_nat j) = Some (b_data b ! j)"
    using set_block_datum [OF assms(1) _ assms(2)] by (simp add: s'_def)
  then have "kv_block_data P s' (b_hash b) = Inr (Some [])"
    using set_block_fields(4) [of P b wb s] len by (auto simp: kv_block_data_eq s'_def)
  with d show ?thesis
    using set_block_fields [of P b wb s] by (simp add: kv_block_def s'_def)
qed

text \<open>A witness for the laws of the primitives: fixed-width little-endian integers, keys that parse to themselves.\<close>

definition demo_prims :: prims where
  "demo_prims = \<lparr>try_to_vec = (\<lambda>b. case b of BU64 w \<Rightarrow> le_bytes 8 w | BU32 w \<Rightarrow> le_bytes 4 w | _ \<Rightarrow> []),
     sha256 = (\<lambda>bs. of_nat (length bs)), vk_from_bytes = Some, sig_from_slice = (\<lambda>s. True),
     vk_verify = (\<lambda>k m s. s = ucast k), sk_sign = (\<lambda>sk m. ucast sk), sk_verifying_key = id\<rparr>"

lemma demo_prims_laws: "borsh_ints demo_prims" "vk_parse_exact demo_prims" "sigs_verify demo_prims"
  by (simp_all add: demo_prims_def borsh_ints_def vk_parse_exact_def sigs_verify_def)

lemma set_block_then_block_witness:
  "kv_block demo_prims (kv_write (wb_set_block demo_prims
       \<lparr>b_height = 1, b_hash = 7, b_justify = genesis_pc, b_data_hash = 3, b_data = [[1, 2], [3]]\<rparr> []) Map.empty) 7
   = Inr (Some \<lparr>b_height = 1, b_hash = 7, b_justify = genesis_pc, b_data_hash = 3, b_data = []\<rparr>)"
  using set_block_then_block [OF demo_prims_laws(1),
      of "\<lparr>b_height = 1, b_hash = 7, b_justify = genesis_pc, b_data_hash = 3, b_data = [[1, 2], [3]]\<rparr>" "[]" Map.empty]
  by simp

section \<open>App state and validator sets in the store\<close>

text \<open>A write batch, seen through the store it will be written to, is something update sets apply to.\<close>

lemma app_state_get_set:
  "kv_committed_app_state P (kv_write (wb_set_committed_app_state P k v wb) s) =
     (kv_committed_app_state P (kv_write wb s))(k \<mapsto> v)"
  by (auto simp: kv_committed_app_state_def wb_set_committed_app_state_def store_simps fun_eq_iff)

lemma app_state_get_delete:
  "kv_committed_app_state P (kv_write (wb_delete_committed_app_state P k wb) s) =
     (kv_committed_app_state P (kv_write wb s))(k := None)"
  by (auto simp: kv_committed_app_state_def wb_delete_committed_app_state_def store_simps fun_eq_iff)

interpretation app: update_target "\<lambda>wb k v. Inr (wb_set_committed_app_state P k v wb) :: fault + write_batch"
    "\<lambda>wb k. wb_delete_committed_app_state P k wb" "\<lambda>wb. kv_committed_app_state P (kv_write wb s)" "\<lambda>wb. True" for P s
  by unfold_locales (simp_all add: app_state_get_set app_state_get_delete)

lemma rfold_Inr: "rfold (\<lambda>(k, v) t. Inr (f k v t)) xs t = Inr (fold (\<lambda>(k, v). f k v) xs t)"
  by (induction xs arbitrary: t) auto

lemma wb_apply_app_state_updates_eq:
  "apply_update_set (\<lambda>wb k v. Inr (wb_set_committed_app_state P k v wb)) (\<lambda>wb k. wb_delete_committed_app_state P k wb) u wb
     = Inr (wb_apply_app_state_updates P u wb)"
  by (simp add: apply_update_set_def wb_apply_app_state_updates_def rfold_Inr)

lemma wb_apply_app_state_updates_get:
  "us_ok u \<Longrightarrow> kv_committed_app_state P (kv_write (wb_apply_app_state_updates P u wb) s) =
     us_apply u (kv_committed_app_state P (kv_write wb s))"
  using app.apply_update_set_correct [of u P wb s] by (simp add: wb_apply_app_state_updates_eq)

lemma wb_apply_app_state_updates_frame:
  assumes "\<And>k. p \<noteq> PAppState k"
  shows "kv_write (wb_apply_app_state_updates P u wb) s (path_bytes P p) = kv_write wb s (path_bytes P p)"
proof -
  have ne: "path_bytes P p \<noteq> path_bytes P (PAppState k)" for k using assms by (auto simp: path_bytes_inject)
  have "kv_write (fold (\<lambda>(k, v). wb_set_committed_app_state P k v) xs wb) s (path_bytes P p) = kv_write wb s (path_bytes P p)"
    for xs wb using ne by (induction xs arbitrary: wb) (auto simp: wb_set_committed_app_state_def store_simps)
  moreover have "kv_write (fold (wb_delete_committed_app_state P) xs wb) s (path_bytes P p) = kv_write wb s (path_bytes P p)"
    for xs wb using ne by (induction xs arbitrary: wb) (auto simp: wb_delete_committed_app_state_def store_simps)
  ultimately show ?thesis by (simp add: wb_apply_app_state_updates_def)
qed

text \<open>Validator sets whose keys are valid Ed25519 keys survive storage.\<close>

definition vs_keys_parse :: "prims \<Rightarrow> validator_set \<Rightarrow> bool" where
  "vs_keys_parse P vs \<longleftrightarrow> (\<forall>k \<in> set (vs_validators vs). vk_from_bytes P k = Some k)"

lemma convert_and_insert_all_parse:
  assumes "\<forall>(k, p) \<in> set kvs. vk_from_bytes P k = Some k"
  shows "convert_and_insert_all P kvs m = fold (\<lambda>(k, p) m. hm_insert m k p) kvs m"
  using assms by (induction kvs arbitrary: m) auto

lemma vs_try_from_to_bytes:
  assumes "vs_ok vs" and "vs_keys_parse P vs"
  shows "vs_try_from P (vs_to_bytes vs) = Inr vs"
proof -
  have d: "fold (\<lambda>(k, p) m. hm_insert m k p) (vs_powers vs) [] = vs_powers vs"
    using fold_hm_insert_distinct [of "[]" "vs_powers vs"] assms(1) by (simp add: vs_ok_def hm_ok_def)
  have "\<forall>(k, p) \<in> set (vs_powers vs). vk_from_bytes P k = Some k"
    using assms by (force simp: vs_ok_def vs_keys_parse_def)
  moreover have "List.map_filter (vk_from_bytes P) (vs_validators vs) = vs_validators vs"
    using assms(2) unfolding vs_keys_parse_def
    by (induction "vs_validators vs" arbitrary: vs rule: list.induct) (auto simp: List.map_filter_simps map_filter_def cong: map_cong)
  ultimately show ?thesis by (simp add: vs_try_from_def vs_to_bytes_def d convert_and_insert_all_parse)
qed

end
