(* ===== verification/Messages.thy ===== *)
theory Messages
  imports Certificates
begin

text \<open>
  The messages replicas exchange (\<^verbatim>\<open>hotstuff/messages.rs\<close>, \<^verbatim>\<open>pacemaker/messages.rs\<close>, \<^verbatim>\<open>block_sync/messages.rs\<close>,
  \<^verbatim>\<open>networking/messages.rs\<close>), the events a replica publishes (\<^verbatim>\<open>events.rs\<close>, without their
  timestamps), and the effects of a handler on the world outside it, in the order in which
  they happen.
\<close>

section \<open>Messages of the HotStuff subprotocol\<close>

record proposal =
  p_chain_id :: chain_id
  p_view :: view_number
  p_block :: block

record nudge =
  n_chain_id :: chain_id
  n_view :: view_number
  n_justify :: phase_certificate

record new_view =
  nv_chain_id :: chain_id
  nv_view :: view_number
  nv_highest_pc :: phase_certificate

datatype hotstuff_message =
  ProposalMsg proposal | NudgeMsg nudge | PhaseVoteMsg phase_vote | NewViewMsg new_view

fun hm_chain_id :: "hotstuff_message \<Rightarrow> chain_id" where
  "hm_chain_id (ProposalMsg p) = p_chain_id p"
| "hm_chain_id (NudgeMsg n) = n_chain_id n"
| "hm_chain_id (PhaseVoteMsg v) = pv_chain_id v"
| "hm_chain_id (NewViewMsg v) = nv_chain_id v"

fun hm_view :: "hotstuff_message \<Rightarrow> view_number" where
  "hm_view (ProposalMsg p) = p_view p"
| "hm_view (NudgeMsg n) = n_view n"
| "hm_view (PhaseVoteMsg v) = pv_view v"
| "hm_view (NewViewMsg v) = nv_view v"

definition nudge_new :: "chain_id \<Rightarrow> view_number \<Rightarrow> phase_certificate \<Rightarrow> nudge res" where
  "nudge_new chain_id view justify =
     (if is_prepare (pc_phase justify) \<or> is_precommit (pc_phase justify) \<or> is_commit (pc_phase justify)
      then Inr \<lparr>n_chain_id = chain_id, n_view = view, n_justify = justify\<rparr>
      else Inl (Panicked AssertionFailed))"

section \<open>Messages of the pacemaker\<close>

datatype progress_certificate = TimeoutCertificate timeout_certificate | PhaseCertificate phase_certificate

fun prc_chain_id :: "progress_certificate \<Rightarrow> chain_id" where
  "prc_chain_id (TimeoutCertificate tc) = tc_chain_id tc"
| "prc_chain_id (PhaseCertificate pc) = pc_chain_id pc"

fun prc_view :: "progress_certificate \<Rightarrow> view_number" where
  "prc_view (TimeoutCertificate tc) = tc_view tc"
| "prc_view (PhaseCertificate pc) = pc_view pc"

record advance_view =
  av_progress_certificate :: progress_certificate

datatype pacemaker_message = TimeoutVoteMsg timeout_vote | AdvanceViewMsg advance_view

fun pm_chain_id :: "pacemaker_message \<Rightarrow> chain_id" where
  "pm_chain_id (TimeoutVoteMsg v) = tv_chain_id v"
| "pm_chain_id (AdvanceViewMsg a) = prc_chain_id (av_progress_certificate a)"

fun pm_view :: "pacemaker_message \<Rightarrow> view_number" where
  "pm_view (TimeoutVoteMsg v) = tv_view v"
| "pm_view (AdvanceViewMsg a) = prc_view (av_progress_certificate a)"

section \<open>Messages of block sync\<close>

record block_sync_request =
  bsr_chain_id :: chain_id
  bsr_start_height :: block_height
  bsr_limit :: u32

record block_sync_response =
  bsp_blocks :: "block list"
  bsp_highest_pc :: phase_certificate

record advertise_pc =
  ap_highest_pc :: phase_certificate

datatype block_sync_advertise_message = AdvertiseBlockMsg advertise_block | AdvertisePCMsg advertise_pc

fun bsa_chain_id :: "block_sync_advertise_message \<Rightarrow> chain_id" where
  "bsa_chain_id (AdvertiseBlockMsg a) = ab_chain_id a"
| "bsa_chain_id (AdvertisePCMsg a) = pc_chain_id (ap_highest_pc a)"

datatype block_sync_message = BlockSyncRequest block_sync_request | BlockSyncResponse block_sync_response

section \<open>All messages\<close>

datatype progress_message =
    HotStuffMessage hotstuff_message | PacemakerMessage pacemaker_message
  | BlockSyncAdvertiseMessage block_sync_advertise_message

fun prm_chain_id :: "progress_message \<Rightarrow> chain_id" where
  "prm_chain_id (HotStuffMessage m) = hm_chain_id m"
| "prm_chain_id (PacemakerMessage m) = pm_chain_id m"
| "prm_chain_id (BlockSyncAdvertiseMessage m) = bsa_chain_id m"

text \<open>What \<^verbatim>\<open>mem::size_of\<close> reports for the structs that messages are made of: constants of the compiler, hence a parameter.\<close>

record sizes =
  sz_verifying_key :: u64
  sz_proposal :: u64
  sz_nudge :: u64
  sz_phase_vote :: u64
  sz_new_view :: u64
  sz_timeout_vote :: u64
  sz_advance_view :: u64
  sz_advertise_block :: u64
  sz_advertise_pc :: u64

fun hm_size :: "sizes \<Rightarrow> hotstuff_message \<Rightarrow> u64" where
  "hm_size S (ProposalMsg _) = sz_proposal S"
| "hm_size S (NudgeMsg _) = sz_nudge S"
| "hm_size S (PhaseVoteMsg _) = sz_phase_vote S"
| "hm_size S (NewViewMsg _) = sz_new_view S"

fun pm_size :: "sizes \<Rightarrow> pacemaker_message \<Rightarrow> u64" where
  "pm_size S (TimeoutVoteMsg _) = sz_timeout_vote S"
| "pm_size S (AdvanceViewMsg _) = sz_advance_view S"

fun bsa_size :: "sizes \<Rightarrow> block_sync_advertise_message \<Rightarrow> u64" where
  "bsa_size S (AdvertiseBlockMsg _) = sz_advertise_block S"
| "bsa_size S (AdvertisePCMsg _) = sz_advertise_pc S"

fun prm_size :: "sizes \<Rightarrow> progress_message \<Rightarrow> u64" where
  "prm_size S (HotStuffMessage m) = hm_size S m"
| "prm_size S (PacemakerMessage m) = pm_size S m"
| "prm_size S (BlockSyncAdvertiseMessage m) = bsa_size S m"

text \<open>The view of a message, where it has one.\<close>

fun prm_view :: "progress_message \<Rightarrow> view_number option" where
  "prm_view (HotStuffMessage m) = Some (hm_view m)"
| "prm_view (PacemakerMessage m) = Some (pm_view m)"
| "prm_view (BlockSyncAdvertiseMessage m) = None"

fun is_block_sync_trigger_msg :: "progress_message \<Rightarrow> bool" where
  "is_block_sync_trigger_msg (BlockSyncAdvertiseMessage m) = True"
| "is_block_sync_trigger_msg _ = False"

datatype message = ProgressMessage progress_message | BlockSyncMessage block_sync_message

section \<open>Events and effects\<close>

datatype event =
    InsertBlockEvent block | CommitBlockEvent crypto_hash | PruneBlockEvent crypto_hash
  | UpdateHighestPCEvent phase_certificate | UpdateLockedPCEvent phase_certificate
  | UpdateHighestTCEvent timeout_certificate | UpdateValidatorSetEvent crypto_hash validator_set_updates
  | ProposeEvent proposal | NudgeEvent nudge | PhaseVoteEvent phase_vote | NewViewEvent new_view
  | TimeoutVoteEvent timeout_vote | AdvanceViewEvent advance_view
  | ReceiveProposalEvent verifying_key proposal | ReceiveNudgeEvent verifying_key nudge
  | ReceivePhaseVoteEvent verifying_key phase_vote | ReceiveNewViewEvent verifying_key new_view
  | ReceiveTimeoutVoteEvent verifying_key timeout_vote | ReceiveAdvanceViewEvent verifying_key advance_view
  | StartViewEvent view_number | ViewTimeoutEvent view_number
  | CollectPCEvent phase_certificate | CollectTCEvent timeout_certificate
  | StartSyncEvent verifying_key | EndSyncEvent verifying_key u64
  | ReceiveSyncRequestEvent verifying_key block_height u32
  | SendSyncResponseEvent verifying_key "block list" phase_certificate

text \<open>
  What a handler does outside its own state: sending through the \<^verbatim>\<open>SenderHandle\<close>, telling the
  network about a new validator set through the \<^verbatim>\<open>ValidatorSetUpdateHandle\<close>, and publishing.
\<close>

datatype effect =
    Send verifying_key message | Broadcast message
  | UpdateValidatorSet validator_set_updates | Published event

end
