(* ===== verification/Invariants.thy ===== *)
theory Invariants
  imports Kv_Store Messages
begin

text \<open>
  The checks a replica makes against its block tree: the correctness of certificates and
  blocks (\<^verbatim>\<open>is_correct\<close> of \<^verbatim>\<open>hotstuff/types.rs\<close>, \<^verbatim>\<open>pacemaker/types.rs\<close> and \<^verbatim>\<open>types/block.rs\<close>), and the rules of
  \<^verbatim>\<open>block_tree/invariants.rs\<close> that decide what is safe, what to lock and what to commit. All of them
  only read the store.
\<close>

section \<open>Extra getters of the block tree\<close>

definition bt_contains :: "prims \<Rightarrow> kv_store \<Rightarrow> crypto_hash \<Rightarrow> bool" where
  "bt_contains P s b = (case kv_block P s b of Inr x \<Rightarrow> x \<noteq> None | Inl _ \<Rightarrow> False)"

definition bt_highest_view_with_progress :: "prims \<Rightarrow> kv_store \<Rightarrow> view_number res" where
  "bt_highest_view_with_progress P s =
     rbind (kv_highest_view_entered P s) (\<lambda>e.
     rbind (kv_highest_pc P s) (\<lambda>pc.
     rbind (kv_highest_tc P s) (\<lambda>tc.
     Inr (max e (max (pc_view pc) (case tc of None \<Rightarrow> view_init | Some tc \<Rightarrow> tc_view tc))))))"

definition bt_highest_committed_block_height :: "prims \<Rightarrow> kv_store \<Rightarrow> block_height option res" where
  "bt_highest_committed_block_height P s =
     rbind (kv_highest_committed_block P s) (\<lambda>hc. case hc of
         None \<Rightarrow> Inr None
       | Some b \<Rightarrow> kv_block_height P s b)"

section \<open>Correctness of certificates and blocks\<close>

definition pc_is_correct :: "prims \<Rightarrow> kv_store \<Rightarrow> phase_certificate \<Rightarrow> bool res" where
  "pc_is_correct P s pc =
     (if is_genesis_pc pc then Inr True
      else
        rbind (kv_block_height P s (pc_block pc)) (\<lambda>block_height.
        rbind (kv_validator_set_state P s) (\<lambda>vss.
        case (block_height, vss_update_height vss) of
          (Some height, Some update_height) \<Rightarrow>
            (if height < update_height then pc_is_correctly_signed P pc (previous_vs vss)
             else if height > update_height then pc_is_correctly_signed P pc (committed_vs vss)
             else case pc_phase pc of
               Decide \<Rightarrow>
                 rbind (kv_validator_set_updates_status P s (pc_block pc)) (\<lambda>st. case st of
                     Committed \<Rightarrow> pc_is_correctly_signed P pc (committed_vs vss)
                   | Pending vs_updates \<Rightarrow>
                       rbind (kv_committed_validator_set P s) (\<lambda>vs.
                       rbind (vs_apply_updates vs vs_updates) (\<lambda>new_vs.
                       pc_is_correctly_signed P pc new_vs))
                   | NoUpdates \<Rightarrow> Inr False)
             | Generic \<Rightarrow> Inr False
             | _ \<Rightarrow>
                 rbind (kv_validator_set_updates_status P s (pc_block pc)) (\<lambda>st. case st of
                     Committed \<Rightarrow> pc_is_correctly_signed P pc (previous_vs vss)
                   | Pending _ \<Rightarrow> pc_is_correctly_signed P pc (committed_vs vss)
                   | NoUpdates \<Rightarrow> Inr False))
        | _ \<Rightarrow> pc_is_correctly_signed P pc (committed_vs vss))))"

definition tc_is_correct :: "prims \<Rightarrow> kv_store \<Rightarrow> timeout_certificate \<Rightarrow> bool res" where
  "tc_is_correct P s tc =
     rbind (kv_validator_set_state P s) (\<lambda>vss.
       if vss_update_decided vss then tc_is_correctly_signed P tc (committed_vs vss)
       else ror (tc_is_correctly_signed P tc (committed_vs vss)) (tc_is_correctly_signed P tc (previous_vs vss)))"

definition block_is_correct :: "prims \<Rightarrow> kv_store \<Rightarrow> block \<Rightarrow> bool res" where
  "block_is_correct P s b =
     rand (Inr (b_hash b = block_compute_hash P (b_height b) (b_justify b) (b_data_hash b)))
       (pc_is_correct P s (b_justify b))"

section \<open>Safety rules\<close>

definition extends_locked_pc_block :: "prims \<Rightarrow> kv_store \<Rightarrow> phase_certificate \<Rightarrow> bool res" where
  "extends_locked_pc_block P s pc =
     rbind (kv_locked_pc P s) (\<lambda>locked_pc.
       let block = pc_block pc;
           block_parent = map_option pc_block (res_ok (kv_block_justify P s block));
           block_grandparent = Option.bind block_parent (\<lambda>b. map_option pc_block (res_ok (kv_block_justify P s b)))
       in Inr (block = pc_block locked_pc \<or> block_parent = Some (pc_block locked_pc)
            \<or> block_grandparent = Some (pc_block locked_pc)))"

definition phased :: "phase \<Rightarrow> bool" where
  "phased ph \<longleftrightarrow> is_prepare ph \<or> is_precommit ph \<or> is_commit ph \<or> is_decide ph"

definition safe_pc :: "prims \<Rightarrow> kv_store \<Rightarrow> chain_id \<Rightarrow> phase_certificate \<Rightarrow> bool res" where
  "safe_pc P s chain_id pc =
     rand (Inr (pc_chain_id pc = chain_id \<or> is_genesis_pc pc))
     (rand (Inr (bt_contains P s (pc_block pc) \<or> is_genesis_pc pc))
     (rand (rbind (kv_locked_pc P s) (\<lambda>locked_pc.
              if pc_view pc > pc_view locked_pc then Inr True else extends_locked_pc_block P s pc))
       (ror (rand (Inr (phased (pc_phase pc)))
              (rbind (kv_validator_set_updates_status P s (pc_block pc)) (\<lambda>st. Inr (contains_updates st))))
            (rand (Inr (is_generic (pc_phase pc)))
              (rbind (kv_validator_set_updates_status P s (pc_block pc)) (\<lambda>st. Inr (\<not> contains_updates st)))))))"

definition safe_block :: "prims \<Rightarrow> kv_store \<Rightarrow> chain_id \<Rightarrow> block \<Rightarrow> bool res" where
  "safe_block P s chain_id b = rand (safe_pc P s chain_id (b_justify b)) (Inr (is_block_justify (b_justify b)))"

definition safe_nudge :: "prims \<Rightarrow> kv_store \<Rightarrow> chain_id \<Rightarrow> view_number \<Rightarrow> nudge \<Rightarrow> bool res" where
  "safe_nudge P s chain_id current_view n =
     rand (safe_pc P s chain_id (n_justify n))
       (Inr (is_nudge_justify (n_justify n) \<and> n_chain_id n = chain_id
          \<and> (is_commit (pc_phase (n_justify n)) \<or> pc_view (n_justify n) = current_view - 1)))"

definition pc_to_lock :: "prims \<Rightarrow> kv_store \<Rightarrow> phase_certificate \<Rightarrow> phase_certificate option res" where
  "pc_to_lock P s justify =
     (if is_genesis_pc justify then Inr None
      else
        rbind (kv_locked_pc P s) (\<lambda>locked_pc.
        rbind (case pc_phase justify of
            Generic \<Rightarrow> rbind (kv_block_justify P s (pc_block justify)) (\<lambda>parent_justify. Inr (Some parent_justify))
          | Prepare \<Rightarrow> Inr None
          | Precommit \<Rightarrow> Inr (Some justify)
          | _ \<Rightarrow> Inr (if pc_block locked_pc \<noteq> pc_block justify then Some justify else None)) (\<lambda>to_lock.
        Inr (if (case to_lock of None \<Rightarrow> False | Some pc \<Rightarrow> pc \<noteq> locked_pc) then to_lock else None))))"

text \<open>Is the block still to be committed, judged by its height.\<close>

definition not_committed_yet :: "prims \<Rightarrow> kv_store \<Rightarrow> crypto_hash \<Rightarrow> bool res" where
  "not_committed_yet P s b =
     rbind (kv_block_height P s b) (\<lambda>h.
     rbind (ok_or h (BlockTreeFault (BlockExpectedButNotFound b))) (\<lambda>height.
     rbind (bt_highest_committed_block_height P s) (\<lambda>hc.
     Inr (case hc of None \<Rightarrow> True | Some c \<Rightarrow> height > c))))"

definition block_to_commit :: "prims \<Rightarrow> kv_store \<Rightarrow> phase_certificate \<Rightarrow> crypto_hash option res" where
  "block_to_commit P s justify =
     (if is_genesis_pc justify then Inr None
      else case pc_phase justify of
        Generic \<Rightarrow>
          rbind (kv_block_justify P s (pc_block justify)) (\<lambda>parent_justify.
          if is_genesis_pc parent_justify then Inr None
          else
            rbind (kv_block_justify P s (pc_block parent_justify)) (\<lambda>grandparent_justify.
            if is_genesis_pc grandparent_justify then Inr None
            else
              rbind (not_committed_yet P s (pc_block grandparent_justify)) (\<lambda>not_committed.
              Inr (if (pc_view justify = pc_view parent_justify + 1
                       \<and> pc_view parent_justify = pc_view grandparent_justify + 1) \<and> not_committed
                   then Some (pc_block grandparent_justify) else None))))
      | Prepare \<Rightarrow> Inr None
      | Precommit \<Rightarrow> Inr None
      | _ \<Rightarrow>
          rbind (not_committed_yet P s (pc_block justify)) (\<lambda>not_committed.
          Inr (if not_committed then Some (pc_block justify) else None)))"

definition repropose_block :: "prims \<Rightarrow> kv_store \<Rightarrow> view_number \<Rightarrow> crypto_hash option res" where
  "repropose_block P s current_view =
     rbind (kv_highest_pc P s) (\<lambda>highest_pc.
       Inr (if (is_prepare (pc_phase highest_pc) \<or> is_precommit (pc_phase highest_pc))
              \<and> current_view \<noteq> pc_view highest_pc + 1
            then Some (pc_block highest_pc) else None))"

end
