(* ===== verification/Block_Tree.thy ===== *)
theory Block_Tree
  imports Invariants
begin

text \<open>
  The block tree (\<^verbatim>\<open>block_tree/accessors/internal.rs\<close>): initialization, insertion, and the update that a
  certificate causes, with committing and pruning; the view of the app state that
  applications get (\<^verbatim>\<open>accessors/app.rs\<close>); and the block ranges served to syncing peers
  (\<^verbatim>\<open>accessors/public.rs\<close>). Walks along \<^verbatim>\<open>justify\<close> and \<^verbatim>\<open>children\<close> links may run forever on a
  corrupted store, so they are partial functions.
\<close>

section \<open>Lifecycle\<close>

definition bt_initialize :: "prims \<Rightarrow> app_state_updates \<Rightarrow> validator_set_state \<Rightarrow> kv_store \<Rightarrow> kv_store" where
  "bt_initialize P initial_app_state vss s =
     (let wb = wb_new;
          wb = wb_apply_app_state_updates P initial_app_state wb;
          wb = wb_set_committed_validator_set P (committed_vs vss) wb;
          wb = wb_set_previous_validator_set P (previous_vs vss) wb;
          wb = (case vss_update_height vss of None \<Rightarrow> wb
                | Some height \<Rightarrow> wb_set_validator_set_update_block_height P height wb);
          wb = wb_set_validator_set_update_decided P (vss_update_decided vss) wb;
          wb = wb_set_locked_pc P genesis_pc wb;
          wb = wb_set_highest_view_entered P view_init wb;
          wb = wb_set_highest_pc P genesis_pc wb
      in kv_write wb s)"

text \<open>The step of \<^verbatim>\<open>successors\<close>: from a block to its parent, ending at a missing block or at genesis.\<close>

definition chain_next :: "prims \<Rightarrow> kv_store \<Rightarrow> crypto_hash \<Rightarrow> crypto_hash option" where
  "chain_next P s b =
     Option.bind (res_ok (kv_block_justify P s b)) (\<lambda>pc. if \<not> is_genesis_pc pc then Some (pc_block pc) else None)"

text \<open>
  \<^verbatim>\<open>app_view\<close>: the ancestors are zipped with the heights of the same ancestors, but the second
  iterator drops blocks without a height, so it advances on its own.
\<close>

partial_function (option) next_height ::
  "prims \<Rightarrow> kv_store \<Rightarrow> crypto_hash option \<Rightarrow> (block_height \<times> crypto_hash option) option option" where
  "next_height P s h =
     (case h of None \<Rightarrow> Some None
      | Some b \<Rightarrow>
         (case kv_block_height P s b of
            Inr (Some height) \<Rightarrow> Some (Some (height, chain_next P s b))
          | _ \<Rightarrow> next_height P s (chain_next P s b)))"

partial_function (option) app_view_loop ::
  "prims \<Rightarrow> kv_store \<Rightarrow> block_height option \<Rightarrow> crypto_hash option \<Rightarrow> crypto_hash option \<Rightarrow> crypto_hash list option" where
  "app_view_loop P s hc a h =
     (case a of None \<Rightarrow> Some []
      | Some b \<Rightarrow>
          Option.bind (next_height P s h) (\<lambda>r. case r of
              None \<Rightarrow> Some []
            | Some hh \<Rightarrow>
                if (case hc of None \<Rightarrow> True | Some c \<Rightarrow> fst hh > c)
                then Option.bind (app_view_loop P s hc (chain_next P s b) (snd hh)) (\<lambda>l. Some (b # l))
                else Some []))"

record app_block_tree_view =
  abv_block_tree :: kv_store
  abv_pending :: "app_state_updates option list"

definition bt_app_view :: "prims \<Rightarrow> kv_store \<Rightarrow> crypto_hash option \<Rightarrow> app_block_tree_view res" where
  "bt_app_view P s parent =
     rbind (bt_highest_committed_block_height P s) (\<lambda>hc.
     rbind (returns (map_option Inr (app_view_loop P s hc parent parent))) (\<lambda>uncommitted.
     Inr \<lparr>abv_block_tree = s,
          abv_pending = List.map_filter (\<lambda>b. res_ok (kv_pending_app_state_updates P s b)) uncommitted\<rparr>))"

definition abv_app_state :: "prims \<Rightarrow> app_block_tree_view \<Rightarrow> u8 list \<Rightarrow> u8 list option" where
  "abv_app_state P v k =
     (case List.find (\<lambda>u. case u of None \<Rightarrow> False
             | Some u \<Rightarrow> us_contains_delete u k \<or> us_get_insert u k \<noteq> None) (abv_pending v) of
        Some (Some u) \<Rightarrow>
          (if us_contains_delete u k then None
           else case us_get_insert u k of Some value \<Rightarrow> Some value
                | None \<Rightarrow> kv_committed_app_state P (abv_block_tree v) k)
      | _ \<Rightarrow> kv_committed_app_state P (abv_block_tree v) k)"

section \<open>Insertion\<close>

definition bt_insert ::
  "prims \<Rightarrow> block \<Rightarrow> app_state_updates option \<Rightarrow> validator_set_updates option \<Rightarrow> kv_store \<Rightarrow> kv_store" where
  "bt_insert P b app_updates vs_updates s =
     (let wb = wb_new;
          wb = wb_set_block P b wb;
          wb = wb_set_newest_block P (b_hash b) wb;
          wb = (case app_updates of None \<Rightarrow> wb
                | Some u \<Rightarrow> wb_set_pending_app_state_updates P (b_hash b) u wb);
          wb = (case vs_updates of None \<Rightarrow> wb
                | Some u \<Rightarrow> wb_set_pending_validator_set_updates P (b_hash b) u wb);
          siblings = (case kv_children P s (pc_block (b_justify b)) of Inr cs \<Rightarrow> cs | Inl _ \<Rightarrow> []);
          siblings = children_push siblings (b_hash b);
          wb = wb_set_children P (pc_block (b_justify b)) siblings wb
      in kv_write wb s)"

section \<open>Pruning\<close>

text \<open>The depth-first walk; the top of the stack is the head of the list.\<close>

partial_function (option) branch_loop :: "prims \<Rightarrow> kv_store \<Rightarrow> crypto_hash list \<Rightarrow> crypto_hash list option" where
  "branch_loop P s stack =
     (case stack of [] \<Rightarrow> Some []
      | b # rest \<Rightarrow>
          Option.bind (branch_loop P s (rev (case kv_children P s b of Inr cs \<Rightarrow> cs | Inl _ \<Rightarrow> []) @ rest))
            (\<lambda>l. Some (b # l)))"

definition blocks_in_branch :: "prims \<Rightarrow> kv_store \<Rightarrow> crypto_hash \<Rightarrow> crypto_hash list option" where
  "blocks_in_branch P s root = branch_loop P s [root]"

definition delete_block_data :: "prims \<Rightarrow> kv_store \<Rightarrow> crypto_hash \<Rightarrow> write_batch \<Rightarrow> write_batch" where
  "delete_block_data P s b wb =
     (let wb = wb_delete_children P b wb;
          wb = wb_delete_pending_app_state_updates P b wb;
          wb = wb_delete_block_validator_set_updates P b wb
      in case kv_block_data_len P s b of
           Inr (Some data_len) \<Rightarrow> wb_delete_block P b data_len wb
         | _ \<Rightarrow> wb)"

definition delete_branch :: "prims \<Rightarrow> kv_store \<Rightarrow> crypto_hash \<Rightarrow> write_batch \<Rightarrow> write_batch res" where
  "delete_branch P s root wb =
     rbind (returns (map_option Inr (blocks_in_branch P s root))) (\<lambda>blocks.
     Inr (fold (delete_block_data P s) blocks wb))"

definition delete_siblings :: "prims \<Rightarrow> kv_store \<Rightarrow> crypto_hash \<Rightarrow> write_batch \<Rightarrow> write_batch res" where
  "delete_siblings P s b wb =
     rbind (kv_block_justify P s b) (\<lambda>pc.
     let parent_or_genesis = pc_block pc in
     rbind (kv_children P s parent_or_genesis) (\<lambda>children.
     rbind (rfold (delete_branch P s) (filter (\<lambda>sib. sib \<noteq> b) children) wb) (\<lambda>wb.
     Inr (wb_set_children P parent_or_genesis [b] wb))))"

section \<open>Committing\<close>

partial_function (option) uncommitted_loop ::
  "prims \<Rightarrow> kv_store \<Rightarrow> block_height option \<Rightarrow> crypto_hash \<Rightarrow> crypto_hash list res option" where
  "uncommitted_loop P s min_height b =
     (case (case min_height of None \<Rightarrow> Inr True
            | Some h \<Rightarrow> (case kv_block_height P s b of
                Inr (Some height) \<Rightarrow> Inr (height > h)
              | Inr None \<Rightarrow> Inl (Panicked UnwrapOnNone)
              | Inl _ \<Rightarrow> Inl (Panicked UnwrapOnErr))) of
        Inl e \<Rightarrow> Some (Inl e)
      | Inr taken \<Rightarrow>
          if taken then
            (case chain_next P s b of
               None \<Rightarrow> Some (Inr [b])
             | Some parent \<Rightarrow>
                 Option.bind (uncommitted_loop P s min_height parent) (\<lambda>r. Some (rbind r (\<lambda>l. Inr (b # l)))))
          else Some (Inr []))"

type_synonym committed_blocks = "(crypto_hash \<times> validator_set_updates option) list"

text \<open>
  The closure \<^verbatim>\<open>commit\<close>. It reads the store as it was before the batch, and marks the updates of
  \<open>block\<close>, the argument of the enclosing method, as committed.
\<close>

definition commit_block ::
  "prims \<Rightarrow> kv_store \<Rightarrow> crypto_hash \<Rightarrow> crypto_hash \<Rightarrow> committed_blocks \<times> write_batch
     \<Rightarrow> (committed_blocks \<times> write_batch) res" where
  "commit_block P s block b acc =
     (let (committed_blocks, wb) = acc in
      rbind (kv_block_height P s b) (\<lambda>h.
      rbind (ok_or h (BlockTreeFault (BlockExpectedButNotFound b))) (\<lambda>block_height.
      let wb = wb_set_block_at_height P block_height b wb in
      rbind (delete_siblings P s b wb) (\<lambda>wb.
      rbind (kv_pending_app_state_updates P s b) (\<lambda>pending.
      let wb = (case pending of None \<Rightarrow> wb
                | Some u \<Rightarrow> wb_delete_pending_app_state_updates P b (wb_apply_app_state_updates P u wb)) in
      rbind (kv_validator_set_updates_status P s b) (\<lambda>status.
      rbind (case status of
          Pending updates \<Rightarrow>
            rbind (kv_committed_validator_set P s) (\<lambda>previous.
            rbind (vs_apply_updates previous updates) (\<lambda>committed.
            let wb = wb_set_committed_validator_set P committed wb;
                wb = wb_set_previous_validator_set P previous wb;
                wb = wb_set_validator_set_update_block_height P block_height wb;
                wb = wb_set_validator_set_update_decided P False wb;
                wb = wb_set_committed_validator_set_updates P block wb
            in Inr (committed_blocks @ [(b, Some updates)], wb)))
        | _ \<Rightarrow> Inr (committed_blocks @ [(b, None)], wb)) (\<lambda>(committed_blocks, wb).
      Inr (committed_blocks, wb_set_highest_committed_block P b wb))))))))"

definition bt_commit ::
  "prims \<Rightarrow> kv_store \<Rightarrow> crypto_hash \<Rightarrow> write_batch \<Rightarrow> (committed_blocks \<times> write_batch) res" where
  "bt_commit P s block wb =
     rbind (bt_highest_committed_block_height P s) (\<lambda>min_height.
     rbind (returns (uncommitted_loop P s min_height block)) (\<lambda>uncommitted_blocks.
     rfold (commit_block P s block) (rev uncommitted_blocks) ([], wb)))"

section \<open>The update that a certificate causes\<close>

definition publish_update_block_tree_events ::
  "bool \<Rightarrow> phase_certificate option \<Rightarrow> phase_certificate option \<Rightarrow> committed_blocks \<Rightarrow> event list" where
  "publish_update_block_tree_events publisher update_highest_pc update_locked_pc committed_blocks =
     (if publisher then
        (case update_highest_pc of None \<Rightarrow> [] | Some pc \<Rightarrow> [UpdateHighestPCEvent pc]) @
        (case update_locked_pc of None \<Rightarrow> [] | Some pc \<Rightarrow> [UpdateLockedPCEvent pc]) @
        concat (map (\<lambda>(b, vsu). [PruneBlockEvent b, CommitBlockEvent b] @
          (case vsu of None \<Rightarrow> [] | Some u \<Rightarrow> [UpdateValidatorSetEvent b u])) committed_blocks)
      else [])"

definition bt_update ::
  "prims \<Rightarrow> bool \<Rightarrow> phase_certificate \<Rightarrow> kv_store \<Rightarrow> (validator_set_updates option \<times> event list \<times> kv_store) res" where
  "bt_update P publisher justify s =
     (let wb = wb_new in
      rbind (kv_highest_pc P s) (\<lambda>highest_pc.
      let (wb, update_highest_pc) =
        (if pc_view justify > pc_view highest_pc then (wb_set_highest_pc P justify wb, Some justify) else (wb, None)) in
      rbind (pc_to_lock P s justify) (\<lambda>update_locked_pc.
      let wb = (case update_locked_pc of None \<Rightarrow> wb | Some pc \<Rightarrow> wb_set_locked_pc P pc wb) in
      rbind (block_to_commit P s justify) (\<lambda>to_commit.
      rbind (case to_commit of None \<Rightarrow> Inr ([], wb) | Some block \<Rightarrow> bt_commit P s block wb) (\<lambda>(committed_blocks, wb).
      let wb = (if is_decide (pc_phase justify) then wb_set_validator_set_update_decided P True wb else wb) in
      Inr (Option.bind (List.find (\<lambda>(_, u). u \<noteq> None) (rev committed_blocks)) snd,
           publish_update_block_tree_events publisher update_highest_pc update_locked_pc committed_blocks,
           kv_write wb s))))))"

definition bt_set_highest_tc :: "prims \<Rightarrow> timeout_certificate \<Rightarrow> kv_store \<Rightarrow> kv_store" where
  "bt_set_highest_tc P tc s = kv_write (wb_set_highest_tc P tc wb_new) s"

definition bt_set_highest_view_entered :: "prims \<Rightarrow> view_number \<Rightarrow> kv_store \<Rightarrow> kv_store" where
  "bt_set_highest_view_entered P view s = kv_write (wb_set_highest_view_entered P view wb_new) s"

definition bt_set_highest_view_phase_voted :: "prims \<Rightarrow> view_number \<Rightarrow> kv_store \<Rightarrow> kv_store" where
  "bt_set_highest_view_phase_voted P view s = kv_write (wb_set_highest_view_phase_voted P view wb_new) s"

section \<open>What a batch leaves alone\<close>

definition wb_frame :: "prims \<Rightarrow> kv_path \<Rightarrow> write_batch \<Rightarrow> write_batch \<Rightarrow> bool" where
  "wb_frame P p wb wb' \<longleftrightarrow> (\<forall>s. kv_write wb' s (path_bytes P p) = kv_write wb s (path_bytes P p))"

lemma wb_frame_refl [simp]: "wb_frame P p wb wb"
  by (simp add: wb_frame_def)

lemma wb_frame_trans: "wb_frame P p a b \<Longrightarrow> wb_frame P p b c \<Longrightarrow> wb_frame P p a c"
  by (simp add: wb_frame_def)

lemma wb_frameD: "wb_frame P p wb wb' \<Longrightarrow> kv_write wb' s (path_bytes P p) = kv_write wb s (path_bytes P p)"
  by (simp add: wb_frame_def)

lemma wb_frame_set: "q \<noteq> p \<Longrightarrow> \<not> (is_datum p \<and> is_datum q) \<Longrightarrow> wb_frame P p a b \<Longrightarrow> wb_frame P p a (wb_set P q v b)"
  by (auto simp: wb_frame_def store_simps)

lemma wb_frame_delete: "q \<noteq> p \<Longrightarrow> \<not> (is_datum p \<and> is_datum q) \<Longrightarrow> wb_frame P p a b \<Longrightarrow> wb_frame P p a (wb_delete P q b)"
  by (auto simp: wb_frame_def store_simps)

lemma wb_frame_app: "(\<And>k. p \<noteq> PAppState k) \<Longrightarrow> wb_frame P p a b \<Longrightarrow> wb_frame P p a (wb_apply_app_state_updates P u b)"
  by (simp add: wb_frame_def wb_apply_app_state_updates_frame)

lemma wb_frame_delete_block:
  "p \<notin> {PBlockHeight b, PBlockJustify b, PBlockDataHash b, PBlockDataLen b} \<Longrightarrow> \<not> is_datum p \<Longrightarrow>
   wb_frame P p a wb \<Longrightarrow> wb_frame P p a (wb_delete_block P b len wb)"
  by (simp add: wb_frame_def delete_block_frame)

lemma wb_frame_block_at_height:
  assumes "\<And>h. p \<noteq> PBlockAtHeight h" and "wb_frame P p a wb"
  shows "wb_frame P p a (wb_set_block_at_height P h b wb)"
proof -
  have "path_bytes P p \<noteq> 1 # xs" for xs
    using assms(1) by (cases p) (auto simp: path_bytes.simps vconcat_def block_prefix_def)
  then show ?thesis
    using assms(2) by (simp add: wb_frame_def wb_set_block_at_height_def kv_write_def vconcat_def)
qed

lemmas wb_frame_intros = wb_frame_set wb_frame_delete wb_frame_app wb_frame_delete_block wb_frame_block_at_height wb_frame_refl

text \<open>The variables that belong to one block in the tree, which pruning may delete.\<close>

fun of_block :: "kv_path \<Rightarrow> crypto_hash option" where
  "of_block (PBlockHeight b) = Some b" | "of_block (PBlockJustify b) = Some b"
| "of_block (PBlockDataHash b) = Some b" | "of_block (PBlockDataLen b) = Some b"
| "of_block (PBlockDatum b _) = Some b" | "of_block (PChildren b) = Some b"
| "of_block (PPendingAppState b) = Some b" | "of_block (PStatus b) = Some b"
| "of_block _ = None"

lemma delete_block_data_frame:
  assumes "of_block p \<noteq> Some b" and "\<not> is_datum p"
  shows "wb_frame P p wb (delete_block_data P s b wb)"
proof -
  have "p \<notin> {PBlockHeight b, PBlockJustify b, PBlockDataHash b, PBlockDataLen b, PChildren b, PPendingAppState b, PStatus b}"
    using assms(1) by auto
  with assms(2) show ?thesis
    by (auto simp: delete_block_data_def Let_def wb_setter_defs intro!: wb_frame_intros split: sum.splits option.splits)
qed

lemma delete_branch_frame:
  assumes "delete_branch P s root wb = Inr wb'" and "\<not> is_datum p"
    and "\<And>bs b. blocks_in_branch P s root = Some bs \<Longrightarrow> of_block p = Some b \<Longrightarrow> b \<notin> set bs"
  shows "wb_frame P p wb wb'"
proof -
  from assms(1) obtain bs where bs: "blocks_in_branch P s root = Some bs" and wb': "wb' = fold (delete_block_data P s) bs wb"
    by (auto simp: delete_branch_def rbind_eq_Inr_iff returns_def split: option.splits)
  have "wb_frame P p wb (fold (delete_block_data P s) xs wb)" if "\<And>b. of_block p = Some b \<Longrightarrow> b \<notin> set xs" for xs wb
    using that
  proof (induction xs arbitrary: wb)
    case (Cons x xs)
    have "of_block p \<noteq> Some x" using Cons.prems by auto
    then have "wb_frame P p wb (delete_block_data P s x wb)" using assms(2) by (rule delete_block_data_frame)
    moreover have "wb_frame P p (delete_block_data P s x wb) (fold (delete_block_data P s) xs (delete_block_data P s x wb))"
      using Cons.prems by (intro Cons.IH) auto
    ultimately show ?case by (simp add: wb_frame_trans)
  qed simp
  with bs assms(3) show ?thesis by (simp add: wb')
qed

text \<open>The singleton variables, and the height index, are never deleted by pruning.\<close>

lemma delete_siblings_frame:
  assumes "delete_siblings P s b wb = Inr wb'" and "of_block p = None"
  shows "wb_frame P p wb wb'"
proof -
  from assms(1) obtain pc :: phase_certificate and cs wb1 where
    r: "rfold (delete_branch P s) (filter (\<lambda>sib. sib \<noteq> b) cs) wb = Inr wb1" "wb_set_children P (pc_block pc) [b] wb1 = wb'"
    by (simp add: delete_siblings_def rbind_eq_Inr_iff Let_def) blast
  have nd: "\<not> is_datum p" using assms(2) by (cases p) auto
  have "wb_frame P p a a'" if "delete_branch P s x a = Inr a'" for x a a'
    using delete_branch_frame [OF that nd] assms(2) by simp
  then have "wb_frame P p wb wb1"
    by (intro rfold_invariant [OF r(1), of "wb_frame P p wb"]) (auto intro: wb_frame_trans)
  moreover have "PChildren (pc_block pc) \<noteq> p" using assms(2) by auto
  ultimately show ?thesis using nd by (simp add: wb_set_children_def wb_frame_set flip: r(2))
qed

text \<open>What committing may write outside the variables of blocks and the height index.\<close>

fun commit_path :: "kv_path \<Rightarrow> bool" where
  "commit_path PCommittedValidatorSet = True" | "commit_path PPreviousValidatorSet = True"
| "commit_path PUpdateHeight = True" | "commit_path PUpdateDecided = True"
| "commit_path PHighestCommittedBlock = True" | "commit_path (PAppState _) = True"
| "commit_path _ = False"

lemma commit_block_cases:
  assumes "commit_block P s block b (cb, wb) = Inr (cb', wb')"
  obtains h wb1 pending status wb2 wb3 where
    "kv_block_height P s b = Inr (Some h)"
    "delete_siblings P s b (wb_set_block_at_height P h b wb) = Inr wb1"
    "kv_pending_app_state_updates P s b = Inr pending"
    "kv_validator_set_updates_status P s b = Inr status"
    "wb2 = (case pending of None \<Rightarrow> wb1 | Some u \<Rightarrow> wb_delete_pending_app_state_updates P b (wb_apply_app_state_updates P u wb1))"
    "wb' = wb_set_highest_committed_block P b wb3"
    "(\<And>u. status \<noteq> Pending u) \<Longrightarrow> cb' = cb @ [(b, None)] \<and> wb3 = wb2"
    "\<And>u. status = Pending u \<Longrightarrow> cb' = cb @ [(b, Some u)] \<and>
       (\<exists>previous committed. kv_committed_validator_set P s = Inr previous \<and> vs_apply_updates previous u = Inr committed \<and>
          wb3 = wb_set_committed_validator_set_updates P block (wb_set_validator_set_update_decided P False
                 (wb_set_validator_set_update_block_height P h (wb_set_previous_validator_set P previous
                   (wb_set_committed_validator_set P committed wb2)))))"
proof -
  from assms obtain h wb1 pending status where A: "kv_block_height P s b = Inr (Some h)"
    "delete_siblings P s b (wb_set_block_at_height P h b wb) = Inr wb1"
    "kv_pending_app_state_updates P s b = Inr pending" "kv_validator_set_updates_status P s b = Inr status"
    by (auto simp: commit_block_def Let_def rbind_eq_Inr_iff)
  let ?wb2 = "case pending of None \<Rightarrow> wb1 | Some u \<Rightarrow> wb_delete_pending_app_state_updates P b (wb_apply_app_state_updates P u wb1)"
  show thesis
  proof (cases status)
    case (Pending u)
    with assms A obtain previous committed where
      "kv_committed_validator_set P s = Inr previous" "vs_apply_updates previous u = Inr committed"
      by (auto simp: commit_block_def Let_def rbind_eq_Inr_iff)
    with assms A Pending show thesis
      by (intro that [OF A, of ?wb2 "wb_set_committed_validator_set_updates P block (wb_set_validator_set_update_decided P False
                 (wb_set_validator_set_update_block_height P h (wb_set_previous_validator_set P previous
                   (wb_set_committed_validator_set P committed ?wb2))))"]) (auto simp: commit_block_def Let_def)
  qed (use assms A in \<open>auto intro!: that [OF A, of ?wb2 ?wb2] simp: commit_block_def Let_def\<close>)
qed

lemma commit_block_frame:
  assumes "commit_block P s block b (cb, wb) = Inr (cb', wb')" and "of_block p = None" and "\<not> commit_path p"
    and at: "\<And>h. kv_block_height P s b = Inr (Some h) \<Longrightarrow> wb_frame P p wb (wb_set_block_at_height P h b wb)"
  shows "wb_frame P p wb wb'"
proof -
  have p: "\<And>k. p \<noteq> PAppState k" "p \<noteq> PCommittedValidatorSet" "p \<noteq> PPreviousValidatorSet"
    "p \<noteq> PUpdateHeight" "p \<noteq> PUpdateDecided" "p \<noteq> PHighestCommittedBlock" "\<not> is_datum p" "\<And>c. p \<noteq> PPendingAppState c"
    "\<And>c. p \<noteq> PStatus c"
    using assms(2,3) by (cases p; simp)+
  from assms(1) show ?thesis
  proof (cases rule: commit_block_cases)
    case (1 h wb1 pending status wb2 wb3)
    have "wb_frame P p wb wb1"
      using at [OF 1(1)] delete_siblings_frame [OF 1(2) assms(2)] wb_frame_trans by blast
    then have "wb_frame P p wb wb2"
      using p by (auto simp: 1(5) wb_setter_defs intro!: wb_frame_intros split: option.splits)
    then have "wb_frame P p wb wb3"
      using 1(7,8) p by (cases status) (auto simp: wb_setter_defs intro!: wb_frame_intros)
    then show ?thesis using p by (auto simp: 1(6) wb_setter_defs intro!: wb_frame_intros)
  qed
qed

lemma uncommitted_loop_unfold:
  assumes "uncommitted_loop P s mh b = Some (Inr l)"
  shows "l = [] \<and> (\<exists>h hb. mh = Some h \<and> kv_block_height P s b = Inr (Some hb) \<and> \<not> hb > h) \<or>
    (\<forall>h. mh = Some h \<longrightarrow> (\<exists>hb. kv_block_height P s b = Inr (Some hb) \<and> hb > h)) \<and>
    (l = [b] \<and> chain_next P s b = None \<or>
     (\<exists>p l'. l = b # l' \<and> chain_next P s b = Some p \<and> uncommitted_loop P s mh p = Some (Inr l')))"
  using assms
  by (subst (asm) uncommitted_loop.simps)
     (auto simp: rbind_eq_Inr_iff bind_eq_Some_conv split: if_splits option.splits sum.splits)

lemma uncommitted_loop_heights:
  assumes "uncommitted_loop P s (Some h) b = Some (Inr l)" and "x \<in> set l"
  shows "\<exists>hx. kv_block_height P s x = Inr (Some hx) \<and> hx > h"
  using assms
proof (induction l arbitrary: b)
  case (Cons y l)
  from uncommitted_loop_unfold [OF Cons.prems(1)] Cons show ?case by auto
qed simp

lemma bt_commit_frame:
  assumes "bt_commit P s block wb = Inr (cb, wb')" and "of_block p = None" and "\<not> commit_path p"
    and "(\<forall>h. p \<noteq> PBlockAtHeight h) \<or>
      borsh_ints P \<and> (\<exists>h hc. p = PBlockAtHeight h \<and> bt_highest_committed_block_height P s = Inr (Some hc) \<and> h \<le> hc)"
  shows "wb_frame P p wb wb'"
proof -
  from assms(1) obtain mh l where mh: "bt_highest_committed_block_height P s = Inr mh"
    and l: "uncommitted_loop P s mh block = Some (Inr l)"
    and f: "rfold (commit_block P s block) (rev l) ([], wb) = Inr (cb, wb')"
    by (auto simp: bt_commit_def rbind_eq_Inr_iff returns_def split: option.splits)
  have at: "wb_frame P p w (wb_set_block_at_height P h x w)" if "x \<in> set l" "kv_block_height P s x = Inr (Some h)" for x h w
  proof (cases "\<forall>h. p \<noteq> PBlockAtHeight h")
    case True
    then show ?thesis by (simp add: wb_frame_block_at_height)
  next
    case False
    with assms(4) mh obtain h0 hc where "borsh_ints P" "p = PBlockAtHeight h0" "mh = Some hc" "h0 \<le> hc" by auto
    moreover from this uncommitted_loop_heights [of P s hc block l x] l that have "h > hc" by auto
    ultimately show ?thesis by (auto simp: wb_set_block_at_height_eq intro!: wb_frame_set)
  qed
  have step: "wb_frame P p w w'" if "x \<in> set l" "commit_block P s block x (c, w) = Inr (c', w')" for x c w c' w'
    by (rule commit_block_frame [OF that(2) assms(2,3)]) (rule at [OF that(1)])
  show ?thesis
    by (rule rfold_invariant [OF f, of "\<lambda>(_, w). wb_frame P p wb w", simplified])
       (use step wb_frame_trans in \<open>fastforce split: prod.splits\<close>)
qed

section \<open>What an update does\<close>

lemma bt_update_cases:
  assumes "bt_update P pub justify s = Inr (r, ev, s')"
  obtains highest_pc to_lock to_commit cb wb0 wb1 where
    "kv_highest_pc P s = Inr highest_pc" "pc_to_lock P s justify = Inr to_lock" "block_to_commit P s justify = Inr to_commit"
    "wb0 = (case to_lock of None \<Rightarrow> id | Some pc \<Rightarrow> wb_set_locked_pc P pc)
        (if pc_view justify > pc_view highest_pc then wb_set_highest_pc P justify wb_new else wb_new)"
    "(case to_commit of None \<Rightarrow> Inr ([], wb0) | Some block \<Rightarrow> bt_commit P s block wb0) = Inr (cb, wb1)"
    "r = Option.bind (List.find (\<lambda>(_, u). u \<noteq> None) (rev cb)) snd"
    "s' = kv_write (if pc_phase justify = Decide then wb_set_validator_set_update_decided P True wb1 else wb1) s"
  using assms unfolding bt_update_def Let_def
  by (auto simp: rbind_eq_Inr_iff split: prod.splits if_splits option.splits intro!: that)

lemma bt_update_frame:
  assumes "bt_update P pub justify s = Inr (r, ev, s')" and "of_block p = None" and "\<not> commit_path p"
    and "p \<notin> {PHighestPC, PLockedPC}"
    and "(\<forall>h. p \<noteq> PBlockAtHeight h) \<or>
      borsh_ints P \<and> (\<exists>h hc. p = PBlockAtHeight h \<and> bt_highest_committed_block_height P s = Inr (Some hc) \<and> h \<le> hc)"
  shows "s' (path_bytes P p) = s (path_bytes P p)"
  using assms(1)
proof (cases rule: bt_update_cases)
  case (1 highest_pc to_lock to_commit cb wb0 wb1)
  have nd: "\<not> is_datum p" and ud: "p \<noteq> PUpdateDecided" using assms(2,3) by (cases p; simp)+
  have "wb_frame P p wb_new wb0"
    using assms(4) nd by (auto simp: 1(4) wb_setter_defs intro!: wb_frame_intros split: option.splits)
  moreover have "wb_frame P p wb0 wb1"
    using 1(5) bt_commit_frame [OF _ assms(2,3,5)] by (cases to_commit) auto
  ultimately have "wb_frame P p wb_new wb1" by (rule wb_frame_trans)
  then show ?thesis
    using nd ud by (auto simp: 1(7) wb_setter_defs store_simps wb_frame_def)
qed

lemma bt_update_pcs:
  assumes "bt_update P pub justify s = Inr (r, ev, s')"
  obtains highest_pc locked_pc to_lock where
    "kv_highest_pc P s = Inr highest_pc" "pc_to_lock P s justify = Inr to_lock"
    "kv_highest_pc P s' = Inr (if pc_view justify > pc_view highest_pc then justify else highest_pc)"
    "kv_locked_pc P s' = (case to_lock of None \<Rightarrow> kv_locked_pc P s | Some pc \<Rightarrow> Inr pc)"
  using assms
proof (cases rule: bt_update_cases)
  case (1 highest_pc to_lock to_commit cb wb0 wb1)
  have fr: "wb_frame P p wb0 wb1" if "p \<in> {PHighestPC, PLockedPC}" for p
    using 1(5) that bt_commit_frame [of P s _ wb0 cb wb1 p] by (cases to_commit) auto
  have "s' (path_bytes P PHighestPC) = (if pc_view justify > pc_view highest_pc then Some (VPc justify) else s (path_bytes P PHighestPC))"
    using wb_frameD [OF fr, of PHighestPC] 1(4) by (auto simp: 1(7) wb_setter_defs store_simps split: option.splits)
  moreover have "s' (path_bytes P PLockedPC) = (case to_lock of None \<Rightarrow> s (path_bytes P PLockedPC) | Some pc \<Rightarrow> Some (VPc pc))"
    using wb_frameD [OF fr, of PLockedPC] 1(4) by (auto simp: 1(7) wb_setter_defs store_simps split: option.splits)
  ultimately show thesis
    using 1(1,2) that by (auto simp: kv_highest_pc_def kv_locked_pc_def kv_get_req_def split: option.splits)
qed

text \<open>
  An update never lets the highest PC fall back, and never touches the voting and view records. If \<^verbatim>\<open>update\<close>
  succeeds, the new highest PC is the certificate it was called with if that has a strictly higher view, and the old
  one otherwise; the highest view voted in, the highest view entered, the highest TC and the newest block are what
  they were, whatever was committed or pruned on the way.
\<close>

lemma bt_update_highest_pc:
  assumes "bt_update P pub justify s = Inr (r, ev, s')"
  shows "\<exists>old. kv_highest_pc P s = Inr old \<and>
      kv_highest_pc P s' = Inr (if pc_view justify > pc_view old then justify else old) \<and>
      kv_highest_view_phase_voted P s' = kv_highest_view_phase_voted P s \<and>
      kv_highest_view_entered P s' = kv_highest_view_entered P s \<and>
      kv_highest_tc P s' = kv_highest_tc P s \<and> kv_newest_block P s' = kv_newest_block P s"
proof -
  have "s' (path_bytes P p) = s (path_bytes P p)" if "p \<in> {PHighestViewPhaseVoted, PHighestViewEntered, PHighestTC, PNewestBlock}" for p
    using that by (intro bt_update_frame [OF assms]) auto
  with assms show ?thesis
    by (elim bt_update_pcs) (auto simp: kv_getter_defs kv_get_opt_def kv_get_req_def)
qed

text \<open>
  C15. Committing is a one-way update: after a successful \<^verbatim>\<open>update\<close>, the entry of the height index at every height up
  to the previously highest committed block is exactly what it was before, so a committed block is never replaced.
\<close>

lemma committed_blocks_permanent:
  assumes "borsh_ints P" and "bt_update P pub justify s = Inr (r, ev, s')"
    and "bt_highest_committed_block_height P s = Inr (Some hc)" and "h \<le> hc"
  shows "kv_block_at_height P s' h = kv_block_at_height P s h"
proof -
  have "s' (path_bytes P (PBlockAtHeight h)) = s (path_bytes P (PBlockAtHeight h))"
    using assms by (intro bt_update_frame [OF assms(2)]) auto
  then show ?thesis by (simp add: kv_block_at_height_def kv_get_opt_def)
qed

section \<open>Committing applies the pending updates in order\<close>

definition apply_pending :: "prims \<Rightarrow> kv_store \<Rightarrow> crypto_hash \<Rightarrow> (u8 list \<Rightarrow> u8 list option) \<Rightarrow> u8 list \<Rightarrow> u8 list option" where
  "apply_pending P s b m = (case kv_pending_app_state_updates P s b of Inr (Some u) \<Rightarrow> us_apply u m | _ \<Rightarrow> m)"

text \<open>The update sets in the store keep the representation invariant of update sets.\<close>

definition pending_ok :: "prims \<Rightarrow> kv_store \<Rightarrow> bool" where
  "pending_ok P s \<longleftrightarrow> (\<forall>b u. kv_pending_app_state_updates P s b = Inr (Some u) \<longrightarrow> us_ok u)"

lemma app_state_frame:
  "(\<And>k. wb_frame P (PAppState k) wb wb') \<Longrightarrow> kv_committed_app_state P (kv_write wb' s) = kv_committed_app_state P (kv_write wb s)"
  by (simp add: kv_committed_app_state_def wb_frame_def fun_eq_iff)

lemma commit_block_app_state:
  assumes "commit_block P s block b (cb, wb) = Inr (cb', wb')" and "pending_ok P s"
  shows "kv_committed_app_state P (kv_write wb' t) = apply_pending P s b (kv_committed_app_state P (kv_write wb t))"
  using assms(1)
proof (cases rule: commit_block_cases)
  case (1 h wb1 pending status wb2 wb3)
  have "wb_frame P (PAppState k) wb wb1" for k
    by (rule wb_frame_trans [OF wb_frame_block_at_height [OF _ wb_frame_refl] delete_siblings_frame [OF 1(2)]]) simp_all
  then have "kv_committed_app_state P (kv_write wb1 t) = kv_committed_app_state P (kv_write wb t)"
    by (rule app_state_frame)
  then have 2: "kv_committed_app_state P (kv_write wb2 t) = apply_pending P s b (kv_committed_app_state P (kv_write wb t))"
  proof (cases pending)
    case (Some u)
    then have "kv_committed_app_state P (kv_write wb2 t) = kv_committed_app_state P (kv_write (wb_apply_app_state_updates P u wb1) t)"
      by (intro app_state_frame) (simp add: 1(5) wb_setter_defs wb_frame_delete)
    moreover have "us_ok u" using assms(2) 1(3) Some by (auto simp: pending_ok_def)
    ultimately show ?thesis
      using \<open>kv_committed_app_state P (kv_write wb1 t) = _\<close> 1(3) Some
      by (simp add: wb_apply_app_state_updates_get apply_pending_def)
  qed (simp add: 1(3,5) apply_pending_def)
  have "wb_frame P (PAppState k) wb2 wb3" for k
    using 1(7,8) by (cases status) (auto simp: wb_setter_defs intro!: wb_frame_intros)
  then have "wb_frame P (PAppState k) wb2 wb'" for k by (simp add: 1(6) wb_setter_defs wb_frame_set)
  then have "kv_committed_app_state P (kv_write wb' t) = kv_committed_app_state P (kv_write wb2 t)" by (rule app_state_frame)
  with 2 show ?thesis by simp
qed

lemma commit_block_fst: "commit_block P s block b (cb, wb) = Inr (cb', wb') \<Longrightarrow> map fst cb' = map fst cb @ [b]"
proof (erule commit_block_cases)
  fix status :: vsu_status and wb2 wb3 h
  assume "(\<And>u. status \<noteq> Pending u) \<Longrightarrow> cb' = cb @ [(b, None)] \<and> wb3 = wb2"
    and "\<And>u. status = Pending u \<Longrightarrow> cb' = cb @ [(b, Some u)] \<and>
       (\<exists>previous committed. kv_committed_validator_set P s = Inr previous \<and> vs_apply_updates previous u = Inr committed \<and>
          wb3 = wb_set_committed_validator_set_updates P block (wb_set_validator_set_update_decided P False
                 (wb_set_validator_set_update_block_height P h (wb_set_previous_validator_set P previous
                   (wb_set_committed_validator_set P committed wb2)))))"
  then show "map fst cb' = map fst cb @ [b]" by (cases status) auto
qed

lemma commit_block_pending_read:
  "commit_block P s block b acc = Inr acc' \<Longrightarrow> \<exists>p. kv_pending_app_state_updates P s b = Inr p"
  by (cases acc; cases acc') (auto elim: commit_block_cases)

lemma commit_block_highest: "commit_block P s block b (cb, wb) = Inr (cb', wb') \<Longrightarrow>
    kv_write wb' t (path_bytes P PHighestCommittedBlock) = Some (VHash b)"
  by (erule commit_block_cases) (simp add: wb_setter_defs store_simps)

lemma commit_blocks:
  assumes "rfold (commit_block P s block) bs (cb, wb) = Inr (cb', wb')" and "pending_ok P s"
  shows "map fst cb' = map fst cb @ bs"
    and "kv_committed_app_state P (kv_write wb' t) = fold (apply_pending P s) bs (kv_committed_app_state P (kv_write wb t))"
    and "\<forall>b \<in> set bs. \<exists>p. kv_pending_app_state_updates P s b = Inr p"
    and "bs \<noteq> [] \<Longrightarrow> kv_write wb' t (path_bytes P PHighestCommittedBlock) = Some (VHash (last bs))"
proof -
  have "map fst cb' = map fst cb @ bs \<and>
    kv_committed_app_state P (kv_write wb' t) = fold (apply_pending P s) bs (kv_committed_app_state P (kv_write wb t)) \<and>
    (\<forall>b \<in> set bs. \<exists>p. kv_pending_app_state_updates P s b = Inr p) \<and>
    (bs \<noteq> [] \<longrightarrow> kv_write wb' t (path_bytes P PHighestCommittedBlock) = Some (VHash (last bs)))"
    using assms(1)
  proof (induction bs arbitrary: cb wb)
    case (Cons b bs)
    then obtain c w where st: "commit_block P s block b (cb, wb) = Inr (c, w)"
      and r: "rfold (commit_block P s block) bs (c, w) = Inr (cb', wb')"
      by (auto simp: rbind_eq_Inr_iff)
    from Cons.IH [OF r] commit_block_fst [OF st] commit_block_app_state [OF st assms(2)] commit_block_pending_read [OF st]
      commit_block_highest [OF st, of t] r
    show ?case by auto
  qed simp
  then show "map fst cb' = map fst cb @ bs"
    and "kv_committed_app_state P (kv_write wb' t) = fold (apply_pending P s) bs (kv_committed_app_state P (kv_write wb t))"
    and "\<forall>b \<in> set bs. \<exists>p. kv_pending_app_state_updates P s b = Inr p"
    and "bs \<noteq> [] \<Longrightarrow> kv_write wb' t (path_bytes P PHighestCommittedBlock) = Some (VHash (last bs))"
    by auto
qed

section \<open>Walks along the chain end\<close>

text \<open>Every stored link goes to a stored block of strictly smaller height.\<close>

definition chain_wf :: "prims \<Rightarrow> kv_store \<Rightarrow> bool" where
  "chain_wf P s \<longleftrightarrow> (\<forall>b p. chain_next P s b = Some p \<longrightarrow>
     (\<exists>hb hp. kv_block_height P s b = Inr (Some hb) \<and> kv_block_height P s p = Inr (Some hp) \<and> hp < hb))"

lemma walks_agree:
  assumes "chain_wf P s" and "kv_block_height P s b = Inr (Some hb)"
  shows "\<exists>l. uncommitted_loop P s hc b = Some (Inr l) \<and> app_view_loop P s hc (Some b) (Some b) = Some l"
  using assms(2)
proof (induction "unat hb" arbitrary: b hb rule: less_induct)
  case less
  have nh: "next_height P s (Some b) = Some (Some (hb, chain_next P s b))"
    using less.prems by (subst next_height.simps) simp
  show ?case
  proof (cases "case hc of None \<Rightarrow> True | Some c \<Rightarrow> c < hb")
    case False
    with less.prems nh show ?thesis
      by (subst uncommitted_loop.simps, subst app_view_loop.simps) (auto split: option.splits)
  next
    case True
    show ?thesis
    proof (cases "chain_next P s b")
      case None
      have "app_view_loop P s hc None None = Some []" by (subst app_view_loop.simps) simp
      with None True less.prems nh show ?thesis
        by (subst uncommitted_loop.simps, subst app_view_loop.simps) (auto split: option.splits)
    next
      case (Some p)
      with assms(1) less.prems obtain hp where p: "kv_block_height P s p = Inr (Some hp)" "hp < hb"
        unfolding chain_wf_def by fastforce
      then have "unat hp < unat hb" by (simp add: word_less_nat_alt)
      from less.hyps [OF this p(1)] obtain l where
        "uncommitted_loop P s hc p = Some (Inr l)" "app_view_loop P s hc (Some p) (Some p) = Some l" by blast
      with Some True less.prems nh show ?thesis
        by (subst uncommitted_loop.simps, subst app_view_loop.simps) (auto split: option.splits)
    qed
  qed
qed

lemma abv_app_state_fold:
  "abv_app_state P \<lparr>abv_block_tree = s, abv_pending = us\<rparr> =
     fold (\<lambda>u m. case u of None \<Rightarrow> m | Some u \<Rightarrow> us_apply u m) (rev us) (kv_committed_app_state P s)"
proof (induction us)
  case (Cons u us)
  show ?case
    using Cons [symmetric]
    by (cases u) (auto simp: abv_app_state_def us_apply_def fun_eq_iff split: option.splits)
qed (simp add: abv_app_state_def fun_eq_iff)

lemma fold_pending:
  assumes "\<forall>x \<in> set xs. \<exists>p. kv_pending_app_state_updates P s x = Inr p"
  shows "fold (\<lambda>u m. case u of None \<Rightarrow> m | Some u \<Rightarrow> us_apply u m)
    (rev (List.map_filter (\<lambda>b. res_ok (kv_pending_app_state_updates P s b)) xs)) m = fold (apply_pending P s) (rev xs) m"
  using assms by (induction xs arbitrary: m) (auto simp: List.map_filter_simps apply_pending_def split: option.splits)

text \<open>
  C17. Applications see the future: on a tree whose links go to stored blocks of smaller height, the app state that the
  view handed to \<^verbatim>\<open>produce_block\<close> and \<^verbatim>\<open>validate_block\<close> shows for a parent block is, key for key, the committed app
  state that results if that parent and its uncommitted ancestors are then committed. In particular both walks end.
\<close>

lemma app_view_is_state_after_commit:
  assumes "chain_wf P s" and "kv_block_height P s b = Inr (Some hb)" and "pending_ok P s"
    and "bt_commit P s b wb_new = Inr (cb, wb)"
  shows "\<exists>v. bt_app_view P s (Some b) = Inr v \<and> abv_app_state P v = kv_committed_app_state P (kv_write wb s)"
proof -
  from assms(4) obtain hc l where hc: "bt_highest_committed_block_height P s = Inr hc"
    and l: "uncommitted_loop P s hc b = Some (Inr l)"
    and f: "rfold (commit_block P s b) (rev l) ([], wb_new) = Inr (cb, wb)"
    by (auto simp: bt_commit_def rbind_eq_Inr_iff returns_def split: option.splits)
  from walks_agree [OF assms(1,2), of hc] l have v: "app_view_loop P s hc (Some b) (Some b) = Some l" by simp
  let ?us = "List.map_filter (\<lambda>b. res_ok (kv_pending_app_state_updates P s b)) l"
  have pend: "\<forall>x \<in> set l. \<exists>p. kv_pending_app_state_updates P s x = Inr p" using commit_blocks(3) [OF f assms(3)] by simp
  have "fold (\<lambda>u m. case u of None \<Rightarrow> m | Some u \<Rightarrow> us_apply u m) (rev ?us) m = fold (apply_pending P s) (rev l) m" for m
    using pend by (rule fold_pending)
  moreover have "kv_committed_app_state P (kv_write wb s) = fold (apply_pending P s) (rev l) (kv_committed_app_state P s)"
    using commit_blocks(2) [OF f assms(3), of s] by (simp add: store_simps)
  ultimately have "abv_app_state P \<lparr>abv_block_tree = s, abv_pending = ?us\<rparr> = kv_committed_app_state P (kv_write wb s)"
    by (simp add: abv_app_state_fold)
  with hc v show ?thesis by (simp add: bt_app_view_def)
qed

section \<open>A committed block is found again\<close>

lemma commit_block_at_height:
  assumes "commit_block P s block b (cb, wb) = Inr (cb', wb')" and "borsh_ints P"
  obtains h where "kv_block_height P s b = Inr (Some h)" "kv_write wb' t (path_bytes P (PBlockAtHeight h)) = Some (VHash b)"
  using assms(1)
proof (cases rule: commit_block_cases)
  case (1 h wb1 pending status wb2 wb3)
  let ?p = "PBlockAtHeight h"
  have "wb_frame P ?p (wb_set_block_at_height P h b wb) wb1" using delete_siblings_frame [OF 1(2)] by simp
  then have "wb_frame P ?p (wb_set_block_at_height P h b wb) wb2"
    by (auto simp: 1(5) wb_setter_defs intro!: wb_frame_intros split: option.splits)
  then have "wb_frame P ?p (wb_set_block_at_height P h b wb) wb3"
    using 1(7,8) by (cases status) (auto simp: wb_setter_defs intro!: wb_frame_intros)
  then have "wb_frame P ?p (wb_set_block_at_height P h b wb) wb'"
    by (simp add: 1(6) wb_setter_defs wb_frame_set)
  then have "kv_write wb' t (path_bytes P ?p) = Some (VHash b)"
    using assms(2) by (simp add: wb_frame_def wb_set_block_at_height_eq store_simps)
  with 1(1) show thesis by (rule that)
qed

lemma bt_commit_last:
  assumes "bt_commit P s block wb = Inr (cb, wb')"
    and "\<And>h. bt_highest_committed_block_height P s = Inr (Some h) \<Longrightarrow> \<exists>hb. kv_block_height P s block = Inr (Some hb) \<and> hb > h"
  obtains acc where "commit_block P s block block acc = Inr (cb, wb')"
proof -
  from assms(1) obtain mh l where mh: "bt_highest_committed_block_height P s = Inr mh"
    and l: "uncommitted_loop P s mh block = Some (Inr l)"
    and f: "rfold (commit_block P s block) (rev l) ([], wb) = Inr (cb, wb')"
    by (auto simp: bt_commit_def rbind_eq_Inr_iff returns_def split: option.splits)
  from uncommitted_loop_unfold [OF l] assms(2) mh obtain l' where "l = block # l'" by fastforce
  with f that show thesis by (auto simp: rbind_eq_Inr_iff)
qed

lemma block_to_commit_height:
  assumes "block_to_commit P s justify = Inr (Some b)"
  shows "not_committed_yet P s b = Inr True"
  using assms by (auto simp: block_to_commit_def rbind_eq_Inr_iff split: if_splits phase.splits)

text \<open>
  C16. Committing takes effect: whenever the commit rule selects a block and \<^verbatim>\<open>update\<close> succeeds, that very block is the
  highest committed block afterwards, it is found in the height index at its own height, and its height is strictly
  above the height of the previously highest committed block.
\<close>

lemma bt_update_commits:
  assumes "borsh_ints P" and "bt_update P pub justify s = Inr (r, ev, s')" and "block_to_commit P s justify = Inr (Some b)"
  shows "kv_highest_committed_block P s' = Inr (Some b) \<and>
    (\<exists>h. kv_block_height P s b = Inr (Some h) \<and> kv_block_at_height P s' h = Inr (Some b) \<and>
       (\<forall>hc. bt_highest_committed_block_height P s = Inr (Some hc) \<longrightarrow> hc < h))"
  using assms(2)
proof (cases rule: bt_update_cases)
  case (1 highest_pc to_lock to_commit cb wb0 wb1)
  have c: "bt_commit P s b wb0 = Inr (cb, wb1)" using 1(3,5) assms(3) by (auto split: option.splits)
  have new: "\<exists>hb. kv_block_height P s b = Inr (Some hb) \<and> hb > h" if "bt_highest_committed_block_height P s = Inr (Some h)" for h
    using block_to_commit_height [OF assms(3)] that by (auto simp: not_committed_yet_def rbind_eq_Inr_iff)
  from bt_commit_last [OF c new] obtain cb0 w where last: "commit_block P s b b (cb0, w) = Inr (cb, wb1)" by (metis surj_pair)
  have "s' (path_bytes P PHighestCommittedBlock) = Some (VHash b)"
    using commit_block_highest [OF last, of s] by (simp add: 1(7) wb_setter_defs store_simps)
  moreover from commit_block_at_height [OF last assms(1)] obtain h where
    "kv_block_height P s b = Inr (Some h)" "kv_write wb1 s (path_bytes P (PBlockAtHeight h)) = Some (VHash b)" by blast
  moreover from this have "s' (path_bytes P (PBlockAtHeight h)) = Some (VHash b)"
    by (simp add: 1(7) wb_setter_defs store_simps)
  ultimately show ?thesis
    using new by (fastforce simp: kv_highest_committed_block_def kv_block_at_height_def kv_get_opt_def)
qed

section \<open>Initialization and insertion\<close>

lemma bt_initialize_gets:
  assumes "us_ok u" and "vs_ok (committed_vs vss)" and "vs_ok (previous_vs vss)"
    and "vs_keys_parse P (committed_vs vss)" and "vs_keys_parse P (previous_vs vss)"
  defines "s \<equiv> bt_initialize P u vss Map.empty"
  shows "kv_committed_app_state P s = us_apply u Map.empty \<and> kv_validator_set_state P s = Inr vss \<and>
    kv_highest_pc P s = Inr genesis_pc \<and> kv_locked_pc P s = Inr genesis_pc \<and> kv_highest_view_entered P s = Inr 0 \<and>
    kv_highest_view_phase_voted P s = Inr None \<and> kv_highest_committed_block P s = Inr None \<and>
    kv_highest_tc P s = Inr None \<and> kv_newest_block P s = Inr None"
proof -
  let ?w = "wb_apply_app_state_updates P u wb_new"
  have old: "kv_write ?w Map.empty (path_bytes P p) = None" if "\<And>k. p \<noteq> PAppState k" for p
    using wb_apply_app_state_updates_frame [OF that] by (simp add: store_simps)
  have "kv_committed_app_state P s = kv_committed_app_state P (kv_write ?w Map.empty)"
    by (cases "vss_update_height vss") (auto simp: s_def bt_initialize_def Let_def kv_committed_app_state_def
        wb_setter_defs store_simps fun_eq_iff)
  also have "\<dots> = us_apply u (kv_committed_app_state P Map.empty)"
    using assms(1) by (simp add: wb_apply_app_state_updates_get store_simps)
  also have "kv_committed_app_state P Map.empty = Map.empty" by (simp add: kv_committed_app_state_def fun_eq_iff)
  finally have app: "kv_committed_app_state P s = us_apply u Map.empty" .
  have vs: "map_ed25519 (vs_try_from P (vs_to_bytes v)) k = Inr v" if "vs_ok v" "vs_keys_parse P v" for v k
    using that by (simp add: map_ed25519_def vs_try_from_to_bytes)
  have "kv_validator_set_state P s = Inr vss"
    using assms(2-5) by (cases "vss_update_height vss") (auto simp: s_def bt_initialize_def Let_def kv_validator_set_state_def
        kv_getter_defs kv_get_req_def kv_get_opt_def wb_setter_defs store_simps old vs)
  moreover have "kv_highest_pc P s = Inr genesis_pc \<and> kv_locked_pc P s = Inr genesis_pc \<and> kv_highest_view_entered P s = Inr 0 \<and>
    kv_highest_view_phase_voted P s = Inr None \<and> kv_highest_committed_block P s = Inr None \<and>
    kv_highest_tc P s = Inr None \<and> kv_newest_block P s = Inr None"
    by (cases "vss_update_height vss") (auto simp: s_def bt_initialize_def Let_def kv_getter_defs kv_get_req_def kv_get_opt_def
        wb_setter_defs store_simps old view_init_def)
  ultimately show ?thesis using app by blast
qed

lemma bt_insert_path:
  assumes "\<not> is_datum p"
  shows "bt_insert P b au vu s (path_bytes P p) =
    (if p = PChildren (pc_block (b_justify b))
     then Some (VChildren ((case kv_children P s (pc_block (b_justify b)) of Inr cs \<Rightarrow> cs | Inl _ \<Rightarrow> []) @ [b_hash b]))
     else if p = PStatus (b_hash b) \<and> vu \<noteq> None then Some (VStatus (PendingBytes (vsu_to_bytes (the vu))))
     else if p = PPendingAppState (b_hash b) \<and> au \<noteq> None then Some (VAppUpdates (the au))
     else if p = PNewestBlock then Some (VHash (b_hash b))
     else kv_write (wb_set_block P b wb_new) s (path_bytes P p))"
  using assms
  by (cases au; cases vu) (auto simp: bt_insert_def Let_def wb_setter_defs store_simps children_push_def)

lemma bt_insert_height:
  "kv_block_height P (bt_insert P b au vu s) x = (if x = b_hash b then Inr (Some (b_height b)) else kv_block_height P s x)"
  by (auto simp: kv_block_height_def kv_get_opt_def bt_insert_path set_block_frame store_simps)
     (use set_block_fields(1) [of P b wb_new s] in \<open>auto simp: kv_block_height_def kv_get_opt_def\<close>)

lemma bt_insert_justify:
  "kv_block_justify P (bt_insert P b au vu s) x = (if x = b_hash b then Inr (b_justify b) else kv_block_justify P s x)"
  by (auto simp: kv_block_justify_def kv_get_req_def bt_insert_path set_block_frame store_simps)
     (use set_block_fields(2) [of P b wb_new s] in \<open>auto simp: kv_block_justify_def kv_get_req_def\<close>)

lemma bt_insert_next:
  "chain_next P (bt_insert P b au vu s) x =
     (if x = b_hash b then (if is_genesis_pc (b_justify b) then None else Some (pc_block (b_justify b))) else chain_next P s x)"
  by (simp add: chain_next_def bt_insert_justify)

lemma insert_chain_wf:
  assumes "chain_wf P s" and "kv_block_height P s (b_hash b) = Inr None"
    and "is_genesis_pc (b_justify b) \<or>
      (\<exists>hp. kv_block_height P s (pc_block (b_justify b)) = Inr (Some hp) \<and> hp < b_height b)"
  shows "chain_wf P (bt_insert P b au vu s)"
proof -
  have old: "x \<noteq> b_hash b" if "kv_block_height P s x = Inr (Some h)" for x h using that assms(2) by auto
  show ?thesis
    unfolding chain_wf_def
  proof (intro allI impI)
    fix x p assume n: "chain_next P (bt_insert P b au vu s) x = Some p"
    show "\<exists>hb hp. kv_block_height P (bt_insert P b au vu s) x = Inr (Some hb) \<and>
      kv_block_height P (bt_insert P b au vu s) p = Inr (Some hp) \<and> hp < hb"
    proof (cases "x = b_hash b")
      case True
      with n assms(3) obtain hp where "p = pc_block (b_justify b)" "kv_block_height P s p = Inr (Some hp)" "hp < b_height b"
        by (auto simp: bt_insert_next split: if_splits)
      with True old show ?thesis by (auto simp: bt_insert_height)
    next
      case False
      with n have "chain_next P s x = Some p" by (simp add: bt_insert_next)
      with assms(1) obtain hb hp where "kv_block_height P s x = Inr (Some hb)" "kv_block_height P s p = Inr (Some hp)" "hp < hb"
        unfolding chain_wf_def by blast
      with old show ?thesis by (auto simp: bt_insert_height)
    qed
  qed
qed

section \<open>Locking\<close>

lemma bt_update_lock_table:
  assumes "bt_update P pub justify s = Inr (r, ev, s')" and "\<not> is_genesis_pc justify" and "kv_locked_pc P s = Inr old"
  shows "kv_locked_pc P s' = (case pc_phase justify of
      Generic \<Rightarrow> kv_block_justify P s (pc_block justify)
    | Prepare \<Rightarrow> Inr old
    | Precommit \<Rightarrow> Inr justify
    | _ \<Rightarrow> Inr (if pc_block old = pc_block justify then old else justify))"
  using assms(1)
proof (rule bt_update_pcs)
  fix highest_pc to_lock
  assume L: "pc_to_lock P s justify = Inr to_lock"
    and S: "kv_locked_pc P s' = (case to_lock of None \<Rightarrow> kv_locked_pc P s | Some pc \<Rightarrow> Inr pc)"
  show ?thesis
    using L S assms(2,3)
    by (cases "pc_phase justify") (auto simp: pc_to_lock_def rbind_eq_Inr_iff split: if_splits)
qed

text \<open>
  What an update locks: with a justify other than the genesis PC, the locked PC afterwards is, by phase, the
  justify of the certified block (generic), the old lock (prepare), the certificate itself (precommit), or the
  certificate itself unless the old lock is on the same block (commit and decide).
\<close>

lemma bt_update_locked_pc:
  assumes "bt_update P pub justify s = Inr (r, ev, s')" and "\<not> is_genesis_pc justify" and "kv_locked_pc P s = Inr old"
  shows "kv_locked_pc P s' = (case pc_phase justify of
      Generic \<Rightarrow> kv_block_justify P s (pc_block justify)
    | Prepare \<Rightarrow> Inr old
    | Precommit \<Rightarrow> Inr justify
    | _ \<Rightarrow> Inr (if pc_block old = pc_block justify then old else justify))"
  by (rule bt_update_lock_table [OF assms])

text \<open>The lock follows the certified block's justify whatever its view, so it can move back.\<close>

definition demo_pc :: "view_number \<Rightarrow> crypto_hash \<Rightarrow> phase_certificate" where
  "demo_pc v b = \<lparr>pc_chain_id = 0, pc_view = v, pc_block = b, pc_phase = Generic, pc_signatures = []\<rparr>"

definition demo_tree :: "prims \<Rightarrow> kv_store" where
  "demo_tree P = kv_write (wb_set_block P \<lparr>b_height = 0, b_hash = 1, b_justify = genesis_pc, b_data_hash = 0, b_data = []\<rparr>
     (wb_set_block P \<lparr>b_height = 1, b_hash = 2, b_justify = demo_pc 5 1, b_data_hash = 0, b_data = []\<rparr>
     (wb_set_locked_pc P (demo_pc 10 9) (wb_set_highest_pc P (demo_pc 10 9) wb_new)))) Map.empty"

lemmas demo_tree_simps = demo_tree_def wb_set_block_def Let_def demo_pc_def wb_setter_defs store_simps
  kv_getter_defs kv_get_req_def kv_get_opt_def kv_block_def kv_block_data_def data_len_of_def bt_contains_def
  map_ed25519_def is_genesis_pc_def genesis_pc_def phased_def

text \<open>
  The lock is not monotone: there is a block tree and a generic certificate that passes \<^verbatim>\<open>safe_pc\<close> such that
  \<^verbatim>\<open>update\<close> succeeds and replaces the locked PC by one of a strictly lower view.
\<close>

lemma lock_can_regress:
  "\<exists>s justify ev s' old new. safe_pc P s 0 justify = Inr True \<and> bt_update P False justify s = Inr (None, ev, s') \<and>
     kv_locked_pc P s = Inr old \<and> kv_locked_pc P s' = Inr new \<and> pc_view new < pc_view old"
proof -
  let ?s = "demo_tree P" and ?j = "demo_pc 12 2"
  have safe: "safe_pc P ?s 0 ?j = Inr True"
    by (simp add: safe_pc_def demo_tree_simps)
  have old: "kv_locked_pc P ?s = Inr (demo_pc 10 9)" by (simp add: demo_tree_simps)
  have bj: "kv_block_justify P ?s 2 = Inr (demo_pc 5 1)" by (simp add: demo_tree_simps)
  have "\<exists>ev s'. bt_update P False ?j ?s = Inr (None, ev, s')"
    by (simp add: bt_update_def pc_to_lock_def block_to_commit_def demo_tree_simps)
  then obtain ev s' where up: "bt_update P False ?j ?s = Inr (None, ev, s')" by blast
  have "\<not> is_genesis_pc ?j" by (simp add: demo_tree_simps)
  from bt_update_lock_table [OF up this old] bj have "kv_locked_pc P s' = Inr (demo_pc 5 1)" by (simp add: demo_pc_def)
  with safe old up show ?thesis by (fastforce simp: demo_pc_def)
qed

end
