(* ===== verification/Leader.thy ===== *)
theory Leader
  imports Validator_Set
begin

text \<open>
  Leader selection (\<^verbatim>\<open>select_leader\<close> of \<^verbatim>\<open>pacemaker/implementation.rs\<close>): interleaved weighted
  round robin over the validator set. The loops are modelled as written; the abstract array
  that the source's comments speak of is the specification they are proved against.
\<close>

section \<open>The algorithm\<close>

text \<open>
  One pass over the validators at a given threshold: \<open>Inl\<close> is the early return of a leader,
  \<open>Inr\<close> the counter at the end of the pass.
\<close>

fun leader_pass ::
  "validator_set \<Rightarrow> nat \<Rightarrow> u64 \<Rightarrow> verifying_key list \<Rightarrow> u64 \<Rightarrow> (verifying_key + u64) res" where
  "leader_pass vs threshold index [] counter = Inr (Inr counter)"
| "leader_pass vs threshold index (v # vals) counter =
     rbind (ok_or (vs_power vs v) (Panicked UnwrapOnNone)) (\<lambda>p.
       if threshold \<le> unat p then
         (if counter = index then Inr (Inl v)
          else leader_pass vs threshold index vals (counter + 1))
       else leader_pass vs threshold index vals counter)"

function leader_search :: "validator_set \<Rightarrow> u64 \<Rightarrow> nat \<Rightarrow> nat \<Rightarrow> u64 \<Rightarrow> verifying_key res" where
  "leader_search vs index p_max threshold counter =
     (if threshold \<le> p_max then
        rbind (leader_pass vs threshold index (vs_validators vs) counter) (\<lambda>r.
          case r of Inl v \<Rightarrow> Inr v
          | Inr counter \<Rightarrow> leader_search vs index p_max (threshold + 1) counter)
      else Inl (Panicked LeaderIndexNotFound))"
  by pat_completeness auto
termination
  by (relation "measure (\<lambda>(vs, index, p_max, threshold, counter). p_max + 1 - threshold)") auto

declare leader_search.simps [simp del]

definition select_leader :: "view_number \<Rightarrow> validator_set \<Rightarrow> verifying_key res" where
  "select_leader view vs =
     (let p_total = ucast (vs_total_power vs) :: u64 in
      if p_total = 0 then Inl (Panicked RemainderByZero)
      else let index = view mod p_total in
        rbind (vs_validators_and_powers vs) (\<lambda>vps.
          if vps = [] then Inl (Panicked EmptyValidatorSet)
          else leader_search vs index (unat (Max (snd ` set vps))) 1 0))"

section \<open>The abstract array of leaders\<close>

definition leader_row :: "validator_set \<Rightarrow> nat \<Rightarrow> verifying_key list" where
  "leader_row vs t = filter (\<lambda>v. t \<le> unat (the (vs_power vs v))) (vs_validators vs)"

definition leader_array :: "validator_set \<Rightarrow> nat \<Rightarrow> nat \<Rightarrow> verifying_key list" where
  "leader_array vs t p_max = concat (map (leader_row vs) [t..<Suc p_max])"

text \<open>One pass of the loop looks up one row.\<close>

lemma leader_pass_row:
  fixes t :: nat
  assumes "\<forall>v \<in> set vals. vs_power vs v \<noteq> None" and "unat c \<le> unat idx"
    and "row = filter (\<lambda>v. t \<le> unat (the (vs_power vs v))) vals"
  shows "if unat idx < unat c + length row
         then leader_pass vs t idx vals c = Inr (Inl (row ! (unat idx - unat c)))
         else \<exists>c'. leader_pass vs t idx vals c = Inr (Inr c') \<and> unat c' = unat c + length row"
  using assms(1,2) unfolding assms(3)
proof (induction vals arbitrary: c)
  case (Cons v vals)
  then obtain p where p: "vs_power vs v = Some p" by auto
  show ?case
  proof (cases "t \<le> unat p")
    case False
    with Cons p show ?thesis by (auto split: if_splits)
  next
    case True
    show ?thesis
    proof (cases "c = idx")
      case eq: True
      with True p show ?thesis by simp
    next
      case ne: False
      then have lt: "unat c < unat idx" using Cons.prems(2) by (simp add: word_unat_eq_iff le_neq_implies_less)
      then have c1: "unat (c + 1) = unat c + 1"
        using unsigned_less [of idx, where 'a = nat] by (simp add: unat_word_ariths)
      have step: "leader_pass vs t idx (v # vals) c = leader_pass vs t idx vals (c + 1)"
        using True p ne by simp
      show ?thesis
        using Cons.IH [of "c + 1"] Cons.prems(1) lt True p step c1
        by (auto simp: nth_Cons' split: if_splits)
    qed
  qed
qed simp

lemma leader_search_array:
  assumes "vs_ok vs" and "unat c \<le> unat idx" and "unat idx < unat c + length (leader_array vs t m)"
  shows "leader_search vs idx m t c = Inr (leader_array vs t m ! (unat idx - unat c))"
  using assms(2,3)
proof (induction "Suc m - t" arbitrary: t c)
  case 0
  then show ?case by (simp add: leader_array_def)
next
  case (Suc n)
  then have t: "t \<le> m" by simp
  have arr: "leader_array vs t m = leader_row vs t @ leader_array vs (Suc t) m"
    using t by (simp add: leader_array_def upt_rec [of t] del: upt_Suc)
  have pass: "if unat idx < unat c + length (leader_row vs t)
      then leader_pass vs t idx (vs_validators vs) c = Inr (Inl (leader_row vs t ! (unat idx - unat c)))
      else \<exists>c'. leader_pass vs t idx (vs_validators vs) c = Inr (Inr c') \<and> unat c' = unat c + length (leader_row vs t)"
    by (rule leader_pass_row) (use Suc.prems(1) vs_ok_power [OF assms(1)] in \<open>auto simp: leader_row_def\<close>)
  show ?case
  proof (cases "unat idx < unat c + length (leader_row vs t)")
    case True
    moreover from this Suc.prems(1) have "unat idx - unat c < length (leader_row vs t)" by linarith
    ultimately show ?thesis
      using pass t by (simp add: leader_search.simps [of vs idx m t c] arr nth_append)
  next
    case False
    with pass obtain c' where c': "leader_pass vs t idx (vs_validators vs) c = Inr (Inr c')"
        "unat c' = unat c + length (leader_row vs t)" by auto
    have "leader_search vs idx m (Suc t) c' = Inr (leader_array vs (Suc t) m ! (unat idx - unat c'))"
      using Suc False c' by (intro Suc.hyps(1)) (auto simp: arr)
    moreover from False Suc.prems(1) have "\<not> unat idx - unat c < length (leader_row vs t)" by linarith
    ultimately show ?thesis
      using c' t by (simp add: leader_search.simps [of vs idx m t c] arr nth_append)
  qed
qed

section \<open>How often each validator leads\<close>

lemma count_list_concat: "count_list (concat xss) x = sum_list (map (\<lambda>xs. count_list xs x) xss)"
  by (induction xss) auto

lemma count_list_filter_distinct:
  "distinct xs \<Longrightarrow> count_list (filter P xs) x = (if x \<in> set xs \<and> P x then 1 else 0)"
  by (induction xs) (auto simp: count_list_0_iff)

lemma sum_list_threshold: "sum_list (map (\<lambda>t. if t \<le> p then 1 else 0) [1..<Suc m]) = min p (m :: nat)"
  by (induction m) auto

lemma count_leader_array:
  assumes "vs_ok vs" and "vs_power vs v = Some p" and "unat p \<le> m"
  shows "count_list (leader_array vs 1 m) v = unat p"
proof -
  have "v \<in> set (vs_validators vs)" using assms(1,2) vs_ok_power by blast
  then have "count_list (leader_row vs t) v = (if t \<le> unat p then 1 else 0)" for t
    using assms by (simp add: leader_row_def count_list_filter_distinct vs_ok_def)
  then show ?thesis
    using sum_list_threshold [of "unat p" m] assms(3) by (simp add: leader_array_def count_list_concat comp_def del: upt_Suc)
qed

lemma set_leader_array: "set (leader_array vs t m) \<subseteq> set (vs_validators vs)"
  by (auto simp: leader_array_def leader_row_def)

lemma length_leader_array:
  assumes "vs_ok vs" and "\<forall>v p. vs_power vs v = Some p \<longrightarrow> unat p \<le> m"
  shows "length (leader_array vs 1 m) = vs_sum vs"
proof -
  have "length (leader_array vs 1 m) = (\<Sum>v \<in> set (vs_validators vs). count_list (leader_array vs 1 m) v)"
    using sum_count_set [OF set_leader_array] by simp
  also have "\<dots> = (\<Sum>v \<in> set (vs_validators vs). unat (the (vs_power vs v)))"
  proof (rule sum.cong)
    fix v assume "v \<in> set (vs_validators vs)"
    then obtain p where "vs_power vs v = Some p" using assms(1) vs_ok_power by blast
    with assms show "count_list (leader_array vs 1 m) v = unat (the (vs_power vs v))"
      using count_leader_array by simp
  qed simp
  also have "\<dots> = vs_sum vs"
    using vs_power_of_all [OF assms(1)] by (simp add: vs_power_of_def)
  finally show ?thesis .
qed

text \<open>The maximum power that the search starts from, on the abstract map of powers.\<close>

definition vs_max_power :: "validator_set \<Rightarrow> nat" where
  "vs_max_power vs = unat (Max (the ` vs_power vs ` set (vs_validators vs)))"

lemma vs_max_power_ge:
  assumes "vs_ok vs" and "vs_power vs v = Some p"
  shows "unat p \<le> vs_max_power vs"
proof -
  have "p \<in> the ` vs_power vs ` set (vs_validators vs)"
    using assms vs_ok_power by (force simp: image_iff)
  then show ?thesis
    unfolding vs_max_power_def by (simp add: word_le_nat_alt [symmetric])
qed

lemma select_leader_array:
  assumes "vs_ok vs" and "0 < vs_sum vs" and "vs_sum vs < 2 ^ 64"
  shows "select_leader view vs =
    Inr (leader_array vs 1 (vs_max_power vs) ! (unat view mod vs_sum vs))"
proof -
  have t: "unat (ucast (vs_total_power vs) :: u64) = vs_sum vs"
    using assms vs_total_power_eq [of vs] by (simp add: unsigned_ucast_eq take_bit_nat_eq_self)
  then have nz: "(ucast (vs_total_power vs) :: u64) \<noteq> 0" using assms(2) by (metis unat_0 less_irrefl)
  let ?idx = "view mod (ucast (vs_total_power vs) :: u64)"
  have idx: "unat ?idx = unat view mod vs_sum vs" using t by (simp add: unat_mod)
  have ne: "vs_validators vs \<noteq> []"
    using assms by (auto simp: vs_ok_def vs_sum_def)
  have mx: "unat (Max (snd ` set (map (\<lambda>v. (v, the (vs_power vs v))) (vs_validators vs)))) = vs_max_power vs"
    by (simp add: vs_max_power_def image_image)
  have "leader_search vs ?idx (vs_max_power vs) 1 0 = Inr (leader_array vs 1 (vs_max_power vs) ! (unat ?idx - unat (0 :: u64)))"
    using assms length_leader_array [OF assms(1)] vs_max_power_ge [OF assms(1)]
    by (intro leader_search_array) (auto simp: idx)
  then show ?thesis
    using nz ne mx idx by (simp add: select_leader_def Let_def vs_validators_and_powers_ok [OF assms(1)])
qed

text \<open>
  Leader selection never panics and picks a member: for a validator set with positive total power below 2^64,
  \<^verbatim>\<open>select_leader\<close> returns a validator of the set in every view, and the choice depends on the view only
  modulo the total power.
\<close>

lemma select_leader_total:
  assumes "vs_ok vs" and "0 < vs_sum vs" and "vs_sum vs < 2 ^ 64"
  shows "\<exists>v \<in> set (vs_validators vs). select_leader view vs = Inr v
           \<and> (\<forall>view'. unat view' mod vs_sum vs = unat view mod vs_sum vs \<longrightarrow> select_leader view' vs = Inr v)"
proof -
  let ?arr = "leader_array vs 1 (vs_max_power vs)"
  have "unat view mod vs_sum vs < length ?arr"
    using assms length_leader_array [OF assms(1)] vs_max_power_ge [OF assms(1)] by simp
  then have "?arr ! (unat view mod vs_sum vs) \<in> set (vs_validators vs)"
    using set_leader_array nth_mem by blast
  with select_leader_array [OF assms] show ?thesis by auto
qed

text \<open>
  C26. Weighted fairness, which the repository tests on one random validator set: among any total-power many
  consecutive views starting at 0, each validator is the leader of exactly as many views as it has power.
\<close>

lemma select_leader_fair:
  assumes "vs_ok vs" and "vs_sum vs < 2 ^ 64" and "vs_power vs v = Some p"
  shows "card {i. i < vs_sum vs \<and> select_leader (of_nat i) vs = Inr v} = unat p"
proof (cases "vs_sum vs = 0")
  case True
  have "unat p \<le> vs_power_of vs {v}"
    using assms vs_ok_power by (auto simp: vs_power_of_def)
  with True vs_power_of_le_sum [OF assms(1), of "{v}"] show ?thesis by simp
next
  case False
  let ?arr = "leader_array vs 1 (vs_max_power vs)"
  have len: "length ?arr = vs_sum vs"
    using length_leader_array [OF assms(1)] vs_max_power_ge [OF assms(1)] by simp
  have "select_leader (of_nat i) vs = Inr (?arr ! i)" if "i < vs_sum vs" for i
  proof -
    have "unat (of_nat i :: u64) = i"
      using that assms(2) by (simp add: unat_of_nat)
    with that False select_leader_array [OF assms(1) _ assms(2), of "of_nat i"] show ?thesis by simp
  qed
  then have "{i. i < vs_sum vs \<and> select_leader (of_nat i) vs = Inr v} = {i. i < length ?arr \<and> ?arr ! i = v}"
    using len by auto
  also have "card \<dots> = count_list ?arr v"
    by (simp add: count_list_eq_length_filter length_filter_conv_card eq_commute)
  also have "\<dots> = unat p"
    using assms vs_max_power_ge by (intro count_leader_array)
  finally show ?thesis .
qed

end
