(* ===== verification/Collectors.thy ===== *)
theory Collectors
  imports Certificates
begin

text \<open>
  The vote collectors (\<^verbatim>\<open>PhaseVoteCollector\<close> of \<^verbatim>\<open>hotstuff/types.rs\<close>, \<^verbatim>\<open>TimeoutVoteCollector\<close> of
  \<^verbatim>\<open>pacemaker/types.rs\<close>) and the \<^verbatim>\<open>ActiveCollectorPair\<close> of \<^verbatim>\<open>types/signed_messages.rs\<close>, which is
  generic in the collector. The \<^verbatim>\<open>Collector\<close> trait is a record of operations; its contract is
  the locale \<open>collector\<close>, proved for both implementations.
\<close>

section \<open>The trait and the pair\<close>

record ('c, 'v, 't) collector_ops =
  cl_new :: "chain_id \<Rightarrow> view_number \<Rightarrow> validator_set \<Rightarrow> 'c"
  cl_collect :: "'c \<Rightarrow> verifying_key \<Rightarrow> 'v \<Rightarrow> ('t option \<times> 'c) res"
  cl_chain_id :: "'c \<Rightarrow> chain_id"
  cl_view :: "'c \<Rightarrow> view_number"
  cl_validator_set :: "'c \<Rightarrow> validator_set"

record 'c active_collector_pair =
  cvs_collector :: 'c
  pvs_collector :: "'c option"

definition acp_new ::
  "('c, 'v, 't) collector_ops \<Rightarrow> chain_id \<Rightarrow> view_number \<Rightarrow> validator_set_state \<Rightarrow> 'c active_collector_pair" where
  "acp_new CL chain_id view vss =
     \<lparr>cvs_collector = cl_new CL chain_id view (committed_vs vss),
      pvs_collector = (if vss_update_decided vss then None
                       else Some (cl_new CL chain_id view (previous_vs vss)))\<rparr>"

definition acp_collect ::
  "('c, 'v, 't) collector_ops \<Rightarrow> 'c active_collector_pair \<Rightarrow> verifying_key \<Rightarrow> 'v
     \<Rightarrow> ('t option \<times> 'c active_collector_pair) res" where
  "acp_collect CL a signer message =
     rbind (cl_collect CL (cvs_collector a) signer message) (\<lambda>(cert, c).
       let a = a\<lparr>cvs_collector := c\<rparr> in
       case cert of
         Some certificate \<Rightarrow> Inr (Some certificate, a)
       | None \<Rightarrow>
          (case pvs_collector a of
             None \<Rightarrow> Inr (None, a)
           | Some collector \<Rightarrow>
               rbind (cl_collect CL collector signer message) (\<lambda>(cert, c).
                 Inr (cert, a\<lparr>pvs_collector := Some c\<rparr>))))"

text \<open>
  The second test of \<^verbatim>\<open>update_validator_sets\<close> is an \<^verbatim>\<open>else if\<close>: its guard is that the first test failed,
  not that the update is undecided. It reads the committed-set collector after the replacement.
\<close>

definition acp_update_validator_sets ::
  "('c, 'v, 't) collector_ops \<Rightarrow> 'c active_collector_pair \<Rightarrow> validator_set_state
     \<Rightarrow> bool \<times> 'c active_collector_pair" where
  "acp_update_validator_sets CL a vss =
     (let replace = (\<not> vs_eq (committed_vs vss) (cl_validator_set CL (cvs_collector a)));
          a = (if replace
               then a\<lparr>cvs_collector := cl_new CL (cl_chain_id CL (cvs_collector a))
                        (cl_view CL (cvs_collector a)) (committed_vs vss)\<rparr>
               else a)
      in if vss_update_decided vss \<and> pvs_collector a \<noteq> None then (True, a\<lparr>pvs_collector := None\<rparr>)
         else if (case pvs_collector a of None \<Rightarrow> True
                  | Some c \<Rightarrow> \<not> vs_eq (previous_vs vss) (cl_validator_set CL c))
         then (True, a\<lparr>pvs_collector := Some
                (if vs_eq (previous_vs vss) (cl_validator_set CL (cvs_collector a)) then cvs_collector a
                 else cl_new CL (cl_chain_id CL (cvs_collector a)) (cl_view CL (cvs_collector a))
                        (previous_vs vss))\<rparr>)
         else (replace, a))"

section \<open>The two collectors\<close>

record phase_vote_collector =
  pvc_chain_id :: chain_id
  pvc_view :: view_number
  pvc_validator_set :: validator_set
  pvc_signature_sets :: "(crypto_hash \<times> phase, signature_set \<times> total_power) hash_map"

definition pvc_new :: "chain_id \<Rightarrow> view_number \<Rightarrow> validator_set \<Rightarrow> phase_vote_collector" where
  "pvc_new chain_id view vs =
     \<lparr>pvc_chain_id = chain_id, pvc_view = view, pvc_validator_set = vs, pvc_signature_sets = []\<rparr>"

definition pvc_collect ::
  "phase_vote_collector \<Rightarrow> verifying_key \<Rightarrow> phase_vote
     \<Rightarrow> (phase_certificate option \<times> phase_vote_collector) res" where
  "pvc_collect c signer v =
     (if pvc_chain_id c \<noteq> pv_chain_id v \<or> pvc_view c \<noteq> pv_view v then Inr (None, c)
      else case vs_position (pvc_validator_set c) signer of
        None \<Rightarrow> Inr (None, c)
      | Some pos \<Rightarrow>
         (let k = (pv_block v, pv_phase v);
              m = (if hm_contains_key (pvc_signature_sets c) k then pvc_signature_sets c
                   else hm_insert (pvc_signature_sets c) k
                          (signature_set_new (vs_len (pvc_validator_set c)), 0))
          in rbind (ok_or (hm_get m k) (Panicked UnwrapOnNone)) (\<lambda>(ss, pw).
             rbind (signature_set_get ss pos) (\<lambda>slot.
             if slot \<noteq> None then Inr (None, c\<lparr>pvc_signature_sets := m\<rparr>)
             else
               rbind (signature_set_set ss pos (Some (pv_signature v))) (\<lambda>ss.
               rbind (ok_or (vs_power (pvc_validator_set c) signer) (Panicked UnwrapOnNone)) (\<lambda>p.
               let pw = total_power_add pw p; m = hm_insert m k (ss, pw) in
               rbind (vs_quorum (pvc_validator_set c)) (\<lambda>q.
               if q \<le> pw
               then Inr (Some \<lparr>pc_chain_id = pvc_chain_id c, pc_view = pvc_view c, pc_block = pv_block v,
                               pc_phase = pv_phase v, pc_signatures = ss\<rparr>,
                         c\<lparr>pvc_signature_sets := hm_remove m k\<rparr>)
               else Inr (None, c\<lparr>pvc_signature_sets := m\<rparr>))))))))"

record timeout_vote_collector =
  tvc_chain_id :: chain_id
  tvc_view :: view_number
  tvc_validator_set :: validator_set
  tvc_signature_set_power :: total_power
  tvc_signature_set :: signature_set

definition tvc_new :: "chain_id \<Rightarrow> view_number \<Rightarrow> validator_set \<Rightarrow> timeout_vote_collector" where
  "tvc_new chain_id view vs =
     \<lparr>tvc_chain_id = chain_id, tvc_view = view, tvc_validator_set = vs, tvc_signature_set_power = 0,
      tvc_signature_set = signature_set_new (vs_len vs)\<rparr>"

definition tvc_collect ::
  "timeout_vote_collector \<Rightarrow> verifying_key \<Rightarrow> timeout_vote
     \<Rightarrow> (timeout_certificate option \<times> timeout_vote_collector) res" where
  "tvc_collect c signer v =
     (if tvc_chain_id c \<noteq> tv_chain_id v \<or> tvc_view c \<noteq> tv_view v then Inr (None, c)
      else case vs_position (tvc_validator_set c) signer of
        None \<Rightarrow> Inr (None, c)
      | Some pos \<Rightarrow>
          rbind (signature_set_get (tvc_signature_set c) pos) (\<lambda>slot.
          if slot \<noteq> None then Inr (None, c)
          else
            rbind (signature_set_set (tvc_signature_set c) pos (Some (tv_signature v))) (\<lambda>ss.
            rbind (ok_or (vs_power (tvc_validator_set c) signer) (Panicked UnwrapOnNone)) (\<lambda>p.
            let pw = total_power_add (tvc_signature_set_power c) p;
                c = c\<lparr>tvc_signature_set := ss, tvc_signature_set_power := pw\<rparr> in
            rbind (vs_quorum (tvc_validator_set c)) (\<lambda>q.
            if q \<le> pw
            then Inr (Some \<lparr>tc_chain_id = tvc_chain_id c, tc_view = tvc_view c, tc_signatures = ss\<rparr>, c)
            else Inr (None, c))))))"

definition pvc_ops :: "(phase_vote_collector, phase_vote, phase_certificate) collector_ops" where
  "pvc_ops = \<lparr>cl_new = pvc_new, cl_collect = pvc_collect, cl_chain_id = pvc_chain_id, cl_view = pvc_view,
     cl_validator_set = pvc_validator_set\<rparr>"

definition tvc_ops :: "(timeout_vote_collector, timeout_vote, timeout_certificate) collector_ops" where
  "tvc_ops = \<lparr>cl_new = tvc_new, cl_collect = tvc_collect, cl_chain_id = tvc_chain_id, cl_view = tvc_view,
     cl_validator_set = tvc_validator_set\<rparr>"

lemmas ops_simps = pvc_ops_def tvc_ops_def

section \<open>Adding one signature to a set\<close>

text \<open>The state of one signature set: valid slots, and the power counted so far is that of the signers.\<close>

definition slots_ok :: "prims \<Rightarrow> u8 list \<Rightarrow> validator_set \<Rightarrow> signature_set \<Rightarrow> total_power \<Rightarrow> bool" where
  "slots_ok P msg vs ss pw \<longleftrightarrow> length ss = vs_len vs \<and> slots_valid P msg ss vs
     \<and> unat pw = vs_power_of vs (signers vs ss)"

lemma slots_ok_new: "slots_ok P msg vs (signature_set_new (vs_len vs)) 0"
  by (auto simp: slots_ok_def signature_set_new_def slots_valid_def signers_def vs_power_of_def)

lemma signers_update:
  assumes "length ss = vs_len vs" and "pos < vs_len vs"
  shows "signers vs (ss[pos := Some s]) = insert (vs_validators vs ! pos) (signers vs ss)"
  using assms by (auto simp: signers_def nth_list_update split: if_splits)

lemma signers_slot:
  assumes "vs_ok vs" and "length ss = vs_len vs" and "pos < vs_len vs"
  shows "vs_validators vs ! pos \<in> signers vs ss \<longleftrightarrow> ss ! pos \<noteq> None"
  using assms by (auto simp: signers_def vs_ok_def vs_len_def nth_eq_iff_index_eq)

lemma vs_power_of_insert:
  assumes "k \<in> set (vs_validators vs)" and "k \<notin> A"
  shows "vs_power_of vs (insert k A) = vs_power_of vs A + unat (the (vs_power vs k))"
  using assms by (simp add: vs_power_of_def)

lemma unat_total_power_add:
  assumes "unat t + unat p < 2 ^ 128"
  shows "unat (total_power_add t p) = unat t + unat p"
proof -
  have "unat (ucast p :: u128) = unat p"
    using unsigned_less [of p, where 'a = nat] by (simp add: unsigned_ucast_eq take_bit_nat_eq_self)
  with assms show ?thesis by (simp add: total_power_add_def unat_add_lem [THEN iffD1])
qed

lemma slots_ok_add:
  assumes good: "vs_good vs" and ok: "slots_ok P msg vs ss pw" and pos: "vs_position vs k = Some pos"
    and empty: "ss ! pos = None" and sig: "sig_from_slice P s" "vk_verify P k msg s"
  shows "slots_ok P msg vs (ss[pos := Some s]) (total_power_add pw (the (vs_power vs k)))"
    and "signers vs (ss[pos := Some s]) = insert k (signers vs ss)"
proof -
  have vs: "vs_ok vs" "vs_sum vs < 2 ^ 128" using good by (simp_all add: vs_good_def)
  have p: "pos < vs_len vs" "vs_validators vs ! pos = k" using pos vs_position_iff [OF vs(1)] by simp_all
  have len: "length ss = vs_len vs" using ok by (simp add: slots_ok_def)
  show S: "signers vs (ss[pos := Some s]) = insert k (signers vs ss)"
    using signers_update [OF len p(1)] p(2) by simp
  have "k \<in> set (vs_validators vs)" using p by (auto simp: vs_len_def)
  moreover have "k \<notin> signers vs ss" using signers_slot [OF vs(1) len p(1)] p(2) empty by simp
  ultimately have "vs_power_of vs (signers vs (ss[pos := Some s])) = unat pw + unat (the (vs_power vs k))"
    using ok S by (simp add: vs_power_of_insert slots_ok_def)
  moreover from this have "unat pw + unat (the (vs_power vs k)) < 2 ^ 128"
    using vs_power_of_le_sum [OF vs(1)] vs(2) by (metis le_less_trans)
  moreover have "slots_valid P msg (ss[pos := Some s]) vs"
    using ok sig p len by (auto simp: slots_ok_def slots_valid_def nth_list_update split: if_splits)
  ultimately show "slots_ok P msg vs (ss[pos := Some s]) (total_power_add pw (the (vs_power vs k)))"
    using len by (simp add: slots_ok_def unat_total_power_add)
qed

lemma slots_ok_quorum:
  assumes "vs_good vs" and "slots_ok P msg vs ss pw" and "vs_quorum vs = Inr q"
  shows "q \<le> pw \<longleftrightarrow> vs_is_quorum vs (signers vs ss)"
  using assms by (auto simp: vs_is_quorum_def vs_good_def slots_ok_def word_le_nat_alt)

lemma slots_ok_signed:
  assumes "vs_good vs" and "slots_ok P msg vs ss pw" and "vs_is_quorum vs (signers vs ss)"
  shows "is_correctly_signed P msg ss vs = Inr True"
  using assms by (simp add: is_correctly_signed_iff slots_ok_def)

section \<open>What one call of the phase vote collector does\<close>

definition pvc_slots :: "phase_vote_collector \<Rightarrow> crypto_hash \<times> phase \<Rightarrow> signature_set \<times> total_power" where
  "pvc_slots c k = (case hm_get (pvc_signature_sets c) k of
     None \<Rightarrow> (signature_set_new (vs_len (pvc_validator_set c)), 0) | Some x \<Rightarrow> x)"

text \<open>Whose votes for a block and phase the collector holds.\<close>

definition pvc_signers :: "phase_vote_collector \<Rightarrow> crypto_hash \<times> phase \<Rightarrow> verifying_key set" where
  "pvc_signers c k = signers (pvc_validator_set c) (fst (pvc_slots c k))"

definition pvc_ok :: "prims \<Rightarrow> phase_vote_collector \<Rightarrow> bool" where
  "pvc_ok P c \<longleftrightarrow> vs_good (pvc_validator_set c) \<and> hm_ok (pvc_signature_sets c) \<and>
     (\<forall>b ph. slots_ok P (phase_message P (pvc_chain_id c) (pvc_view c) b ph) (pvc_validator_set c)
        (fst (pvc_slots c (b, ph))) (snd (pvc_slots c (b, ph))))"

text \<open>A vote whose signature parses and verifies: the precondition of \<^verbatim>\<open>collect\<close>.\<close>

definition phase_vote_ok :: "prims \<Rightarrow> verifying_key \<Rightarrow> phase_vote \<Rightarrow> bool" where
  "phase_vote_ok P k v \<longleftrightarrow> phase_vote_is_correct P k v \<and> sig_from_slice P (pv_signature v)"

definition pvc_accepts :: "phase_vote_collector \<Rightarrow> verifying_key \<Rightarrow> phase_vote \<Rightarrow> bool" where
  "pvc_accepts c signer v \<longleftrightarrow> pv_chain_id v = pvc_chain_id c \<and> pv_view v = pvc_view c
     \<and> signer \<in> set (vs_validators (pvc_validator_set c)) \<and> signer \<notin> pvc_signers c (pv_block v, pv_phase v)"

definition pvc_same :: "phase_vote_collector \<Rightarrow> phase_vote_collector \<Rightarrow> bool" where
  "pvc_same c c' \<longleftrightarrow> pvc_chain_id c' = pvc_chain_id c \<and> pvc_view c' = pvc_view c
     \<and> pvc_validator_set c' = pvc_validator_set c"

lemma signature_set_new_get: "pos < n \<Longrightarrow> signature_set_new n ! pos = None"
  by (simp add: signature_set_new_def)

text \<open>The first half of the body: finding or creating the signature set of the vote's block and phase.\<close>

definition pvc_entry :: "phase_vote_collector \<Rightarrow> crypto_hash \<times> phase \<Rightarrow>
    (crypto_hash \<times> phase, signature_set \<times> total_power) hash_map" where
  "pvc_entry c k = (if hm_contains_key (pvc_signature_sets c) k then pvc_signature_sets c
     else hm_insert (pvc_signature_sets c) k (signature_set_new (vs_len (pvc_validator_set c)), 0))"

lemma pvc_entry_get: "hm_get (pvc_entry c k) k = Some (pvc_slots c k)"
  by (auto simp: pvc_entry_def pvc_slots_def hm_contains_key_get split: option.splits)

lemma pvc_entry_slots:
  "pvc_slots (c\<lparr>pvc_signature_sets := pvc_entry c k\<rparr>) k' = pvc_slots c k'"
  by (auto simp: pvc_entry_def pvc_slots_def hm_contains_key_get split: option.splits)

lemma pvc_entry_ok: "hm_ok (pvc_signature_sets c) \<Longrightarrow> hm_ok (pvc_entry c k)"
  by (simp add: pvc_entry_def)

lemma pvc_insert_slots:
  "pvc_slots (c\<lparr>pvc_signature_sets := hm_insert (pvc_entry c k) k x\<rparr>) k' = (if k' = k then x else pvc_slots c k')"
  by (auto simp: pvc_entry_def pvc_slots_def split: option.splits)

lemma pvc_remove_slots:
  "pvc_slots (c\<lparr>pvc_signature_sets := hm_remove (hm_insert (pvc_entry c k) k x) k\<rparr>) k' =
     (if k' = k then (signature_set_new (vs_len (pvc_validator_set c)), 0) else pvc_slots c k')"
  by (auto simp: pvc_entry_def pvc_slots_def split: option.splits)

lemma pvc_collect_accepted:
  assumes ok: "pvc_ok P c" and v: "phase_vote_ok P signer v" and acc: "pvc_accepts c signer v"
  defines "k \<equiv> (pv_block v, pv_phase v)" and "vs \<equiv> pvc_validator_set c"
  obtains ss pw where
    "slots_ok P (phase_message P (pvc_chain_id c) (pvc_view c) (pv_block v) (pv_phase v)) vs ss pw"
    "signers vs ss = insert signer (pvc_signers c k)"
    "pvc_collect c signer v =
       (if vs_is_quorum vs (signers vs ss)
        then Inr (Some \<lparr>pc_chain_id = pvc_chain_id c, pc_view = pvc_view c, pc_block = pv_block v,
                        pc_phase = pv_phase v, pc_signatures = ss\<rparr>,
                  c\<lparr>pvc_signature_sets := hm_remove (hm_insert (pvc_entry c k) k (ss, pw)) k\<rparr>)
        else Inr (None, c\<lparr>pvc_signature_sets := hm_insert (pvc_entry c k) k (ss, pw)\<rparr>))"
proof -
  obtain ss0 pw0 where sl: "pvc_slots c k = (ss0, pw0)" by fastforce
  have good: "vs_good vs" and vok: "vs_ok vs" using ok by (simp_all add: pvc_ok_def vs_good_def vs_def)
  obtain pos where pos: "vs_position vs signer = Some pos"
    using acc vs_position_None [OF vok, of signer] by (auto simp: pvc_accepts_def vs_def)
  then have p: "pos < vs_len vs" "vs_validators vs ! pos = signer" using vs_position_iff [OF vok] by simp_all
  have so: "slots_ok P (phase_message P (pvc_chain_id c) (pvc_view c) (pv_block v) (pv_phase v)) vs ss0 pw0"
    using ok sl unfolding pvc_ok_def k_def vs_def by (metis fst_conv snd_conv)
  then have len: "length ss0 = vs_len vs" by (simp add: slots_ok_def)
  have empty: "ss0 ! pos = None"
    using acc signers_slot [OF vok len p(1)] p(2) sl by (simp add: pvc_accepts_def pvc_signers_def k_def vs_def)
  have sig: "sig_from_slice P (pv_signature v)"
      "vk_verify P signer (phase_message P (pvc_chain_id c) (pvc_view c) (pv_block v) (pv_phase v)) (pv_signature v)"
    using v acc by (simp_all add: phase_vote_ok_def phase_vote_is_correct_def signed_message_is_correct_def pvc_accepts_def)
  obtain pw where pw: "vs_power vs signer = Some pw" using acc vs_ok_power [OF vok] by (auto simp: pvc_accepts_def vs_def)
  define ss where "ss = ss0[pos := Some (pv_signature v)]"
  note add = slots_ok_add [OF good so pos empty sig, folded ss_def, unfolded pw option.sel]
  obtain q where q: "vs_quorum vs = Inr q" using good vs_quorum_value by (auto simp: vs_good_def)
  note Q = slots_ok_quorum [OF good add(1) q]
  have "pvc_collect c signer v =
       (if vs_is_quorum vs (signers vs ss)
        then Inr (Some \<lparr>pc_chain_id = pvc_chain_id c, pc_view = pvc_view c, pc_block = pv_block v,
                        pc_phase = pv_phase v, pc_signatures = ss\<rparr>,
                  c\<lparr>pvc_signature_sets := hm_remove (hm_insert (pvc_entry c k) k (ss, total_power_add pw0 pw)) k\<rparr>)
        else Inr (None, c\<lparr>pvc_signature_sets := hm_insert (pvc_entry c k) k (ss, total_power_add pw0 pw)\<rparr>))"
    using acc pos pw q Q pvc_entry_get [of c k] sl p(1) len empty
    unfolding pvc_collect_def pvc_entry_def k_def vs_def
    by (auto simp: pvc_accepts_def Let_def signature_set_get_def signature_set_set_def ss_def)
  with that add sl show thesis by (simp add: pvc_signers_def vs_def)
qed

lemma pvc_collect_ignored:
  assumes ok: "pvc_ok P c" and nacc: "\<not> pvc_accepts c signer v"
  obtains m where "pvc_collect c signer v = Inr (None, c\<lparr>pvc_signature_sets := m\<rparr>)" "hm_ok m"
    "\<And>k. pvc_slots (c\<lparr>pvc_signature_sets := m\<rparr>) k = pvc_slots c k"
proof (cases "pv_chain_id v = pvc_chain_id c \<and> pv_view v = pvc_view c \<and> vs_position (pvc_validator_set c) signer \<noteq> None")
  case False
  then have "pvc_collect c signer v = Inr (None, c\<lparr>pvc_signature_sets := pvc_signature_sets c\<rparr>)"
    by (auto simp: pvc_collect_def)
  then show thesis using ok by (intro that) (auto simp: pvc_ok_def)
next
  case True
  let ?k = "(pv_block v, pv_phase v)" and ?vs = "pvc_validator_set c"
  have vok: "vs_ok ?vs" using ok by (simp add: pvc_ok_def vs_good_def)
  from True obtain pos where pos: "vs_position ?vs signer = Some pos" by blast
  then have p: "pos < vs_len ?vs" "vs_validators ?vs ! pos = signer" using vs_position_iff [OF vok] by simp_all
  have len: "length (fst (pvc_slots c ?k)) = vs_len ?vs"
    using ok by (auto simp: pvc_ok_def slots_ok_def)
  have "signer \<in> set (vs_validators ?vs)" using p by (auto simp: vs_len_def)
  with nacc True have "signer \<in> pvc_signers c ?k" by (simp add: pvc_accepts_def)
  then obtain s where "fst (pvc_slots c ?k) ! pos = Some s"
    using signers_slot [OF vok len p(1)] p(2) by (auto simp: pvc_signers_def)
  then have "pvc_collect c signer v = Inr (None, c\<lparr>pvc_signature_sets := pvc_entry c ?k\<rparr>)"
    using True pos p(1) len pvc_entry_get [of c ?k]
    by (cases "pvc_slots c ?k") (auto simp: pvc_collect_def Let_def signature_set_get_def pvc_entry_def)
  then show thesis using ok pvc_entry_slots by (intro that) (auto simp: pvc_ok_def pvc_entry_ok)
qed

lemma signers_new [simp]: "signers vs (signature_set_new n) = {}"
  by (auto simp: signers_def signature_set_new_def)

lemma pvc_ok_new: "vs_good vs \<Longrightarrow> pvc_ok P (pvc_new chain_id view vs)"
  by (simp add: pvc_ok_def pvc_new_def pvc_slots_def slots_ok_new)

lemma pvc_new_signers [simp]: "pvc_signers (pvc_new chain_id view vs) k = {}"
  by (simp add: pvc_signers_def pvc_new_def pvc_slots_def)

text \<open>A certificate for a block and phase in the collector's chain and view.\<close>

definition pc_for :: "phase_vote_collector \<Rightarrow> crypto_hash \<times> phase \<Rightarrow> phase_certificate \<Rightarrow> bool" where
  "pc_for c k pc \<longleftrightarrow> pc_chain_id pc = pvc_chain_id c \<and> pc_view pc = pvc_view c \<and> (pc_block pc, pc_phase pc) = k"

text \<open>All branches of one call, in terms of whose votes the collector holds.\<close>

lemma pvc_collect_spec:
  assumes ok: "pvc_ok P c" and v: "phase_vote_ok P signer v"
  obtains r c' where "pvc_collect c signer v = Inr (r, c')" "pvc_ok P c'" "pvc_same c c'"
    "\<not> pvc_accepts c signer v \<longrightarrow> r = None \<and> pvc_signers c' = pvc_signers c"
    "pvc_accepts c signer v \<longrightarrow>
       \<not> vs_is_quorum (pvc_validator_set c) (insert signer (pvc_signers c (pv_block v, pv_phase v))) \<longrightarrow>
       r = None \<and> pvc_signers c' = (pvc_signers c)((pv_block v, pv_phase v) :=
         insert signer (pvc_signers c (pv_block v, pv_phase v)))"
    "pvc_accepts c signer v \<longrightarrow>
       vs_is_quorum (pvc_validator_set c) (insert signer (pvc_signers c (pv_block v, pv_phase v))) \<longrightarrow>
       pvc_signers c' = (pvc_signers c)((pv_block v, pv_phase v) := {}) \<and>
       (\<exists>pc. r = Some pc \<and> pc_for c (pv_block v, pv_phase v) pc
          \<and> pc_is_correctly_signed P pc (pvc_validator_set c) = Inr True
          \<and> signers (pvc_validator_set c) (pc_signatures pc) = insert signer (pvc_signers c (pv_block v, pv_phase v)))"
proof (cases "pvc_accepts c signer v")
  case False
  from pvc_collect_ignored [OF ok False] obtain m where
    "pvc_collect c signer v = Inr (None, c\<lparr>pvc_signature_sets := m\<rparr>)" "hm_ok m"
    "\<And>k. pvc_slots (c\<lparr>pvc_signature_sets := m\<rparr>) k = pvc_slots c k" by blast
  with ok False show thesis
    by (intro that [of None "c\<lparr>pvc_signature_sets := m\<rparr>"]) (auto simp: pvc_ok_def pvc_same_def pvc_signers_def)
next
  case True
  let ?k = "(pv_block v, pv_phase v)" and ?vs = "pvc_validator_set c"
  from pvc_collect_accepted [OF ok v True] obtain ss pw where
    so: "slots_ok P (phase_message P (pvc_chain_id c) (pvc_view c) (pv_block v) (pv_phase v)) ?vs ss pw" and
    S: "signers ?vs ss = insert signer (pvc_signers c ?k)" and
    eq: "pvc_collect c signer v =
       (if vs_is_quorum ?vs (signers ?vs ss)
        then Inr (Some \<lparr>pc_chain_id = pvc_chain_id c, pc_view = pvc_view c, pc_block = pv_block v,
                        pc_phase = pv_phase v, pc_signatures = ss\<rparr>,
                  c\<lparr>pvc_signature_sets := hm_remove (hm_insert (pvc_entry c ?k) ?k (ss, pw)) ?k\<rparr>)
        else Inr (None, c\<lparr>pvc_signature_sets := hm_insert (pvc_entry c ?k) ?k (ss, pw)\<rparr>))" by blast
  have good: "vs_good ?vs" using ok by (simp add: pvc_ok_def)
  show thesis
  proof (cases "vs_is_quorum ?vs (signers ?vs ss)")
    case q: True
    have sgn: "is_correctly_signed P (phase_message P (pvc_chain_id c) (pvc_view c) (pv_block v) (pv_phase v)) ss ?vs = Inr True"
      by (rule slots_ok_signed [OF good so q])
    show thesis
      using eq q S True ok sgn
      by (intro that [of "Some \<lparr>pc_chain_id = pvc_chain_id c, pc_view = pvc_view c, pc_block = pv_block v,
              pc_phase = pv_phase v, pc_signatures = ss\<rparr>"
            "c\<lparr>pvc_signature_sets := hm_remove (hm_insert (pvc_entry c ?k) ?k (ss, pw)) ?k\<rparr>"])
         (auto simp: pvc_ok_def pvc_same_def pvc_signers_def pvc_remove_slots slots_ok_new pvc_entry_ok
            pc_is_correctly_signed_def fun_eq_iff pc_for_def)
  next
    case nq: False
    show thesis
      using eq nq S True ok so
      by (intro that [of None "c\<lparr>pvc_signature_sets := hm_insert (pvc_entry c ?k) ?k (ss, pw)\<rparr>"])
         (auto simp: pvc_ok_def pvc_same_def pvc_signers_def pvc_insert_slots pvc_entry_ok fun_eq_iff)
  qed
qed

section \<open>What one call of the timeout vote collector does\<close>

definition tvc_signers :: "timeout_vote_collector \<Rightarrow> verifying_key set" where
  "tvc_signers c = signers (tvc_validator_set c) (tvc_signature_set c)"

definition tvc_ok :: "prims \<Rightarrow> timeout_vote_collector \<Rightarrow> bool" where
  "tvc_ok P c \<longleftrightarrow> vs_good (tvc_validator_set c) \<and>
     slots_ok P (timeout_message P (tvc_chain_id c) (tvc_view c)) (tvc_validator_set c)
       (tvc_signature_set c) (tvc_signature_set_power c)"

definition timeout_vote_ok :: "prims \<Rightarrow> verifying_key \<Rightarrow> timeout_vote \<Rightarrow> bool" where
  "timeout_vote_ok P k v \<longleftrightarrow> timeout_vote_is_correct P k v \<and> sig_from_slice P (tv_signature v)"

definition tvc_accepts :: "timeout_vote_collector \<Rightarrow> verifying_key \<Rightarrow> timeout_vote \<Rightarrow> bool" where
  "tvc_accepts c signer v \<longleftrightarrow> tv_chain_id v = tvc_chain_id c \<and> tv_view v = tvc_view c
     \<and> signer \<in> set (vs_validators (tvc_validator_set c)) \<and> signer \<notin> tvc_signers c"

lemma tvc_ok_new: "vs_good vs \<Longrightarrow> tvc_ok P (tvc_new chain_id view vs)"
  by (simp add: tvc_ok_def tvc_new_def slots_ok_new)

lemma tvc_collect_ignored:
  assumes ok: "tvc_ok P c" and nacc: "\<not> tvc_accepts c signer v"
  shows "tvc_collect c signer v = Inr (None, c)"
proof (cases "tv_chain_id v = tvc_chain_id c \<and> tv_view v = tvc_view c \<and> vs_position (tvc_validator_set c) signer \<noteq> None")
  case False
  then show ?thesis by (auto simp: tvc_collect_def)
next
  case True
  let ?vs = "tvc_validator_set c"
  have vok: "vs_ok ?vs" and len: "length (tvc_signature_set c) = vs_len ?vs"
    using ok by (simp_all add: tvc_ok_def vs_good_def slots_ok_def)
  from True obtain pos where pos: "vs_position ?vs signer = Some pos" by blast
  then have p: "pos < vs_len ?vs" "vs_validators ?vs ! pos = signer" using vs_position_iff [OF vok] by simp_all
  have "signer \<in> set (vs_validators ?vs)" using p by (auto simp: vs_len_def)
  with nacc True have "signer \<in> tvc_signers c" by (simp add: tvc_accepts_def)
  then obtain s where "tvc_signature_set c ! pos = Some s"
    using signers_slot [OF vok len p(1)] p(2) by (auto simp: tvc_signers_def)
  with True pos p(1) len show ?thesis by (simp add: tvc_collect_def signature_set_get_def)
qed

lemma tvc_collect_accepted:
  assumes ok: "tvc_ok P c" and v: "timeout_vote_ok P signer v" and acc: "tvc_accepts c signer v"
  obtains c' where "tvc_collect c signer v =
       Inr (if vs_is_quorum (tvc_validator_set c) (insert signer (tvc_signers c))
            then Some \<lparr>tc_chain_id = tvc_chain_id c, tc_view = tvc_view c, tc_signatures = tvc_signature_set c'\<rparr>
            else None, c')"
    "tvc_ok P c'" "tvc_signers c' = insert signer (tvc_signers c)" "tvc_chain_id c' = tvc_chain_id c"
    "tvc_view c' = tvc_view c" "tvc_validator_set c' = tvc_validator_set c"
proof -
  let ?vs = "tvc_validator_set c" and ?ss = "tvc_signature_set c"
  have good: "vs_good ?vs" and vok: "vs_ok ?vs" and len: "length ?ss = vs_len ?vs"
    and so: "slots_ok P (timeout_message P (tvc_chain_id c) (tvc_view c)) ?vs ?ss (tvc_signature_set_power c)"
    using ok by (simp_all add: tvc_ok_def vs_good_def slots_ok_def)
  obtain pos where pos: "vs_position ?vs signer = Some pos"
    using acc vs_position_None [OF vok, of signer] by (auto simp: tvc_accepts_def)
  then have p: "pos < vs_len ?vs" "vs_validators ?vs ! pos = signer" using vs_position_iff [OF vok] by simp_all
  have empty: "?ss ! pos = None"
    using acc signers_slot [OF vok len p(1)] p(2) by (simp add: tvc_accepts_def tvc_signers_def)
  have sig: "sig_from_slice P (tv_signature v)"
      "vk_verify P signer (timeout_message P (tvc_chain_id c) (tvc_view c)) (tv_signature v)"
    using v acc by (simp_all add: timeout_vote_ok_def timeout_vote_is_correct_def signed_message_is_correct_def tvc_accepts_def)
  obtain pw where pw: "vs_power ?vs signer = Some pw" using acc vs_ok_power [OF vok] by (auto simp: tvc_accepts_def)
  note add = slots_ok_add [OF good so pos empty sig, unfolded pw option.sel]
  obtain q where q: "vs_quorum ?vs = Inr q" using good vs_quorum_value by (auto simp: vs_good_def)
  note Q = slots_ok_quorum [OF good add(1) q, unfolded add(2)]
  let ?c = "c\<lparr>tvc_signature_set := ?ss[pos := Some (tv_signature v)],
              tvc_signature_set_power := total_power_add (tvc_signature_set_power c) pw\<rparr>"
  show thesis
    by (rule that [of ?c])
       (use acc pos pw q Q p(1) len empty add good in
         \<open>auto simp: tvc_collect_def tvc_accepts_def signature_set_get_def signature_set_set_def Let_def
            tvc_ok_def tvc_signers_def\<close>)
qed

section \<open>The contract of a collector\<close>

text \<open>
  What the pair, and through it the two subprotocols, rely on: a collector over a good
  validator set never panics on correct votes, keeps its parameters, and hands out only
  certificates that pass \<^verbatim>\<open>is_correctly_signed\<close> for its own validator set.
\<close>

locale collector =
  fixes CL :: "('c, 'v, 't) collector_ops"
    and vote_ok :: "verifying_key \<Rightarrow> 'v \<Rightarrow> bool"
    and invar :: "'c \<Rightarrow> bool"
    and correctly_signed :: "'t \<Rightarrow> validator_set \<Rightarrow> bool res"
  assumes new_invar: "vs_good vs \<Longrightarrow> invar (cl_new CL chain_id view vs)"
    and new_params: "cl_chain_id CL (cl_new CL chain_id view vs) = chain_id"
      "cl_view CL (cl_new CL chain_id view vs) = view"
      "cl_validator_set CL (cl_new CL chain_id view vs) = vs"
    and invar_good: "invar c \<Longrightarrow> vs_good (cl_validator_set CL c)"
    and collect_law: "invar c \<Longrightarrow> vote_ok k v \<Longrightarrow>
      \<exists>r c'. cl_collect CL c k v = Inr (r, c') \<and> invar c' \<and> cl_chain_id CL c' = cl_chain_id CL c
        \<and> cl_view CL c' = cl_view CL c \<and> cl_validator_set CL c' = cl_validator_set CL c
        \<and> (\<forall>t. r = Some t \<longrightarrow> correctly_signed t (cl_validator_set CL c) = Inr True)"
begin

definition pair_ok :: "'c active_collector_pair \<Rightarrow> bool" where
  "pair_ok a \<longleftrightarrow> invar (cvs_collector a) \<and> (\<forall>c. pvs_collector a = Some c \<longrightarrow> invar c)"

definition pair_sets :: "'c active_collector_pair \<Rightarrow> validator_set set" where
  "pair_sets a = insert (cl_validator_set CL (cvs_collector a)) (cl_validator_set CL ` set_option (pvs_collector a))"

lemma pair_new_ok:
  assumes "vs_good (committed_vs vss)" and "vs_good (previous_vs vss)"
  shows "pair_ok (acp_new CL chain_id view vss)"
  using assms by (simp add: pair_ok_def acp_new_def new_invar)

lemma pair_new_sets:
  "pair_sets (acp_new CL chain_id view vss) =
     insert (committed_vs vss) (if vss_update_decided vss then {} else {previous_vs vss})"
  by (auto simp: pair_sets_def acp_new_def new_params)

lemma pair_collect_ok:
  assumes "pair_ok a" and "vote_ok k v"
  shows "\<exists>r a'. acp_collect CL a k v = Inr (r, a') \<and> pair_ok a' \<and> pair_sets a' = pair_sets a
    \<and> (\<forall>t. r = Some t \<longrightarrow> (\<exists>vs \<in> pair_sets a. correctly_signed t vs = Inr True))"
proof -
  from assms have "invar (cvs_collector a)" by (simp add: pair_ok_def)
  from collect_law [OF this assms(2)] obtain r c' where
    c: "cl_collect CL (cvs_collector a) k v = Inr (r, c')" "invar c'"
       "cl_validator_set CL c' = cl_validator_set CL (cvs_collector a)"
       "\<And>t. r = Some t \<Longrightarrow> correctly_signed t (cl_validator_set CL (cvs_collector a)) = Inr True"
    by blast
  show ?thesis
  proof (cases "r = None \<and> pvs_collector a \<noteq> None")
    case False
    with c assms show ?thesis
      by (cases r; cases "pvs_collector a") (auto simp: acp_collect_def Let_def pair_ok_def pair_sets_def)
  next
    case True
    then obtain d where d: "pvs_collector a = Some d" "r = None" by blast
    with assms have "invar d" by (simp add: pair_ok_def)
    from collect_law [OF this assms(2)] obtain r' d' where
      "cl_collect CL d k v = Inr (r', d')" "invar d'" "cl_validator_set CL d' = cl_validator_set CL d"
      "\<And>t. r' = Some t \<Longrightarrow> correctly_signed t (cl_validator_set CL d) = Inr True"
      by blast
    with c d show ?thesis by (auto simp: acp_collect_def Let_def pair_ok_def pair_sets_def)
  qed
qed

lemma pair_update_ok:
  assumes "pair_ok a" and "vs_good (committed_vs vss)" and "vs_good (previous_vs vss)"
  shows "pair_ok (snd (acp_update_validator_sets CL a vss))"
  using assms by (auto simp: acp_update_validator_sets_def Let_def pair_ok_def new_invar split: option.splits)

text \<open>While an update is undecided, the pair ends up collecting for exactly the two active sets.\<close>

lemma pair_update_undecided:
  assumes "pair_ok a" and "vs_good (committed_vs vss)" and "vs_good (previous_vs vss)" and "\<not> vss_update_decided vss"
  obtains c d where "snd (acp_update_validator_sets CL a vss) = \<lparr>cvs_collector = c, pvs_collector = Some d\<rparr>"
    "vs_power (cl_validator_set CL c) = vs_power (committed_vs vss)"
    "vs_power (cl_validator_set CL d) = vs_power (previous_vs vss)"
proof -
  have e: "vs_eq x y \<longleftrightarrow> vs_power x = vs_power y" if "vs_good x" "vs_good y" for x y
    using that by (simp add: vs_eq_iff vs_good_def)
  have g: "vs_good (cl_validator_set CL (cvs_collector a))"
    "\<And>c. pvs_collector a = Some c \<Longrightarrow> vs_good (cl_validator_set CL c)"
    using assms(1) by (auto simp: pair_ok_def invar_good)
  let ?r = "snd (acp_update_validator_sets CL a vss)"
  have 1: "vs_power (cl_validator_set CL (cvs_collector ?r)) = vs_power (committed_vs vss)"
    using assms g by (auto simp: acp_update_validator_sets_def Let_def new_params e split: option.splits)
  have "\<exists>d. pvs_collector ?r = Some d \<and> vs_power (cl_validator_set CL d) = vs_power (previous_vs vss)"
    using assms g by (auto simp: acp_update_validator_sets_def Let_def new_params e split: option.splits)
  with 1 that show thesis by (cases ?r) auto
qed

end

interpretation pvc: collector pvc_ops "phase_vote_ok P" "pvc_ok P" "pc_is_correctly_signed P" for P
proof
  fix c k v assume "pvc_ok P c" "phase_vote_ok P k v"
  then show "\<exists>r c'. cl_collect pvc_ops c k v = Inr (r, c') \<and> pvc_ok P c' \<and> cl_chain_id pvc_ops c' = cl_chain_id pvc_ops c
        \<and> cl_view pvc_ops c' = cl_view pvc_ops c \<and> cl_validator_set pvc_ops c' = cl_validator_set pvc_ops c
        \<and> (\<forall>t. r = Some t \<longrightarrow> pc_is_correctly_signed P t (cl_validator_set pvc_ops c) = Inr True)"
    by (rule pvc_collect_spec) (cases "pvc_accepts c k v"; auto simp: ops_simps pvc_same_def)
qed (auto simp: ops_simps pvc_new_def pvc_ok_def pvc_slots_def slots_ok_new)

interpretation tvc: collector tvc_ops "timeout_vote_ok P" "tvc_ok P" "tc_is_correctly_signed P" for P
proof
  fix c k v assume ok: "tvc_ok P c" "timeout_vote_ok P k v"
  show "\<exists>r c'. cl_collect tvc_ops c k v = Inr (r, c') \<and> tvc_ok P c' \<and> cl_chain_id tvc_ops c' = cl_chain_id tvc_ops c
        \<and> cl_view tvc_ops c' = cl_view tvc_ops c \<and> cl_validator_set tvc_ops c' = cl_validator_set tvc_ops c
        \<and> (\<forall>t. r = Some t \<longrightarrow> tc_is_correctly_signed P t (cl_validator_set tvc_ops c) = Inr True)"
  proof (cases "tvc_accepts c k v")
    case False
    with ok show ?thesis by (simp add: ops_simps tvc_collect_ignored)
  next
    case True
    from tvc_collect_accepted [OF ok True] obtain c' where c:
      "tvc_collect c k v = Inr (if vs_is_quorum (tvc_validator_set c) (insert k (tvc_signers c))
            then Some \<lparr>tc_chain_id = tvc_chain_id c, tc_view = tvc_view c, tc_signatures = tvc_signature_set c'\<rparr>
            else None, c')"
      "tvc_ok P c'" "tvc_signers c' = insert k (tvc_signers c)" "tvc_chain_id c' = tvc_chain_id c"
      "tvc_view c' = tvc_view c" "tvc_validator_set c' = tvc_validator_set c" .
    have "is_correctly_signed P (timeout_message P (tvc_chain_id c) (tvc_view c)) (tvc_signature_set c') (tvc_validator_set c)
        = Inr True" if "vs_is_quorum (tvc_validator_set c) (insert k (tvc_signers c))"
      using slots_ok_signed that c(2-6) unfolding tvc_ok_def tvc_signers_def by metis
    with c show ?thesis by (auto simp: ops_simps tc_is_correctly_signed_def)
  qed
qed (auto simp: ops_simps tvc_new_def tvc_ok_def slots_ok_new)

section \<open>Sequences of votes\<close>

text \<open>Collecting one vote after another, with the certificates handed out on the way.\<close>

definition collect_run :: "('c \<Rightarrow> verifying_key \<Rightarrow> 'v \<Rightarrow> ('t option \<times> 'c) res)
    \<Rightarrow> (verifying_key \<times> 'v) list \<Rightarrow> 'c \<Rightarrow> ('t list \<times> 'c) res" where
  "collect_run collect votes c =
     rfold (\<lambda>(k, v) (ts, c). rbind (collect c k v) (\<lambda>(r, c). Inr (case r of None \<Rightarrow> ts | Some t \<Rightarrow> ts @ [t], c)))
       votes ([], c)"

lemma collect_run_Nil [simp]: "collect_run f [] c = Inr ([], c)"
  by (simp add: collect_run_def)

lemma collect_run_snoc:
  "collect_run f (vs @ [(k, v)]) c =
     rbind (collect_run f vs c) (\<lambda>(ts, c). rbind (f c k v) (\<lambda>(r, c). Inr (case r of None \<Rightarrow> ts | Some t \<Rightarrow> ts @ [t], c)))"
  by (simp add: collect_run_def rbind_def split: sum.splits prod.splits)

lemma collect_run_invariant:
  assumes "I [] [] c"
    and "\<And>vs ts c k v. I vs ts c \<Longrightarrow> (k, v) \<in> set votes \<Longrightarrow>
      \<exists>r c'. f c k v = Inr (r, c') \<and> I (vs @ [(k, v)]) (case r of None \<Rightarrow> ts | Some t \<Rightarrow> ts @ [t]) c'"
  shows "\<exists>ts c'. collect_run f votes c = Inr (ts, c') \<and> I votes ts c'"
  using assms
proof (induction votes rule: rev_induct)
  case (snoc kv votes)
  obtain k v where kv: "kv = (k, v)" by (cases kv)
  from snoc obtain ts c' where run: "collect_run f votes c = Inr (ts, c')" and I: "I votes ts c'" by fastforce
  from snoc.prems(2) [OF I, of k v] kv obtain r d where
    "f c' k v = Inr (r, d)" "I (votes @ [(k, v)]) (case r of None \<Rightarrow> ts | Some t \<Rightarrow> ts @ [t]) d" by auto
  with run kv show ?case by (simp add: collect_run_snoc)
qed simp

text \<open>
  C20. The active collector pair hands out only certificates that verify. For a pair created from any validator set
  state whose two sets are good, and any sequence of correct votes, collecting never panics, and each phase
  certificate that comes out passes \<^verbatim>\<open>is_correctly_signed\<close> for the committed validator set, or, only when the latest
  update is undecided, for the previous one.
\<close>

lemma acp_certificates_correct:
  assumes "vs_good (committed_vs vss)" and "vs_good (previous_vs vss)"
    and "\<And>k v. (k, v) \<in> set votes \<Longrightarrow> phase_vote_ok P k v"
  shows "\<exists>pcs a. collect_run (acp_collect pvc_ops) votes (acp_new pvc_ops chain_id view vss) = Inr (pcs, a) \<and>
    (\<forall>pc \<in> set pcs. pc_is_correctly_signed P pc (committed_vs vss) = Inr True \<or>
       \<not> vss_update_decided vss \<and> pc_is_correctly_signed P pc (previous_vs vss) = Inr True)"
proof -
  let ?S = "insert (committed_vs vss) (if vss_update_decided vss then {} else {previous_vs vss})"
  let ?I = "\<lambda>_ pcs a. pvc.pair_ok P a \<and> pvc.pair_sets a = ?S \<and>
    (\<forall>pc \<in> set pcs. \<exists>vs \<in> ?S. pc_is_correctly_signed P pc vs = Inr True)"
  have "\<exists>pcs a. collect_run (acp_collect pvc_ops) votes (acp_new pvc_ops chain_id view vss) = Inr (pcs, a) \<and> ?I votes pcs a"
  proof (rule collect_run_invariant)
    fix vs pcs a k v
    assume "?I vs pcs a" and "(k, v) \<in> set votes"
    with pvc.pair_collect_ok [of P a k v] assms(3) obtain r a' where
      "acp_collect pvc_ops a k v = Inr (r, a')" "pvc.pair_ok P a'" "pvc.pair_sets a' = ?S"
      "\<forall>t. r = Some t \<longrightarrow> (\<exists>vs \<in> ?S. pc_is_correctly_signed P t vs = Inr True)" by auto
    with \<open>?I vs pcs a\<close> show "\<exists>r c'. acp_collect pvc_ops a k v = Inr (r, c') \<and>
      ?I (vs @ [(k, v)]) (case r of None \<Rightarrow> pcs | Some t \<Rightarrow> pcs @ [t]) c'"
      by (cases r) auto
  qed (use assms pvc.pair_new_ok pvc.pair_new_sets in auto)
  then show ?thesis by (cases "vss_update_decided vss") auto
qed

text \<open>The validators of \<open>vs\<close> with a vote for a block and phase among \<open>votes\<close>.\<close>

definition voters_for :: "(verifying_key \<times> phase_vote) list \<Rightarrow> phase_vote_collector \<Rightarrow> crypto_hash \<times> phase \<Rightarrow> verifying_key set" where
  "voters_for votes c k = {signer. signer \<in> set (vs_validators (pvc_validator_set c)) \<and>
     (\<exists>v. (signer, v) \<in> set votes \<and> pv_chain_id v = pvc_chain_id c \<and> pv_view v = pvc_view c \<and> (pv_block v, pv_phase v) = k)}"

lemma voters_for_snoc:
  "voters_for (votes @ [(s, v)]) c k =
     (if s \<in> set (vs_validators (pvc_validator_set c)) \<and> pv_chain_id v = pvc_chain_id c \<and> pv_view v = pvc_view c
         \<and> (pv_block v, pv_phase v) = k
      then insert s (voters_for votes c k) else voters_for votes c k)"
  by (auto simp: voters_for_def)

lemma voters_for_same: "pvc_same c c' \<Longrightarrow> voters_for votes c' k = voters_for votes c k"
  by (simp add: voters_for_def pvc_same_def)

lemma pvc_same_trans: "pvc_same a b \<Longrightarrow> pvc_same b c \<Longrightarrow> pvc_same a c"
  by (simp add: pvc_same_def)

text \<open>One step, seen from one block and phase: its certificate comes out, or the vote is recorded.\<close>

lemma pvc_collect_step:
  assumes ok: "pvc_ok P c" and v: "phase_vote_ok P s v" and nq: "\<not> vs_is_quorum (pvc_validator_set c) (pvc_signers c k)"
  defines "new \<equiv> (if pvc_accepts c s v \<and> (pv_block v, pv_phase v) = k then insert s (pvc_signers c k) else pvc_signers c k)"
  shows "\<exists>r c'. pvc_collect c s v = Inr (r, c') \<and> pvc_ok P c' \<and> pvc_same c c' \<and>
    ((\<exists>pc. r = Some pc \<and> pc_for c k pc) \<or>
     pvc_signers c' k = new \<and> \<not> vs_is_quorum (pvc_validator_set c) new)"
proof -
  let ?k = "(pv_block v, pv_phase v)" and ?vs = "pvc_validator_set c"
  from pvc_collect_spec [OF ok v] obtain r c' where
    r: "pvc_collect c s v = Inr (r, c')" "pvc_ok P c'" "pvc_same c c'"
      "\<not> pvc_accepts c s v \<longrightarrow> r = None \<and> pvc_signers c' = pvc_signers c"
      "pvc_accepts c s v \<longrightarrow> \<not> vs_is_quorum ?vs (insert s (pvc_signers c ?k)) \<longrightarrow>
         r = None \<and> pvc_signers c' = (pvc_signers c)(?k := insert s (pvc_signers c ?k))"
      "pvc_accepts c s v \<longrightarrow> vs_is_quorum ?vs (insert s (pvc_signers c ?k)) \<longrightarrow>
         pvc_signers c' = (pvc_signers c)(?k := {}) \<and>
         (\<exists>pc. r = Some pc \<and> pc_for c ?k pc \<and> pc_is_correctly_signed P pc ?vs = Inr True
            \<and> signers ?vs (pc_signatures pc) = insert s (pvc_signers c ?k))" .
  consider (ignored) "\<not> pvc_accepts c s v" | (other) "pvc_accepts c s v" "?k \<noteq> k"
    | (added) "pvc_accepts c s v" "?k = k" "\<not> vs_is_quorum ?vs (insert s (pvc_signers c ?k))"
    | (quorum) "pvc_accepts c s v" "?k = k" "vs_is_quorum ?vs (insert s (pvc_signers c ?k))" by blast
  then have "(\<exists>pc. r = Some pc \<and> pc_for c k pc) \<or> pvc_signers c' k = new \<and> \<not> vs_is_quorum ?vs new"
  proof cases
    case ignored
    with r(4) nq show ?thesis by (simp add: new_def)
  next
    case other
    then have "pvc_signers c' k = pvc_signers c k"
      using r(5,6) by (cases "vs_is_quorum ?vs (insert s (pvc_signers c ?k))") auto
    with other nq show ?thesis by (simp add: new_def)
  next
    case added
    with r(5) show ?thesis by (simp add: new_def)
  next
    case quorum
    with r(6) show ?thesis by auto
  qed
  with r(1-3) show ?thesis by blast
qed

text \<open>
  The invariant of a run of collecting, seen from one block and phase: the certificate has come out, or all votes for it are
  held and are not a quorum yet.
\<close>

definition pvc_progress ::
  "prims \<Rightarrow> phase_vote_collector \<Rightarrow> crypto_hash \<times> phase \<Rightarrow> (verifying_key \<times> phase_vote) list \<Rightarrow> phase_certificate list
     \<Rightarrow> phase_vote_collector \<Rightarrow> bool" where
  "pvc_progress P n k vts pcs c \<longleftrightarrow> pvc_ok P c \<and> pvc_same n c \<and> ((\<exists>pc \<in> set pcs. pc_for n k pc) \<or>
     pvc_signers c k = voters_for vts n k \<and> \<not> vs_is_quorum (pvc_validator_set n) (voters_for vts n k))"

lemma pvc_progress_new: "vs_good vs \<Longrightarrow> pvc_progress P (pvc_new chain_id view vs) k [] [] (pvc_new chain_id view vs)"
  using vs_quorum_value [of vs]
  by (auto simp: pvc_progress_def pvc_ok_new pvc_same_def voters_for_def pvc_new_def vs_is_quorum_def vs_power_of_def vs_good_def)
     (auto simp: pvc_new_def [symmetric] vs_good_def pvc_ok_new)

lemma pvc_progress_step:
  assumes I: "pvc_progress P n k vts pcs c" and v: "phase_vote_ok P s v"
  shows "\<exists>r c'. pvc_collect c s v = Inr (r, c') \<and>
    pvc_progress P n k (vts @ [(s, v)]) (case r of None \<Rightarrow> pcs | Some t \<Rightarrow> pcs @ [t]) c'"
proof (cases "\<exists>pc \<in> set pcs. pc_for n k pc")
  case True
  obtain r c' where "pvc_collect c s v = Inr (r, c')" "pvc_ok P c'" "pvc_same c c'"
    using I v pvc_collect_spec unfolding pvc_progress_def by metis
  with True I pvc_same_trans show ?thesis by (cases r) (auto simp: pvc_progress_def)
next
  case False
  let ?new = "voters_for (vts @ [(s, v)]) n k"
  from I have p: "pvc_chain_id c = pvc_chain_id n" "pvc_view c = pvc_view n" "pvc_validator_set c = pvc_validator_set n" "pc_for c = pc_for n"
    by (auto simp: pvc_progress_def pvc_same_def pc_for_def fun_eq_iff)
  from False I have S: "pvc_signers c k = voters_for vts n k" "\<not> vs_is_quorum (pvc_validator_set n) (voters_for vts n k)" "pvc_ok P c"
    by (auto simp: pvc_progress_def)
  have n: "?new = (if pvc_accepts c s v \<and> (pv_block v, pv_phase v) = k then insert s (pvc_signers c k) else pvc_signers c k)"
    using S(1) p by (auto simp: voters_for_snoc pvc_accepts_def)
  have nqc: "\<not> vs_is_quorum (pvc_validator_set c) (pvc_signers c k)" using S p by simp
  have "\<exists>r c'. pvc_collect c s v = Inr (r, c') \<and> pvc_ok P c' \<and> pvc_same c c' \<and>
      ((\<exists>pc. r = Some pc \<and> pc_for n k pc) \<or> pvc_signers c' k = ?new \<and> \<not> vs_is_quorum (pvc_validator_set n) ?new)"
    using pvc_collect_step [OF S(3) v nqc] unfolding n p by blast
  then obtain r c' where r: "pvc_collect c s v = Inr (r, c')" "pvc_ok P c'" "pvc_same c c'"
    "(\<exists>pc. r = Some pc \<and> pc_for n k pc) \<or> pvc_signers c' k = ?new \<and> \<not> vs_is_quorum (pvc_validator_set n) ?new" by blast
  moreover have "pvc_same n c'" using I r(3) pvc_same_trans unfolding pvc_progress_def by blast
  ultimately show ?thesis by (cases r) (auto simp: pvc_progress_def)
qed

text \<open>
  C21. A quorum of votes is never lost: if, among any sequence of correct votes for any mix of blocks and phases, the
  validators who voted for one block and phase (with the collector's chain and view) form a quorum, then a fresh
  collector hands out a phase certificate for exactly that block and phase.
\<close>

lemma pvc_quorum_gives_certificate:
  assumes good: "vs_good vs" and ok: "\<And>k v. (k, v) \<in> set votes \<Longrightarrow> phase_vote_ok P k v"
    and q: "vs_is_quorum vs (voters_for votes (pvc_new chain_id view vs) k)"
  shows "\<exists>pcs c. collect_run pvc_collect votes (pvc_new chain_id view vs) = Inr (pcs, c) \<and>
    (\<exists>pc \<in> set pcs. pc_for (pvc_new chain_id view vs) k pc)"
proof -
  let ?n = "pvc_new chain_id view vs"
  have "\<exists>pcs c. collect_run pvc_collect votes ?n = Inr (pcs, c) \<and> pvc_progress P ?n k votes pcs c"
    by (rule collect_run_invariant) (auto simp: good ok intro: pvc_progress_new pvc_progress_step)
  moreover have "pvc_validator_set ?n = vs" by (simp add: pvc_new_def)
  ultimately show ?thesis using q by (auto simp: pvc_progress_def)
qed

text \<open>
  The pair does not stay within the active validator sets: on a state whose latest update is decided, calling
  \<^verbatim>\<open>update_validator_sets\<close> on the pair that \<^verbatim>\<open>new\<close> made from that very state creates a collector for the previous
  validator set and reports a change, and the next call with the same state takes it away again.
\<close>

lemma acp_update_decided_toggles:
  assumes "vss_update_decided vss" and "vs_good (committed_vs vss)"
  shows "pvs_collector (acp_new pvc_ops chain_id view vss) = None \<and>
    (\<exists>a. acp_update_validator_sets pvc_ops (acp_new pvc_ops chain_id view vss) vss = (True, a)
      \<and> pvs_collector a \<noteq> None
      \<and> acp_update_validator_sets pvc_ops a vss = (True, acp_new pvc_ops chain_id view vss))"
proof -
  have "vs_eq (committed_vs vss) (committed_vs vss)"
    using assms(2) by (simp add: vs_eq_iff vs_good_def)
  with assms(1) show ?thesis
    by (simp add: acp_update_validator_sets_def acp_new_def Let_def ops_simps pvc_new_def)
qed

end
