(* ===== verification/Node.thy ===== *)
theory Node
  imports Block_Tree Leader Collectors
begin

text \<open>
  The state of a replica's algorithm thread: the three subprotocol structs (\<^verbatim>\<open>HotStuff\<close>,
  \<^verbatim>\<open>Pacemaker\<close>, \<^verbatim>\<open>BlockSyncClient\<close>), the block tree, the application, and the log of effects; the
  application as a record of its three callbacks; and the roles of \<^verbatim>\<open>hotstuff/roles.rs\<close>. Instants and
  durations are natural numbers of nanoseconds. A handler that reads the clock several times
  takes the sequence of readings as an argument.
\<close>

section \<open>The application\<close>

record produce_block_request =
  pbq_cur_view :: view_number
  pbq_parent_block :: "crypto_hash option"
  pbq_block_tree_view :: app_block_tree_view

record produce_block_response =
  pbr_data_hash :: crypto_hash
  pbr_data :: data
  pbr_app_state_updates :: "app_state_updates option"
  pbr_validator_set_updates :: "validator_set_updates option"

record validate_block_request =
  vbq_proposed_block :: block
  vbq_block_tree_view :: app_block_tree_view

datatype validate_block_response =
  Valid "app_state_updates option" "validator_set_updates option" | Invalid

record 'a app_ops =
  app_produce_block :: "produce_block_request \<Rightarrow> 'a \<Rightarrow> produce_block_response \<times> 'a"
  app_validate_block :: "validate_block_request \<Rightarrow> 'a \<Rightarrow> validate_block_response \<times> 'a"
  app_validate_block_for_sync :: "validate_block_request \<Rightarrow> 'a \<Rightarrow> validate_block_response \<times> 'a"

section \<open>The structs of the algorithm thread\<close>

type_synonym instant = nat
type_synonym duration = nat

text \<open>
  Instants and durations are in nanoseconds. Adding a duration to an \<^verbatim>\<open>Instant\<close> panics if the sum cannot be represented;
  on Unix an instant has 64 signed bits for its seconds.
\<close>

definition instant_limit :: nat where
  "instant_limit = 2 ^ 63 * 10 ^ 9"

definition instant_add :: "instant \<Rightarrow> duration \<Rightarrow> instant res" where
  "instant_add t d = (if t + d < instant_limit then Inr (t + d) else Inl (Panicked InstantOverflow))"

lemma instant_add_eq_Inr_iff [simp]: "instant_add t d = Inr x \<longleftrightarrow> x = t + d \<and> t + d < instant_limit"
  by (auto simp: instant_add_def)

record view_info =
  vi_view :: view_number
  vi_deadline :: instant

datatype proposal_status = WaitingForProposal | OneLeaderProposed verifying_key | AllLeadersProposed

record hotstuff =
  hs_chain_id :: chain_id
  hs_keypair :: signing_key
  hs_view_info :: view_info
  hs_proposal_status :: proposal_status
  hs_phase_vote_collectors :: "phase_vote_collector active_collector_pair"

record pacemaker =
  pk_chain_id :: chain_id
  pk_keypair :: signing_key
  pk_epoch_length :: epoch_length
  pk_max_view_time :: duration
  pk_timeouts :: "view_number \<Rightarrow> instant option"
  pk_timeout_vote_collectors :: "timeout_vote_collector active_collector_pair"
  pk_last_advance_view :: "view_number option"
  pk_view_info :: view_info

record block_sync_client =
  bc_chain_id :: chain_id
  bc_request_limit :: u32
  bc_response_timeout :: duration
  bc_blacklist_expiry_time :: duration
  bc_trigger_min_view_difference :: u64
  bc_trigger_timeout :: duration
  bc_available_sync_servers :: "(verifying_key, block_height) hash_map"
  bc_blacklist :: "(verifying_key \<times> instant) list"
  bc_last_progress_or_sync_time :: instant
  bc_highest_pc_view :: view_number

record 'a node =
  nd_hotstuff :: hotstuff
  nd_pacemaker :: pacemaker
  nd_client :: block_sync_client
  nd_store :: kv_store
  nd_app :: 'a
  nd_out :: "effect list"
  nd_publisher :: bool

type_synonym ('a, 'r) handler = "('a node, fault, 'r) proc"

section \<open>Building blocks of handlers\<close>

definition emit :: "effect \<Rightarrow> ('a, unit) handler" where
  "emit e = pmodify (\<lambda>n. n\<lparr>nd_out := nd_out n @ [e]\<rparr>)"

definition send_hotstuff :: "verifying_key \<Rightarrow> hotstuff_message \<Rightarrow> ('a, unit) handler" where
  "send_hotstuff peer m = emit (Send peer (ProgressMessage (HotStuffMessage m)))"

definition broadcast_hotstuff :: "hotstuff_message \<Rightarrow> ('a, unit) handler" where
  "broadcast_hotstuff m = emit (Broadcast (ProgressMessage (HotStuffMessage m)))"

definition broadcast_pacemaker :: "pacemaker_message \<Rightarrow> ('a, unit) handler" where
  "broadcast_pacemaker m = emit (Broadcast (ProgressMessage (PacemakerMessage m)))"

definition event_publish :: "event \<Rightarrow> ('a, unit) handler" where
  "event_publish ev = pmodify (\<lambda>n. if nd_publisher n then n\<lparr>nd_out := nd_out n @ [Published ev]\<rparr> else n)"

definition read_store :: "(kv_store \<Rightarrow> 'r res) \<Rightarrow> ('a, 'r) handler" where
  "read_store f = pread (\<lambda>n. f (nd_store n))"

definition write_store :: "(kv_store \<Rightarrow> kv_store) \<Rightarrow> ('a, unit) handler" where
  "write_store f = pmodify (\<lambda>n. n\<lparr>nd_store := f (nd_store n)\<rparr>)"

definition pure_res :: "'r res \<Rightarrow> ('a, 'r) handler" where
  "pure_res r = pread (\<lambda>_. r)"

definition set_hotstuff :: "(hotstuff \<Rightarrow> hotstuff) \<Rightarrow> ('a, unit) handler" where
  "set_hotstuff f = pmodify (\<lambda>n. n\<lparr>nd_hotstuff := f (nd_hotstuff n)\<rparr>)"

definition set_pacemaker :: "(pacemaker \<Rightarrow> pacemaker) \<Rightarrow> ('a, unit) handler" where
  "set_pacemaker f = pmodify (\<lambda>n. n\<lparr>nd_pacemaker := f (nd_pacemaker n)\<rparr>)"

definition set_client :: "(block_sync_client \<Rightarrow> block_sync_client) \<Rightarrow> ('a, unit) handler" where
  "set_client f = pmodify (\<lambda>n. n\<lparr>nd_client := f (nd_client n)\<rparr>)"

text \<open>Changes that may panic, in which case nothing is changed.\<close>

definition try_set_pacemaker :: "(pacemaker \<Rightarrow> pacemaker res) \<Rightarrow> ('a, unit) handler" where
  "try_set_pacemaker f = (\<lambda>n. case f (nd_pacemaker n) of Inl e \<Rightarrow> (Inl e, n) | Inr pk \<Rightarrow> (Inr (), n\<lparr>nd_pacemaker := pk\<rparr>))"

definition try_set_client :: "(block_sync_client \<Rightarrow> block_sync_client res) \<Rightarrow> ('a, unit) handler" where
  "try_set_client f = (\<lambda>n. case f (nd_client n) of Inl e \<Rightarrow> (Inl e, n) | Inr c \<Rightarrow> (Inr (), n\<lparr>nd_client := c\<rparr>))"

definition call_app :: "('a \<Rightarrow> 'r \<times> 'a) \<Rightarrow> ('a, 'r) handler" where
  "call_app f = (\<lambda>n. let (r, a) = f (nd_app n) in (Inr r, n\<lparr>nd_app := a\<rparr>))"

text \<open>
  \<^verbatim>\<open>block_tree.update\<close> as the subprotocols call it: the store is replaced, the events of the update are
  published, and a change of the validator set is passed on to the network.
\<close>

definition update_block_tree :: "prims \<Rightarrow> phase_certificate \<Rightarrow> ('a, validator_set_updates option) handler" where
  "update_block_tree P justify = (\<lambda>n.
     case bt_update P (nd_publisher n) justify (nd_store n) of
       Inl e \<Rightarrow> (Inl e, n)
     | Inr (vsu, evs, s) \<Rightarrow> (Inr vsu, n\<lparr>nd_store := s, nd_out := nd_out n @ map Published evs\<rparr>))"

definition update_validator_set :: "validator_set_updates option \<Rightarrow> ('a, unit) handler" where
  "update_validator_set vsu = (case vsu of None \<Rightarrow> pret () | Some u \<Rightarrow> emit (UpdateValidatorSet u))"

lemmas handler_defs = emit_def send_hotstuff_def broadcast_hotstuff_def broadcast_pacemaker_def event_publish_def
  read_store_def write_store_def pure_res_def set_hotstuff_def set_pacemaker_def set_client_def call_app_def

section \<open>Roles\<close>

definition is_validator :: "verifying_key \<Rightarrow> validator_set_state \<Rightarrow> bool" where
  "is_validator replica vss \<longleftrightarrow> vs_contains (committed_vs vss) replica
     \<or> (\<not> vss_update_decided vss \<and> vs_contains (previous_vs vss) replica)"

definition is_proposer :: "verifying_key \<Rightarrow> view_number \<Rightarrow> validator_set_state \<Rightarrow> bool res" where
  "is_proposer validator view vss =
     ror (rbind (select_leader view (committed_vs vss)) (\<lambda>l. Inr (validator = l)))
         (rand (Inr (\<not> vss_update_decided vss))
            (rbind (select_leader view (previous_vs vss)) (\<lambda>l. Inr (validator = l))))"

definition is_phase_voter :: "verifying_key \<Rightarrow> validator_set_state \<Rightarrow> phase_certificate \<Rightarrow> bool" where
  "is_phase_voter replica vss justify =
     (if vss_update_decided vss then vs_contains (committed_vs vss) replica
      else case pc_phase justify of
        Commit \<Rightarrow> vs_contains (committed_vs vss) replica
      | _ \<Rightarrow> vs_contains (previous_vs vss) replica)"

definition phase_vote_recipient :: "phase_vote \<Rightarrow> validator_set_state \<Rightarrow> verifying_key res" where
  "phase_vote_recipient v vss =
     (if vss_update_decided vss then select_leader (pv_view v + 1) (committed_vs vss)
      else case pv_phase v of
        Decide \<Rightarrow> select_leader (pv_view v + 1) (committed_vs vss)
      | _ \<Rightarrow> select_leader (pv_view v + 1) (previous_vs vss))"

definition new_view_recipients :: "new_view \<Rightarrow> validator_set_state \<Rightarrow> (verifying_key \<times> verifying_key option) res" where
  "new_view_recipients nv vss =
     rbind (select_leader (nv_view nv + 1) (committed_vs vss)) (\<lambda>l.
       if vss_update_decided vss then Inr (l, None)
       else rbind (select_leader (nv_view nv + 1) (previous_vs vss)) (\<lambda>p. Inr (l, Some p)))"

section \<open>Relations that every handler keeps\<close>

text \<open>Phase votes among the effects.\<close>

fun effect_vote :: "effect \<Rightarrow> phase_vote option" where
  "effect_vote (Send _ (ProgressMessage (HotStuffMessage (PhaseVoteMsg v)))) = Some v"
| "effect_vote _ = None"

definition blacklist_contains_server_address :: "block_sync_client \<Rightarrow> verifying_key \<Rightarrow> bool" where
  "blacklist_contains_server_address c sync_server \<longleftrightarrow> list_ex (\<lambda>(vk, _). vk = sync_server) (bc_blacklist c)"

text \<open>No server is both available and blacklisted.\<close>

definition client_ok :: "block_sync_client \<Rightarrow> bool" where
  "client_ok c \<longleftrightarrow> (\<forall>k. hm_contains_key (bc_available_sync_servers c) k \<longrightarrow> \<not> blacklist_contains_server_address c k)"

definition client_step :: "block_sync_client \<Rightarrow> block_sync_client \<Rightarrow> bool" where
  "client_step c c' \<longleftrightarrow> (client_ok c \<longrightarrow> client_ok c')"

text \<open>
  \<open>quiet n n'\<close>: between the two states only the application, HotStuff's own state and the log of effects have changed, and
  no vote was sent.
\<close>

definition quiet :: "'a node \<Rightarrow> 'a node \<Rightarrow> bool" where
  "quiet n n' \<longleftrightarrow> nd_store n' = nd_store n \<and> nd_pacemaker n' = nd_pacemaker n \<and> nd_client n' = nd_client n \<and>
     nd_publisher n' = nd_publisher n \<and> (\<exists>es. nd_out n' = nd_out n @ es \<and> (\<forall>e \<in> set es. effect_vote e = None))"

text \<open>Up to quiet changes, the store has become \<open>s\<close>.\<close>

definition after :: "kv_store \<Rightarrow> 'a node \<Rightarrow> 'a node \<Rightarrow> bool" where
  "after s n n' \<longleftrightarrow> quiet (n\<lparr>nd_store := s\<rparr>) n'"

lemma quiet_refl: "quiet n n"
  by (simp add: quiet_def)

lemma quiet_trans: "quiet n1 n2 \<Longrightarrow> quiet n2 n3 \<Longrightarrow> quiet n1 n3"
  by (fastforce simp: quiet_def)

lemma quiet_order: "reflp quiet" "transp quiet"
  by (auto intro!: reflpI transpI quiet_refl intro: quiet_trans)

lemma quiet_steps:
  "effect_vote e = None \<Longrightarrow> keeps quiet (emit e)" "keeps quiet (event_publish ev)" "keeps quiet (set_hotstuff f)"
  "keeps quiet (call_app g)" "keeps quiet (read_store k)" "keeps quiet (pure_res r)"
  by (auto simp: keeps_def quiet_def handler_defs pmodify_def pread_def split: prod.splits)

lemma quiet_update_validator_set: "keeps quiet (update_validator_set vsu)"
  by (cases vsu) (simp_all add: update_validator_set_def keeps_pret quiet_order quiet_steps)

lemma after_start: "after (nd_store n) n n"
  by (simp add: after_def quiet_refl)

lemma after_quiet: "after s n n' \<Longrightarrow> quiet n' n'' \<Longrightarrow> after s n n''"
  unfolding after_def by (rule quiet_trans)

lemma after_store: "after s n n' \<Longrightarrow> nd_store n' = s \<and> nd_publisher n' = nd_publisher n"
  by (auto simp: after_def quiet_def)

lemma after_write: "after s n n' \<Longrightarrow> after s' n (n'\<lparr>nd_store := s'\<rparr>)"
  by (simp add: after_def quiet_def)

lemma hoare_after: "keeps quiet m \<Longrightarrow> (\<And>n'. after s n n' \<Longrightarrow> F n') \<Longrightarrow> hoare (after s n) m (\<lambda>_. after s n) F"
  by (rule hoare_keeps [where R = quiet]) (auto intro: after_quiet)

lemma hoare_read_store:
  "(\<And>n'. after s n n' \<Longrightarrow> F n') \<Longrightarrow> hoare (after s n) (read_store f) (\<lambda>x n'. after s n n' \<and> f s = Inr x) F"
  by (auto simp: hoare_def read_store_def pread_def dest: after_store split: sum.splits)

lemma hoare_write_after: "hoare (after s n) (write_store f) (\<lambda>_. after (f s) n) F"
  by (simp add: hoare_def write_store_def pmodify_def after_def quiet_def)

lemma hoare_call_app:
  assumes "\<And>n'. after s n n' \<Longrightarrow> F n'"
  shows "hoare (after s n) (call_app f) (\<lambda>r n'. after s n n' \<and> (\<exists>a. fst (f a) = r)) F"
  unfolding hoare_def
proof (intro allI impI)
  fix n' assume "after s n n'"
  then have "after s n (n'\<lparr>nd_app := snd (f (nd_app n'))\<rparr>)" by (simp add: after_def quiet_def)
  then show "case call_app f n' of (Inr r, n'') \<Rightarrow> after s n n'' \<and> (\<exists>a. fst (f a) = r) | (Inl _, n'') \<Rightarrow> F n''"
    by (auto simp: call_app_def split: prod.splits intro: exI [of _ "nd_app n'"])
qed

lemma hoare_start: "hoare (after (nd_store n) n) m B F \<Longrightarrow> hoare (\<lambda>n'. n' = n) m B F"
  by (erule hoare_conseq) (simp_all add: after_start)

text \<open>What \<^verbatim>\<open>update\<close> does to a state that quiet steps have led to.\<close>

lemma hoare_update_block_tree:
  assumes "\<And>n'. after s n n' \<Longrightarrow> F n'"
  shows "hoare (after s n) (update_block_tree P pc)
    (\<lambda>_ n'. \<exists>r evs s'. bt_update P (nd_publisher n) pc s = Inr (r, evs, s') \<and> after s' n n') F"
proof -
  have "after s' n (n1\<lparr>nd_store := s', nd_out := nd_out n1 @ map Published evs\<rparr>)" if "after s n n1" for n1 s' evs
  proof -
    have "quiet (n1\<lparr>nd_store := s'\<rparr>) (n1\<lparr>nd_store := s', nd_out := nd_out n1 @ map Published evs\<rparr>)" by (auto simp: quiet_def)
    with after_write [OF that, of s'] show ?thesis by (rule after_quiet)
  qed
  with assms after_store show ?thesis
    unfolding hoare_def update_block_tree_def by (fastforce split: sum.splits)
qed

lemma hoare_updated:
  assumes "\<And>r evs s'. U = Inr (r, evs, s') \<Longrightarrow> hoare (after s' n) m B F"
  shows "hoare (\<lambda>n'. \<exists>r evs s'. U = Inr (r, evs, s') \<and> after s' n n') m B F"
  unfolding hoare_def
proof (intro allI impI, elim exE conjE)
  fix n' r evs s'
  assume "U = Inr (r, evs, s')" and "after s' n n'"
  with assms show "case m n' of (Inr x, n2) \<Rightarrow> B x n2 | (Inl _, n2) \<Rightarrow> F n2" by (simp add: hoare_def)
qed

text \<open>
  A relation between the state before and after, reflexive and transitive, that holds for each
  step a handler can take: then it holds for the handlers, proved once below and in the theories
  of the subprotocols. The first locale has the steps that neither change the tree of blocks nor vote.
\<close>

locale node_base =
  fixes P :: prims and R :: "'a node \<Rightarrow> 'a node \<Rightarrow> bool"
  assumes R_refl: "R n n"
    and R_trans: "R n1 n2 \<Longrightarrow> R n2 n3 \<Longrightarrow> R n1 n3"
    and R_effect: "effect_vote e = None \<Longrightarrow> R n (n\<lparr>nd_out := nd_out n @ [e]\<rparr>)"
    and R_hotstuff: "R n (n\<lparr>nd_hotstuff := h\<rparr>)"
    and R_client: "client_step (nd_client n) c \<Longrightarrow> R n (n\<lparr>nd_client := c\<rparr>)"
    and R_app: "R n (n\<lparr>nd_app := a\<rparr>)"
    and R_entered: "R n (n\<lparr>nd_store := bt_set_highest_view_entered P view (nd_store n)\<rparr>)"
begin

lemma reflpR: "reflp R"
  by (rule reflpI) (rule R_refl)

lemma transpR: "transp R"
  by (rule transpI) (rule R_trans)

lemma keeps_emit: "effect_vote e = None \<Longrightarrow> keeps R (emit e)"
  by (simp add: emit_def keeps_pmodify R_effect)

lemma keeps_publish: "keeps R (event_publish ev)"
  unfolding event_publish_def by (rule keeps_pmodify) (simp add: R_effect R_refl)

lemma keeps_read_store: "keeps R (read_store f)"
  by (simp add: read_store_def keeps_pread reflpR)

lemma keeps_pure_res: "keeps R (pure_res r)"
  by (simp add: pure_res_def keeps_pread reflpR)

lemma keeps_set_hotstuff: "keeps R (set_hotstuff f)"
  by (simp add: set_hotstuff_def keeps_pmodify R_hotstuff)

lemma keeps_set_client: "(\<And>c. client_step c (f c)) \<Longrightarrow> keeps R (set_client f)"
  by (simp add: set_client_def keeps_pmodify R_client)

lemma keeps_try_set_client: "(\<And>c c'. f c = Inr c' \<Longrightarrow> client_step c c') \<Longrightarrow> keeps R (try_set_client f)"
  by (rule keepsI) (simp add: try_set_client_def R_refl R_client split: sum.splits)

lemma keeps_call_app: "keeps R (call_app f)"
  by (rule keepsI) (simp add: call_app_def R_app split: prod.splits)

lemma keeps_entered: "keeps R (write_store (bt_set_highest_view_entered P v))"
  by (simp add: write_store_def keeps_pmodify R_entered)

lemma R_effects: "\<forall>e \<in> set es. effect_vote e = None \<Longrightarrow> R n (n\<lparr>nd_out := nd_out n @ es\<rparr>)"
proof (induction es rule: rev_induct)
  case Nil
  then show ?case by (simp add: R_refl)
next
  case (snoc e es)
  have "R (n\<lparr>nd_out := nd_out n @ es\<rparr>) (n\<lparr>nd_out := nd_out n @ es @ [e]\<rparr>)"
    using R_effect [of e "n\<lparr>nd_out := nd_out n @ es\<rparr>"] snoc.prems by simp
  with snoc R_trans show ?case by (metis UnCI set_append)
qed

lemma R_quiet:
  assumes "quiet n n'"
  shows "R n n'"
proof -
  from assms obtain es where es: "\<forall>e \<in> set es. effect_vote e = None"
    and n': "n' = n\<lparr>nd_out := nd_out n @ es, nd_hotstuff := nd_hotstuff n', nd_app := nd_app n'\<rparr>" by (auto simp: quiet_def)
  have "R n (n\<lparr>nd_out := nd_out n @ es\<rparr>)" using es by (rule R_effects)
  moreover have "R (n\<lparr>nd_out := nd_out n @ es\<rparr>) (n\<lparr>nd_out := nd_out n @ es, nd_hotstuff := nd_hotstuff n'\<rparr>)" by (rule R_hotstuff)
  moreover have "R (n\<lparr>nd_out := nd_out n @ es, nd_hotstuff := nd_hotstuff n'\<rparr>) n'" by (subst n') (rule R_app)
  ultimately show ?thesis by (blast intro: R_trans)
qed

lemma R_after: "R n (n\<lparr>nd_store := s\<rparr>) \<Longrightarrow> after s n n' \<Longrightarrow> R n n'"
  unfolding after_def by (metis R_quiet R_trans)

lemma after_R: "after (nd_store n) n n' \<Longrightarrow> R n n'"
  by (rule R_after) (simp_all add: R_refl)

lemma hoare_quiet_end: "keeps quiet m \<Longrightarrow> hoare (R n) m (\<lambda>_. R n) (R n)"
  by (rule hoare_keeps [where R = quiet]) (auto intro: R_quiet R_trans)

lemma keeps_update_validator_set: "keeps R (update_validator_set vsu)"
  by (cases vsu) (simp_all add: update_validator_set_def keeps_pret reflpR keeps_emit)

lemmas keeps_steps = keeps_publish keeps_read_store keeps_pure_res keeps_set_hotstuff keeps_call_app
  keeps_entered keeps_update_validator_set
  keeps_pret [OF reflpR] keeps_pgets [OF reflpR] keeps_pread [OF reflpR] keeps_pbind [OF transpR] keeps_pthen [OF transpR]
  keeps_pwhen [OF reflpR] keeps_if keeps_Let keeps_case_option keeps_case_prod

end

text \<open>
  The steps that change the tree or vote, with what the code has checked before it takes them. A block is
  inserted only if it is correct, safe and validated by the application on the view of its parent; a certificate is
  processed only if it is correct and safe; a vote is for a block just inserted, or for the block of a nudge's
  certificate just processed, and above the highest view voted in.
\<close>

definition parent_of :: "block \<Rightarrow> crypto_hash option" where
  "parent_of b = (if is_genesis_pc (b_justify b) then None else Some (pc_block (b_justify b)))"

definition validated ::
  "prims \<Rightarrow> 'a app_ops \<Rightarrow> kv_store \<Rightarrow> block \<Rightarrow> app_state_updates option \<Rightarrow> validator_set_updates option \<Rightarrow> bool" where
  "validated P app s b au vu \<longleftrightarrow> (\<exists>view a. bt_app_view P s (parent_of b) = Inr view \<and>
     (fst (app_validate_block app \<lparr>vbq_proposed_block = b, vbq_block_tree_view = view\<rparr> a) = Valid au vu \<or>
      fst (app_validate_block_for_sync app \<lparr>vbq_proposed_block = b, vbq_block_tree_view = view\<rparr> a) = Valid au vu))"

definition acceptable ::
  "prims \<Rightarrow> 'a app_ops \<Rightarrow> kv_store \<Rightarrow> block \<Rightarrow> app_state_updates option \<Rightarrow> validator_set_updates option \<Rightarrow> bool" where
  "acceptable P app s b au vu \<longleftrightarrow> block_is_correct P s b = Inr True \<and> (\<exists>c. safe_block P s c b = Inr True) \<and>
     validated P app s b au vu"

definition processable :: "prims \<Rightarrow> kv_store \<Rightarrow> phase_certificate \<Rightarrow> bool" where
  "processable P s pc \<longleftrightarrow> pc_is_correct P s pc = Inr True \<and> (\<exists>c. safe_pc P s c pc = Inr True)"

definition new_vote :: "prims \<Rightarrow> kv_store \<Rightarrow> phase_vote \<Rightarrow> bool" where
  "new_vote P s v \<longleftrightarrow> (\<exists>w. kv_highest_view_phase_voted P s = Inr w \<and> (\<forall>x. w = Some x \<longrightarrow> x < pv_view v))"

text \<open>What the vote that answers a nudge is for.\<close>

definition nudge_vote_phase :: "phase \<Rightarrow> phase res" where
  "nudge_vote_phase ph = (case ph of Prepare \<Rightarrow> Inr Precommit | Precommit \<Rightarrow> Inr Commit | Commit \<Rightarrow> Inr Decide
     | _ \<Rightarrow> Inl (Panicked UnreachableReached))"

locale checked_rel = node_base P R for P and R :: "'a node \<Rightarrow> 'a node \<Rightarrow> bool" +
  fixes app :: "'a app_ops"
  assumes R_accept_insert: "acceptable P app (nd_store n) b au vu \<Longrightarrow> R n (n\<lparr>nd_store := bt_insert P b au vu (nd_store n)\<rparr>)"
    and R_accept_update: "acceptable P app (nd_store n) b au vu \<Longrightarrow>
      bt_update P pub (b_justify b) (bt_insert P b au vu (nd_store n)) = Inr (r, evs, s) \<Longrightarrow> R n (n\<lparr>nd_store := s\<rparr>)"
    and R_accept_vote: "acceptable P app (nd_store n) b au vu \<Longrightarrow>
      bt_update P pub (b_justify b) (bt_insert P b au vu (nd_store n)) = Inr (r, evs, s) \<Longrightarrow> new_vote P s v \<Longrightarrow>
      effect_vote e = Some v \<Longrightarrow> pv_block v = b_hash b \<Longrightarrow> pv_phase v = (if vu \<noteq> None then Prepare else Generic) \<Longrightarrow>
      R n (n\<lparr>nd_out := nd_out n @ [e], nd_store := bt_set_highest_view_phase_voted P (pv_view v) s\<rparr>)"
    and R_process: "processable P (nd_store n) pc \<Longrightarrow> bt_update P pub pc (nd_store n) = Inr (r, evs, s) \<Longrightarrow>
      R n (n\<lparr>nd_store := s\<rparr>)"
    and R_nudge_vote: "processable P (nd_store n) pc \<Longrightarrow> bt_update P pub pc (nd_store n) = Inr (r, evs, s) \<Longrightarrow>
      new_vote P s v \<Longrightarrow> effect_vote e = Some v \<Longrightarrow> pv_block v = pc_block pc \<Longrightarrow>
      nudge_vote_phase (pc_phase pc) = Inr (pv_phase v) \<Longrightarrow>
      R n (n\<lparr>nd_out := nd_out n @ [e], nd_store := bt_set_highest_view_phase_voted P (pv_view v) s\<rparr>)"

text \<open>
  A relation that holds for every insertion, update and vote, whatever was checked. The last law is
  the only one about voting: a vote may be sent, and is recorded, only above the highest view voted in.
\<close>

locale node_rel = node_base P R for P and R :: "'a node \<Rightarrow> 'a node \<Rightarrow> bool" +
  assumes R_insert: "R n (n\<lparr>nd_store := bt_insert P b au vu (nd_store n)\<rparr>)"
    and R_update: "bt_update P pub pc (nd_store n) = Inr (r, evs, s) \<Longrightarrow> R n (n\<lparr>nd_store := s\<rparr>)"
    and R_vote: "kv_highest_view_phase_voted P (nd_store n) = Inr w \<Longrightarrow> (\<And>x. w = Some x \<Longrightarrow> x < pv_view v) \<Longrightarrow>
      effect_vote e = Some v \<Longrightarrow>
      R n (n\<lparr>nd_out := nd_out n @ [e], nd_store := bt_set_highest_view_phase_voted P (pv_view v) (nd_store n)\<rparr>)"
begin

lemma R_insert_update:
  assumes "bt_update P pub pc (bt_insert P b au vu (nd_store n)) = Inr (r, evs, s)"
  shows "R n (n\<lparr>nd_store := s\<rparr>)"
  using R_trans [OF R_insert [of n b au vu] R_update [of pub pc "n\<lparr>nd_store := bt_insert P b au vu (nd_store n)\<rparr>" r evs s]] assms
  by simp

lemma R_then_vote:
  assumes "R n (n\<lparr>nd_store := s\<rparr>)" and "new_vote P s v" and "effect_vote e = Some v"
  shows "R n (n\<lparr>nd_out := nd_out n @ [e], nd_store := bt_set_highest_view_phase_voted P (pv_view v) s\<rparr>)"
proof -
  from assms(2) obtain w where "kv_highest_view_phase_voted P s = Inr w" "\<And>x. w = Some x \<Longrightarrow> x < pv_view v"
    by (auto simp: new_vote_def)
  with R_vote [of "n\<lparr>nd_store := s\<rparr>" w v e] assms(3) R_trans [OF assms(1)] show ?thesis by simp
qed

end

sublocale node_rel \<subseteq> checked_rel P R app for app
  by unfold_locales (auto intro: R_insert R_update R_insert_update R_then_vote)

text \<open>
  The pacemaker also changes its own state and the highest TC. Its configuration is fixed and its
  view never moves back.
\<close>

definition pk_step :: "pacemaker \<Rightarrow> pacemaker \<Rightarrow> bool" where
  "pk_step pk pk' \<longleftrightarrow> vi_view (pk_view_info pk) \<le> vi_view (pk_view_info pk') \<and> pk_chain_id pk' = pk_chain_id pk \<and>
     pk_keypair pk' = pk_keypair pk \<and> pk_epoch_length pk' = pk_epoch_length pk \<and> pk_max_view_time pk' = pk_max_view_time pk"

locale pacemaker_base = node_base P R for P and R :: "'a node \<Rightarrow> 'a node \<Rightarrow> bool" +
  assumes R_pacemaker: "pk_step (nd_pacemaker n) pk \<Longrightarrow> R n (n\<lparr>nd_pacemaker := pk\<rparr>)"
    and R_tc: "R n (n\<lparr>nd_store := bt_set_highest_tc P tc (nd_store n)\<rparr>)"
begin

lemma keeps_set_pacemaker: "(\<And>pk. pk_step pk (f pk)) \<Longrightarrow> keeps R (set_pacemaker f)"
  by (simp add: set_pacemaker_def keeps_pmodify R_pacemaker)

lemma keeps_try_set_pacemaker: "(\<And>pk pk'. f pk = Inr pk' \<Longrightarrow> pk_step pk pk') \<Longrightarrow> keeps R (try_set_pacemaker f)"
  by (rule keepsI) (simp add: try_set_pacemaker_def R_refl R_pacemaker split: sum.splits)

lemma keeps_tc: "keeps R (write_store (bt_set_highest_tc P tc))"
  by (simp add: write_store_def keeps_pmodify R_tc)

lemma keeps_broadcast_pacemaker: "keeps R (broadcast_pacemaker m)"
  by (simp add: broadcast_pacemaker_def keeps_emit)

end

locale turn_rel = checked_rel P R app + pacemaker_base P R for P and R :: "'a node \<Rightarrow> 'a node \<Rightarrow> bool" and app

locale pacemaker_rel = node_rel P R + pacemaker_base P R for P and R :: "'a node \<Rightarrow> 'a node \<Rightarrow> bool"

sublocale pacemaker_rel \<subseteq> turn_rel P R app for app ..

section \<open>Four relations\<close>

text \<open>What the elementary writes leave alone.\<close>

lemma bt_insert_other:
  assumes "of_block p = None" and "p \<noteq> PNewestBlock"
  shows "bt_insert P b au vu s (path_bytes P p) = s (path_bytes P p)"
proof -
  have "\<not> is_datum p" and "p \<noteq> PChildren (pc_block (b_justify b))" and "p \<noteq> PStatus (b_hash b)" and "p \<noteq> PPendingAppState (b_hash b)"
    and "p \<notin> {PBlockHeight (b_hash b), PBlockJustify (b_hash b), PBlockDataHash (b_hash b), PBlockDataLen (b_hash b)}"
    using assms(1) by (cases p; auto)+
  with assms(2) show ?thesis by (simp add: bt_insert_path set_block_frame store_simps)
qed

lemmas bt_setter_defs = bt_set_highest_tc_def bt_set_highest_view_entered_def bt_set_highest_view_phase_voted_def

text \<open>Votes sent so far, oldest first: their views increase, and none is above the recorded view.\<close>

definition sent_votes :: "'a node \<Rightarrow> phase_vote list" where
  "sent_votes n = List.map_filter effect_vote (nd_out n)"

definition vote_inv :: "prims \<Rightarrow> 'a node \<Rightarrow> bool" where
  "vote_inv P n \<longleftrightarrow> sorted_wrt (<) (map pv_view (sent_votes n)) \<and>
     (\<forall>v \<in> set (sent_votes n). \<exists>w. kv_highest_view_phase_voted P (nd_store n) = Inr (Some w) \<and> pv_view v \<le> w)"

definition vote_rel :: "prims \<Rightarrow> 'a node \<Rightarrow> 'a node \<Rightarrow> bool" where
  "vote_rel P n n' \<longleftrightarrow> (vote_inv P n \<longrightarrow> vote_inv P n')"

lemma vote_rel_unchanged:
  assumes "sent_votes n' = sent_votes n"
    and "nd_store n' (path_bytes P PHighestViewPhaseVoted) = nd_store n (path_bytes P PHighestViewPhaseVoted)"
  shows "vote_rel P n n'"
  using assms by (simp add: vote_rel_def vote_inv_def kv_highest_view_phase_voted_def kv_get_opt_def)

lemma vote_rel_vote:
  assumes "kv_highest_view_phase_voted P (nd_store n) = Inr w" and "\<And>x. w = Some x \<Longrightarrow> x < pv_view v"
    and "effect_vote e = Some v"
  shows "vote_rel P n (n\<lparr>nd_out := nd_out n @ [e], nd_store := bt_set_highest_view_phase_voted P (pv_view v) (nd_store n)\<rparr>)"
    (is "vote_rel P n ?n'")
proof -
  have out: "sent_votes ?n' = sent_votes n @ [v]"
    using assms(3) by (simp add: sent_votes_def map_filter_def)
  have rec: "kv_highest_view_phase_voted P (nd_store ?n') = Inr (Some (pv_view v))"
    by (simp add: kv_highest_view_phase_voted_def kv_get_opt_def bt_setter_defs wb_setter_defs store_simps)
  show ?thesis
    unfolding vote_rel_def
  proof
    assume I: "vote_inv P n"
    have lt: "pv_view u < pv_view v" if "u \<in> set (sent_votes n)" for u
      using I assms(1,2) that unfolding vote_inv_def by (metis Inr_inject le_less_trans)
    with I show "vote_inv P ?n'"
      unfolding vote_inv_def out rec by (auto simp: sorted_wrt_append less_imp_le)
  qed
qed

interpretation votes: pacemaker_rel P "vote_rel P" for P
proof
  fix n1 n2 n3 :: "'a node"
  show "vote_rel P n1 n2 \<Longrightarrow> vote_rel P n2 n3 \<Longrightarrow> vote_rel P n1 n3" by (simp add: vote_rel_def)
next
  fix n :: "'a node" and pub pc r evs s
  assume "bt_update P pub pc (nd_store n) = Inr (r, evs, s)"
  from bt_update_frame [OF this, of PHighestViewPhaseVoted] show "vote_rel P n (n\<lparr>nd_store := s\<rparr>)"
    by (intro vote_rel_unchanged) (simp_all add: sent_votes_def)
next
  fix n :: "'a node" and w v e
  assume "kv_highest_view_phase_voted P (nd_store n) = Inr w" "\<And>x. w = Some x \<Longrightarrow> x < pv_view v" "effect_vote e = Some v"
  then show "vote_rel P n (n\<lparr>nd_out := nd_out n @ [e], nd_store := bt_set_highest_view_phase_voted P (pv_view v) (nd_store n)\<rparr>)"
    by (rule vote_rel_vote)
qed (auto simp: vote_rel_def [of P n n for n] bt_insert_other bt_setter_defs wb_setter_defs store_simps sent_votes_def map_filter_def
      intro!: vote_rel_unchanged)

text \<open>The view of the highest PC does not fall.\<close>

definition pc_rel :: "prims \<Rightarrow> 'a node \<Rightarrow> 'a node \<Rightarrow> bool" where
  "pc_rel P n n' \<longleftrightarrow> (\<forall>pc. kv_highest_pc P (nd_store n) = Inr pc \<longrightarrow>
     (\<exists>pc'. kv_highest_pc P (nd_store n') = Inr pc' \<and> pc_view pc \<le> pc_view pc'))"

lemma pc_rel_unchanged:
  "nd_store n' (path_bytes P PHighestPC) = nd_store n (path_bytes P PHighestPC) \<Longrightarrow> pc_rel P n n'"
  by (simp add: pc_rel_def kv_highest_pc_def kv_get_req_def)

interpretation pcs: pacemaker_rel P "pc_rel P" for P
proof
  fix n1 n2 n3 :: "'a node"
  show "pc_rel P n1 n2 \<Longrightarrow> pc_rel P n2 n3 \<Longrightarrow> pc_rel P n1 n3" unfolding pc_rel_def by (meson order_trans)
next
  fix n :: "'a node" and pub pc r evs s
  assume "bt_update P pub pc (nd_store n) = Inr (r, evs, s)"
  then show "pc_rel P n (n\<lparr>nd_store := s\<rparr>)"
    by (rule bt_update_pcs) (auto simp: pc_rel_def)
qed (auto simp: bt_insert_other bt_setter_defs wb_setter_defs store_simps intro!: pc_rel_unchanged)

text \<open>The pacemaker only moves forward.\<close>

definition view_rel :: "'a node \<Rightarrow> 'a node \<Rightarrow> bool" where
  "view_rel n n' \<longleftrightarrow> pk_step (nd_pacemaker n) (nd_pacemaker n')"

interpretation views: pacemaker_rel P view_rel for P
  by unfold_locales (auto simp: view_rel_def pk_step_def)

text \<open>The lists of the block sync client stay disjoint.\<close>

definition client_rel :: "'a node \<Rightarrow> 'a node \<Rightarrow> bool" where
  "client_rel n n' \<longleftrightarrow> client_step (nd_client n) (nd_client n')"

interpretation clients: pacemaker_rel P client_rel for P
  by unfold_locales (auto simp: client_rel_def client_step_def)

end
