(* ===== verification/Hotstuff.thy ===== *)
theory Hotstuff
  imports Node
begin

text \<open>
  The HotStuff subprotocol (\<^verbatim>\<open>hotstuff/implementation.rs\<close>): entering a view and handling proposals,
  nudges, phase votes and new-view messages. The main result is voting discipline: over any
  run of handlers, with or without errors, the views of the phase votes a replica sends
  strictly increase.
\<close>

section \<open>Handlers\<close>

definition hotstuff_new ::
  "chain_id \<Rightarrow> signing_key \<Rightarrow> view_info \<Rightarrow> validator_set_state \<Rightarrow> hotstuff" where
  "hotstuff_new chain_id keypair vi vss =
     \<lparr>hs_chain_id = chain_id, hs_keypair = keypair, hs_view_info = vi, hs_proposal_status = WaitingForProposal,
      hs_phase_vote_collectors = acp_new pvc_ops chain_id (vi_view vi) vss\<rparr>"

definition is_view_outdated :: "hotstuff \<Rightarrow> view_info \<Rightarrow> bool" where
  "is_view_outdated h new_view_info \<longleftrightarrow> vi_view new_view_info \<noteq> vi_view (hs_view_info h)"

fun has_one_leader_proposed :: "proposal_status \<Rightarrow> verifying_key \<Rightarrow> bool" where
  "has_one_leader_proposed (OneLeaderProposed validator) leader = (validator = leader)"
| "has_one_leader_proposed _ leader = False"

fun have_all_leaders_proposed :: "proposal_status \<Rightarrow> bool" where
  "have_all_leaders_proposed AllLeadersProposed = True"
| "have_all_leaders_proposed _ = False"

fun next_proposal_status :: "proposal_status \<Rightarrow> verifying_key \<Rightarrow> proposal_status" where
  "next_proposal_status WaitingForProposal origin = OneLeaderProposed origin"
| "next_proposal_status (OneLeaderProposed leader) origin = AllLeadersProposed"
| "next_proposal_status AllLeadersProposed origin = AllLeadersProposed"

definition stop_accepting :: "verifying_key \<Rightarrow> ('a, unit) handler" where
  "stop_accepting origin =
     set_hotstuff (\<lambda>h. h\<lparr>hs_proposal_status := next_proposal_status (hs_proposal_status h) origin\<rparr>)"

definition update_collectors :: "validator_set_state \<Rightarrow> ('a, unit) handler" where
  "update_collectors vss = set_hotstuff (\<lambda>h. h\<lparr>hs_phase_vote_collectors :=
     snd (acp_update_validator_sets pvc_ops (hs_phase_vote_collectors h) vss)\<rparr>)"

text \<open>Step 4 of \<^verbatim>\<open>enter_view\<close>: what a proposer sends.\<close>

definition broadcast_proposal :: "proposal \<Rightarrow> ('a, unit) handler" where
  "broadcast_proposal p = pthen (broadcast_hotstuff (ProposalMsg p)) (event_publish (ProposeEvent p))"

definition propose_new_block :: "prims \<Rightarrow> 'a app_ops \<Rightarrow> phase_certificate \<Rightarrow> ('a, unit) handler" where
  "propose_new_block P app highest_pc =
     pbind (pgets nd_hotstuff) (\<lambda>h.
     pbind (read_store (\<lambda>s.
         if is_genesis_pc highest_pc then Inr (None, 0)
         else rbind (kv_block_height P s (pc_block highest_pc)) (\<lambda>ph.
              rbind (ok_or ph (BlockTreeFault (BlockExpectedButNotFound (pc_block highest_pc)))) (\<lambda>parent_height.
              Inr (Some (pc_block highest_pc), parent_height + 1))))) (\<lambda>(parent_block, child_height).
     pbind (read_store (\<lambda>s. bt_app_view P s parent_block)) (\<lambda>view.
     pbind (call_app (app_produce_block app \<lparr>pbq_cur_view = vi_view (hs_view_info h), pbq_parent_block = parent_block,
              pbq_block_tree_view = view\<rparr>)) (\<lambda>response.
     pbind (pure_res (block_new P child_height highest_pc (pbr_data_hash response) (pbr_data response))) (\<lambda>block.
     broadcast_proposal \<lparr>p_chain_id = hs_chain_id h, p_view = vi_view (hs_view_info h), p_block = block\<rparr>)))))"

definition propose :: "prims \<Rightarrow> 'a app_ops \<Rightarrow> ('a, unit) handler" where
  "propose P app =
     pbind (pgets nd_hotstuff) (\<lambda>h.
     let view = vi_view (hs_view_info h) in
     pbind (read_store (\<lambda>s. repropose_block P s view)) (\<lambda>repropose.
     case repropose of
       Some block_hash \<Rightarrow>
         pbind (read_store (\<lambda>s. rbind (kv_block P s block_hash) (\<lambda>b.
           ok_or b (BlockTreeFault (BlockExpectedButNotFound block_hash))))) (\<lambda>block.
         broadcast_proposal \<lparr>p_chain_id = hs_chain_id h, p_view = view, p_block = block\<rparr>)
     | None \<Rightarrow>
         pbind (read_store (kv_highest_pc P)) (\<lambda>highest_pc.
         if pc_phase highest_pc = Generic \<or> pc_phase highest_pc = Decide then propose_new_block P app highest_pc
         else let nudge = \<lparr>n_chain_id = hs_chain_id h, n_view = view, n_justify = highest_pc\<rparr> in
           pthen (broadcast_hotstuff (NudgeMsg nudge)) (event_publish (NudgeEvent nudge)))))"

definition hs_enter_view :: "prims \<Rightarrow> 'a app_ops \<Rightarrow> view_info \<Rightarrow> ('a, unit) handler" where
  "hs_enter_view P app new_view_info =
     pbind (read_store (kv_validator_set_state P)) (\<lambda>vss.
     pbind (pgets nd_hotstuff) (\<lambda>h.
     pbind (read_store (kv_highest_pc P)) (\<lambda>highest_pc.
     let new_view = \<lparr>nv_chain_id = hs_chain_id h, nv_view = vi_view (hs_view_info h), nv_highest_pc = highest_pc\<rparr> in
     pbind (pure_res (new_view_recipients new_view vss)) (\<lambda>(committed_vs_leader, prev_vs_leader).
     pthen (send_hotstuff committed_vs_leader (NewViewMsg new_view))
     (pthen (case prev_vs_leader of None \<Rightarrow> pret () | Some l \<Rightarrow> send_hotstuff l (NewViewMsg new_view))
     (pthen (event_publish (NewViewEvent new_view))
     (pthen (set_hotstuff (\<lambda>h. h\<lparr>hs_view_info := new_view_info, hs_proposal_status := WaitingForProposal,
         hs_phase_vote_collectors := acp_new pvc_ops (hs_chain_id h) (vi_view new_view_info) vss\<rparr>))
     (pthen (write_store (bt_set_highest_view_entered P (vi_view new_view_info)))
     (pthen (event_publish (StartViewEvent (vi_view new_view_info)))
     (pbind (pure_res (is_proposer (keypair_public P (hs_keypair h)) (vi_view new_view_info) vss)) (\<lambda>proposer.
      pwhen proposer (propose P app))))))))))))"

text \<open>
  Voting, as both \<^verbatim>\<open>on_receive_proposal\<close> and \<^verbatim>\<open>on_receive_nudge\<close> do it: the vote is sent first, and recorded
  afterwards.
\<close>

definition may_vote :: "prims \<Rightarrow> phase_certificate \<Rightarrow> validator_set_state \<Rightarrow> hotstuff \<Rightarrow> kv_store \<Rightarrow> bool res" where
  "may_vote P justify vss h s =
     rand (Inr (is_phase_voter (keypair_public P (hs_keypair h)) vss justify))
       (rbind (kv_highest_view_phase_voted P s) (\<lambda>voted. Inr (case voted of
          None \<Rightarrow> True | Some v \<Rightarrow> v < vi_view (hs_view_info h))))"

definition cast_vote :: "prims \<Rightarrow> validator_set_state \<Rightarrow> crypto_hash \<Rightarrow> phase \<Rightarrow> ('a, unit) handler" where
  "cast_vote P vss block vote_phase =
     pbind (pgets nd_hotstuff) (\<lambda>h.
     let vote = phase_vote_new P (hs_keypair h) (hs_chain_id h) (vi_view (hs_view_info h)) block vote_phase in
     pbind (pure_res (phase_vote_recipient vote vss)) (\<lambda>recipient.
     pthen (send_hotstuff recipient (PhaseVoteMsg vote))
     (pthen (write_store (bt_set_highest_view_phase_voted P (vi_view (hs_view_info h))))
     (event_publish (PhaseVoteEvent vote)))))"

definition vote_if_allowed ::
  "prims \<Rightarrow> phase_certificate \<Rightarrow> validator_set_state \<Rightarrow> crypto_hash \<Rightarrow> phase res \<Rightarrow> ('a, unit) handler" where
  "vote_if_allowed P justify vss block vote_phase =
     pbind (pread (\<lambda>n. may_vote P justify vss (nd_hotstuff n) (nd_store n))) (\<lambda>may.
     pwhen may (pbind (pure_res vote_phase) (\<lambda>ph. cast_vote P vss block ph)))"

text \<open>The block tree update and what follows from it, common to all four message handlers.\<close>

definition process_justify :: "prims \<Rightarrow> phase_certificate \<Rightarrow> ('a, validator_set_state) handler" where
  "process_justify P justify =
     pbind (update_block_tree P justify) (\<lambda>vsu.
     pthen (update_validator_set vsu)
     (pbind (read_store (kv_validator_set_state P)) (\<lambda>vss.
      pthen (update_collectors vss) (pret vss))))"

definition on_receive_proposal ::
  "prims \<Rightarrow> 'a app_ops \<Rightarrow> proposal \<Rightarrow> verifying_key \<Rightarrow> ('a, unit) handler" where
  "on_receive_proposal P app proposal origin =
     pthen (event_publish (ReceiveProposalEvent origin proposal))
     (pbind (pgets nd_hotstuff) (\<lambda>h.
      pbind (read_store (\<lambda>s. rand (block_is_correct P s (p_block proposal))
               (safe_block P s (hs_chain_id h) (p_block proposal)))) (\<lambda>good.
      if \<not> good then stop_accepting origin
      else
        let block = p_block proposal;
            parent_block = (if is_genesis_pc (b_justify block) then None else Some (pc_block (b_justify block))) in
        pbind (read_store (\<lambda>s. bt_app_view P s parent_block)) (\<lambda>view.
        pbind (call_app (app_validate_block app \<lparr>vbq_proposed_block = block, vbq_block_tree_view = view\<rparr>)) (\<lambda>response.
        pthen (case response of
            Invalid \<Rightarrow> pret ()
          | Valid app_state_updates validator_set_updates \<Rightarrow>
              pthen (write_store (bt_insert P block app_state_updates validator_set_updates))
              (pthen (event_publish (InsertBlockEvent block))
              (pbind (process_justify P (b_justify block)) (\<lambda>vss.
               vote_if_allowed P (b_justify block) vss (b_hash block)
                 (Inr (if validator_set_updates \<noteq> None then Prepare else Generic))))))
          (stop_accepting origin))))))"

definition on_receive_nudge :: "prims \<Rightarrow> nudge \<Rightarrow> verifying_key \<Rightarrow> ('a, unit) handler" where
  "on_receive_nudge P nudge origin =
     pthen (event_publish (ReceiveNudgeEvent origin nudge))
     (pbind (pgets nd_hotstuff) (\<lambda>h.
      pbind (read_store (\<lambda>s. rand (pc_is_correct P s (n_justify nudge))
               (safe_nudge P s (hs_chain_id h) (vi_view (hs_view_info h)) nudge))) (\<lambda>good.
      if \<not> good then stop_accepting origin
      else
        pbind (process_justify P (n_justify nudge)) (\<lambda>vss.
        pthen (vote_if_allowed P (n_justify nudge) vss (pc_block (n_justify nudge))
                 (nudge_vote_phase (pc_phase (n_justify nudge))))
        (stop_accepting origin)))))"

definition collect_phase_vote :: "phase_vote \<Rightarrow> verifying_key \<Rightarrow> ('a, phase_certificate option) handler" where
  "collect_phase_vote v signer = (\<lambda>n.
     case acp_collect pvc_ops (hs_phase_vote_collectors (nd_hotstuff n)) signer v of
       Inl e \<Rightarrow> (Inl e, n)
     | Inr (r, a) \<Rightarrow> (Inr r, n\<lparr>nd_hotstuff := (nd_hotstuff n)\<lparr>hs_phase_vote_collectors := a\<rparr>\<rparr>))"

definition on_receive_phase_vote :: "prims \<Rightarrow> phase_vote \<Rightarrow> verifying_key \<Rightarrow> ('a, unit) handler" where
  "on_receive_phase_vote P v signer =
     pthen (event_publish (ReceivePhaseVoteEvent signer v))
     (pwhen (phase_vote_is_correct P signer v)
       (pbind (collect_phase_vote v signer) (\<lambda>collected. case collected of
          None \<Rightarrow> pret ()
        | Some new_pc \<Rightarrow>
            pthen (event_publish (CollectPCEvent new_pc))
            (pbind (pgets nd_hotstuff) (\<lambda>h.
             pbind (read_store (\<lambda>s. rand (pc_is_correct P s new_pc) (safe_pc P s (hs_chain_id h) new_pc))) (\<lambda>good.
             pwhen good (pbind (process_justify P new_pc) (\<lambda>_. pret ()))))))))"

definition on_receive_new_view :: "prims \<Rightarrow> new_view \<Rightarrow> verifying_key \<Rightarrow> ('a, unit) handler" where
  "on_receive_new_view P nv origin =
     pthen (event_publish (ReceiveNewViewEvent origin nv))
     (pbind (pgets nd_hotstuff) (\<lambda>h.
      pbind (read_store (\<lambda>s. rand (pc_is_correct P s (nv_highest_pc nv)) (safe_pc P s (hs_chain_id h) (nv_highest_pc nv)))) (\<lambda>good.
      pwhen good (pbind (process_justify P (nv_highest_pc nv)) (\<lambda>_. pret ())))))"

definition accepts_proposal :: "prims \<Rightarrow> verifying_key \<Rightarrow> hotstuff \<Rightarrow> kv_store \<Rightarrow> bool res" where
  "accepts_proposal P origin h s =
     rbind (kv_validator_set_state P s) (\<lambda>vss.
     rand (is_proposer origin (vi_view (hs_view_info h)) vss)
       (Inr (\<not> (has_one_leader_proposed (hs_proposal_status h) origin
              \<or> have_all_leaders_proposed (hs_proposal_status h)))))"

definition hs_on_receive_msg ::
  "prims \<Rightarrow> 'a app_ops \<Rightarrow> hotstuff_message \<Rightarrow> verifying_key \<Rightarrow> ('a, unit) handler" where
  "hs_on_receive_msg P app msg origin = (case msg of
       ProposalMsg proposal \<Rightarrow>
         pbind (pread (\<lambda>n. accepts_proposal P origin (nd_hotstuff n) (nd_store n))) (\<lambda>ok.
         pwhen ok (on_receive_proposal P app proposal origin))
     | NudgeMsg nudge \<Rightarrow>
         pbind (pread (\<lambda>n. accepts_proposal P origin (nd_hotstuff n) (nd_store n))) (\<lambda>ok.
         pwhen ok (on_receive_nudge P nudge origin))
     | PhaseVoteMsg vote \<Rightarrow> on_receive_phase_vote P vote origin
     | NewViewMsg nv \<Rightarrow> on_receive_new_view P nv origin)"

section \<open>Every handler keeps a node relation\<close>

text \<open>Either nothing happens, or exactly one vote is sent and recorded, above the highest view voted in.\<close>

lemma vote_if_allowed_cases:
  obtains "snd (vote_if_allowed P pc vss block ph n) = n"
  | v k w m where "kv_highest_view_phase_voted P (nd_store n) = Inr w" "\<And>x. w = Some x \<Longrightarrow> x < pv_view v"
      "pv_view v = vi_view (hs_view_info (nd_hotstuff n))"
      "m = n\<lparr>nd_out := nd_out n @ [Send k (ProgressMessage (HotStuffMessage (PhaseVoteMsg v)))],
             nd_store := bt_set_highest_view_phase_voted P (pv_view v) (nd_store n)\<rparr>"
      "snd (vote_if_allowed P pc vss block ph n) = snd (event_publish (PhaseVoteEvent v) m)"
      "pv_block v = block" "ph = Inr (pv_phase v)"
proof -
  let ?h = "nd_hotstuff n" and ?s = "nd_store n"
  consider (no) "may_vote P pc vss ?h ?s \<noteq> Inr True" | (bad) e where "may_vote P pc vss ?h ?s = Inr True" "ph = Inl e"
    | (yes) vp where "may_vote P pc vss ?h ?s = Inr True" "ph = Inr vp" by (cases ph) auto
  then show thesis
  proof cases
    case no
    then show thesis
      by (intro that(1), cases "may_vote P pc vss ?h ?s") (auto simp: vote_if_allowed_def proc_defs)
  next
    case bad
    then show thesis by (intro that(1)) (simp add: vote_if_allowed_def proc_defs pure_res_def)
  next
    case yes
    define v where "v = phase_vote_new P (hs_keypair ?h) (hs_chain_id ?h) (vi_view (hs_view_info ?h)) block vp"
    have view: "pv_view v = vi_view (hs_view_info ?h)" and blk: "pv_block v = block" "ph = Inr (pv_phase v)"
      using yes(2) by (simp_all add: v_def phase_vote_new_def)
    from yes(1) obtain w where w: "kv_highest_view_phase_voted P ?s = Inr w" "\<And>x. w = Some x \<Longrightarrow> x < pv_view v"
      by (auto simp: may_vote_def rand_eq_True rbind_eq_Inr_iff view split: option.splits)
    have eq: "vote_if_allowed P pc vss block ph n = cast_vote P vss block vp n"
      using yes by (simp add: vote_if_allowed_def proc_defs pure_res_def)
    show thesis
    proof (cases "phase_vote_recipient v vss")
      case (Inl e)
      then have "snd (cast_vote P vss block vp n) = n"
        by (simp add: cast_vote_def Let_def pbind_def pgets_def pure_res_def pread_def flip: v_def)
      with eq show thesis by (intro that(1)) simp
    next
      case (Inr k)
      let ?m = "n\<lparr>nd_out := nd_out n @ [Send k (ProgressMessage (HotStuffMessage (PhaseVoteMsg v)))],
             nd_store := bt_set_highest_view_phase_voted P (pv_view v) ?s\<rparr>"
      have "cast_vote P vss block vp n = event_publish (PhaseVoteEvent v) ?m"
        using Inr by (simp add: cast_vote_def Let_def pbind_def pgets_def pure_res_def pread_def pthen_def
            send_hotstuff_def emit_def write_store_def pmodify_def view flip: v_def)
      with eq w view blk show thesis by (intro that(2) [of w v ?m k]) simp_all
    qed
  qed
qed

context node_base
begin

lemma keeps_send_hotstuff: "(\<And>v. m \<noteq> PhaseVoteMsg v) \<Longrightarrow> keeps R (send_hotstuff k m)"
  unfolding send_hotstuff_def by (cases m) (auto intro: keeps_emit)

lemma keeps_broadcast_hotstuff: "keeps R (broadcast_hotstuff m)"
  by (simp add: broadcast_hotstuff_def keeps_emit)

lemma keeps_stop_accepting: "keeps R (stop_accepting origin)"
  by (simp add: stop_accepting_def keeps_set_hotstuff)

lemma keeps_update_collectors: "keeps R (update_collectors vss)"
  by (simp add: update_collectors_def keeps_set_hotstuff)

lemma keeps_propose: "keeps R (propose P app)"
  unfolding propose_def propose_new_block_def broadcast_proposal_def
  by (intro keeps_steps keeps_broadcast_hotstuff)

lemma keeps_enter_view: "keeps R (hs_enter_view P app vi)"
  unfolding hs_enter_view_def by (intro keeps_steps keeps_send_hotstuff keeps_propose) simp_all

lemma keeps_collect_phase_vote: "keeps R (collect_phase_vote v signer)"
  by (rule keepsI) (auto simp: collect_phase_vote_def R_refl R_hotstuff split: sum.splits)

end

text \<open>Processing a justify and voting, from a state that quiet steps have led to.\<close>

lemma hoare_process_justify:
  assumes "\<And>n'. after s n n' \<Longrightarrow> F n'"
    and "\<And>r evs s' n'. bt_update P (nd_publisher n) pc s = Inr (r, evs, s') \<Longrightarrow> after s' n n' \<Longrightarrow> F n'"
  shows "hoare (after s n) (process_justify P pc)
    (\<lambda>_ n'. \<exists>r evs s'. bt_update P (nd_publisher n) pc s = Inr (r, evs, s') \<and> after s' n n') F"
proof -
  let ?Q = "\<lambda>n'. \<exists>r evs s'. bt_update P (nd_publisher n) pc s = Inr (r, evs, s') \<and> after s' n n'"
  have q: "hoare ?Q m (\<lambda>_. ?Q) F" if "keeps quiet m" for m :: "('a, 'r) handler"
    by (rule hoare_keeps [OF that]) (use after_quiet assms(2) in blast)+
  show ?thesis
    unfolding process_justify_def pthen_def
    by (intro hoare_pbind [OF hoare_update_block_tree] hoare_pbind [OF q] hoare_pret quiet_steps quiet_update_validator_set assms(1))
       (simp_all add: update_collectors_def quiet_steps)
qed

lemma hoare_vote_if_allowed:
  assumes "\<And>n'. after s n n' \<Longrightarrow> F n'"
    and "\<And>n1 n2 v e. quiet n n1 \<Longrightarrow> new_vote P s v \<Longrightarrow> effect_vote e = Some v \<Longrightarrow> pv_block v = block \<Longrightarrow> ph = Inr (pv_phase v) \<Longrightarrow>
      quiet (n1\<lparr>nd_out := nd_out n1 @ [e], nd_store := bt_set_highest_view_phase_voted P (pv_view v) s\<rparr>) n2 \<Longrightarrow> F n2"
  shows "hoare (after s n) (vote_if_allowed P pc vss block ph) (\<lambda>_. F) F"
proof -
  have "F (snd (vote_if_allowed P pc vss block ph n'))" if a: "after s n n'" for n'
  proof (cases rule: vote_if_allowed_cases [of P pc vss block ph n'])
    case 1
    with assms(1) a show ?thesis by simp
  next
    case (2 v k w m)
    let ?e = "Send k (ProgressMessage (HotStuffMessage (PhaseVoteMsg v)))" and ?n1 = "n'\<lparr>nd_store := nd_store n\<rparr>"
    have s: "nd_store n' = s" using after_store [OF a] by simp
    have "quiet n ?n1" using a by (simp add: after_def quiet_def)
    moreover have "new_vote P s v" using 2(1,2) s by (auto simp: new_vote_def)
    moreover have "quiet (?n1\<lparr>nd_out := nd_out ?n1 @ [?e], nd_store := bt_set_highest_view_phase_voted P (pv_view v) s\<rparr>)
        (snd (event_publish (PhaseVoteEvent v) m))"
      using keepsD [OF quiet_steps(2), of m "PhaseVoteEvent v"] 2(4) s by (simp add: quiet_def)
    ultimately show ?thesis unfolding 2(5) using assms(2) [of ?n1 v ?e] 2(6,7) by simp
  qed
  then show ?thesis by (fastforce simp: hoare_def split: prod.splits sum.splits)
qed

context checked_rel
begin

text \<open>Processing a certificate that was checked on the state before.\<close>

lemma hoare_checked_process:
  assumes "processable P (nd_store n) pc"
  shows "hoare (after (nd_store n) n) (process_justify P pc)
    (\<lambda>_ n'. \<exists>r evs s'. bt_update P (nd_publisher n) pc (nd_store n) = Inr (r, evs, s') \<and> after s' n n') (R n)"
  using R_after [OF R_process [OF assms]] R_quiet
  by (intro hoare_process_justify) (auto simp: after_def)

lemma hoare_checked: "hoare (after (nd_store n) n) (process_justify P pc) (\<lambda>_. R n) (R n)" if "processable P (nd_store n) pc"
  using R_after [OF R_process [OF that]] by (intro hoare_conseq [OF hoare_checked_process [OF that]]) auto

lemma keeps_check_process:
  "keeps R (pbind (read_store (\<lambda>s. rand (pc_is_correct P s pc) (safe_pc P s c pc))) (\<lambda>good.
     pwhen good (pbind (process_justify P pc) (\<lambda>_. pret ()))))"
proof (intro keeps_hoare hoare_start hoare_pbind [OF hoare_read_store] after_R hoare_assume)
  fix n :: "'a node" and good
  assume g: "rand (pc_is_correct P (nd_store n) pc) (safe_pc P (nd_store n) c pc) = Inr good"
  show "hoare (after (nd_store n) n) (pwhen good (pbind (process_justify P pc) (\<lambda>_. pret ()))) (\<lambda>_. R n) (R n)"
  proof (cases good)
    case True
    with g have "processable P (nd_store n) pc" by (auto simp: processable_def rand_eq_True)
    with True show ?thesis by (simp add: pwhen_def hoare_pbind [OF hoare_checked] hoare_pret)
  qed (simp add: pwhen_def hoare_pret after_R)
qed

lemma hoare_vote_R:
  assumes "R n (n\<lparr>nd_store := s\<rparr>)"
    and "\<And>n1 v e. nd_store n1 = nd_store n \<Longrightarrow> new_vote P s v \<Longrightarrow> effect_vote e = Some v \<Longrightarrow> pv_block v = block \<Longrightarrow>
      ph = Inr (pv_phase v) \<Longrightarrow> R n1 (n1\<lparr>nd_out := nd_out n1 @ [e], nd_store := bt_set_highest_view_phase_voted P (pv_view v) s\<rparr>)"
  shows "hoare (after s n) (vote_if_allowed P pc vss block ph) (\<lambda>_. R n) (R n)"
proof (rule hoare_vote_if_allowed)
  show "after s n n' \<Longrightarrow> R n n'" for n' by (rule R_after [OF assms(1)])
  fix n1 n2 v e
  assume q: "quiet n n1" and v: "new_vote P s v" "effect_vote e = Some v" "pv_block v = block" "ph = Inr (pv_phase v)"
    and q': "quiet (n1\<lparr>nd_out := nd_out n1 @ [e], nd_store := bt_set_highest_view_phase_voted P (pv_view v) s\<rparr>) n2"
  have "nd_store n1 = nd_store n" using q by (simp add: quiet_def)
  from assms(2) [OF this v] R_quiet [OF q] R_quiet [OF q'] show "R n n2" by (blast intro: R_trans)
qed

lemma quiet_stop_accepting: "keeps quiet (stop_accepting origin)"
  by (simp add: stop_accepting_def quiet_steps)

lemma hoare_stop_accepting: "hoare (after (nd_store n) n) (stop_accepting origin) (\<lambda>_. R n) (R n)"
  by (rule hoare_conseq [OF hoare_after [OF quiet_stop_accepting]]) (auto intro: after_R)

lemma keeps_on_receive_nudge: "keeps R (on_receive_nudge P nudge origin)"
  unfolding on_receive_nudge_def
proof (rule keeps_pthen [OF transpR keeps_publish keeps_pbind [OF transpR keeps_pgets [OF reflpR] keeps_hoare]],
    intro hoare_start hoare_pbind [OF hoare_read_store] after_R hoare_assume)
  fix n :: "'a node" and h good
  let ?pc = "n_justify nudge"
  let ?vote = "\<lambda>vss. vote_if_allowed P ?pc vss (pc_block ?pc) (nudge_vote_phase (pc_phase ?pc))"
  assume g: "rand (pc_is_correct P (nd_store n) ?pc) (safe_nudge P (nd_store n) (hs_chain_id h) (vi_view (hs_view_info h)) nudge) = Inr good"
  have "hoare (after (nd_store n) n) (pbind (process_justify P ?pc) (\<lambda>vss. pthen (?vote vss) (stop_accepting origin))) (\<lambda>_. R n) (R n)" if good
  proof -
    have ok: "processable P (nd_store n) ?pc" using g that by (auto simp: processable_def rand_eq_True safe_nudge_def)
    have "hoare (after s n) (?vote vss) (\<lambda>_. R n) (R n)"
      if u: "bt_update P (nd_publisher n) ?pc (nd_store n) = Inr (r, evs, s)" for vss r evs s
      using ok u by (intro hoare_vote_R R_process [OF ok u] R_nudge_vote) auto
    then have "hoare (\<lambda>n'. \<exists>r evs s'. bt_update P (nd_publisher n) ?pc (nd_store n) = Inr (r, evs, s') \<and> after s' n n')
        (pthen (?vote vss) (stop_accepting origin)) (\<lambda>_. R n) (R n)" for vss
      by (rule hoare_pthen [OF hoare_updated hoare_quiet_end [OF quiet_stop_accepting]])
    then show ?thesis by (rule hoare_pbind [OF hoare_checked_process [OF ok]])
  qed
  then show "hoare (after (nd_store n) n) (if \<not> good then stop_accepting origin
      else pbind (process_justify P ?pc) (\<lambda>vss. pthen (?vote vss) (stop_accepting origin))) (\<lambda>_. R n) (R n)"
    using hoare_stop_accepting by (intro hoare_if) simp_all
qed

text \<open>Accepting a block that was checked and validated on the state before: inserting it, processing its justify, and voting.\<close>

lemma hoare_checked_accept:
  assumes ok: "acceptable P app (nd_store n) b au vu"
  shows "hoare (after (nd_store n) n) (pthen (write_store (bt_insert P b au vu)) (pthen (event_publish (InsertBlockEvent b))
     (pbind (process_justify P (b_justify b)) (\<lambda>vss. vote_if_allowed P (b_justify b) vss (b_hash b)
        (Inr (if vu \<noteq> None then Prepare else Generic)))))) (\<lambda>_. R n) (R n)"
proof -
  let ?s = "bt_insert P b au vu (nd_store n)"
  have ins: "R n n'" if "after ?s n n'" for n' using R_after [OF R_accept_insert [OF ok] that] .
  have upd: "R n (n\<lparr>nd_store := s\<rparr>)" if "bt_update P pub (b_justify b) ?s = Inr (r, evs, s)" for pub r evs s
    by (rule R_accept_update [OF ok that])
  have "hoare (after s n) (vote_if_allowed P (b_justify b) vss (b_hash b) (Inr (if vu \<noteq> None then Prepare else Generic))) (\<lambda>_. R n) (R n)"
    if u: "bt_update P (nd_publisher n) (b_justify b) ?s = Inr (r, evs, s)" for vss r evs s
    using ok u by (intro hoare_vote_R upd [OF u] R_accept_vote) auto
  then show ?thesis
    by (intro hoare_pthen [OF hoare_write_after] hoare_pthen [OF hoare_after] quiet_steps hoare_pbind [OF hoare_process_justify] hoare_updated)
       (auto intro: ins R_after upd)
qed

lemma keeps_on_receive_proposal: "keeps R (on_receive_proposal P app p origin)"
  unfolding on_receive_proposal_def Let_def
proof (rule keeps_pthen [OF transpR keeps_publish keeps_pbind [OF transpR keeps_pgets [OF reflpR] keeps_hoare]],
    intro hoare_start hoare_pbind [OF hoare_read_store] after_R hoare_assume)
  fix n :: "'a node" and h good
  let ?b = "p_block p" and ?s = "nd_store n"
  let ?par = "if is_genesis_pc (b_justify ?b) then None else Some (pc_block (b_justify ?b))"
  let ?req = "\<lambda>view. \<lparr>vbq_proposed_block = ?b, vbq_block_tree_view = view\<rparr>"
  let ?accept = "\<lambda>response. case response of Invalid \<Rightarrow> pret ()
      | Valid au vu \<Rightarrow> pthen (write_store (bt_insert P ?b au vu)) (pthen (event_publish (InsertBlockEvent ?b))
          (pbind (process_justify P (b_justify ?b)) (\<lambda>vss. vote_if_allowed P (b_justify ?b) vss (b_hash ?b)
              (Inr (if vu \<noteq> None then Prepare else Generic)))))"
  assume g: "rand (block_is_correct P ?s ?b) (safe_block P ?s (hs_chain_id h) ?b) = Inr good"
  have acc: "hoare (after ?s n) (?accept response) (\<lambda>_. R n) (R n)"
    if "good" "bt_app_view P ?s ?par = Inr view" "\<exists>a. fst (app_validate_block app (?req view) a) = response" for response view
  proof (cases response)
    case (Valid au vu)
    then have "acceptable P app ?s ?b au vu"
      using g that by (auto simp: acceptable_def rand_eq_True validated_def parent_of_def)
    with Valid show ?thesis by (simp only: validate_block_response.case hoare_checked_accept)
  qed (simp add: hoare_pret after_R)
  show "hoare (after ?s n) (if \<not> good then stop_accepting origin
      else pbind (read_store (\<lambda>s. bt_app_view P s ?par)) (\<lambda>view.
        pbind (call_app (app_validate_block app (?req view))) (\<lambda>response.
        pthen (?accept response) (stop_accepting origin)))) (\<lambda>_. R n) (R n)"
  proof (intro hoare_if hoare_stop_accepting)
    assume "\<not> \<not> good"
    then show "hoare (after ?s n) (pbind (read_store (\<lambda>s. bt_app_view P s ?par)) (\<lambda>view.
        pbind (call_app (app_validate_block app (?req view))) (\<lambda>response.
        pthen (?accept response) (stop_accepting origin)))) (\<lambda>_. R n) (R n)"
      by (intro hoare_pbind [OF hoare_read_store] hoare_assume hoare_pbind [OF hoare_call_app] hoare_pthen [OF acc] hoare_quiet_end quiet_stop_accepting after_R)
         auto
  qed
qed

lemma keeps_hs_on_receive_msg: "keeps R (hs_on_receive_msg P app msg origin)"
proof (cases msg)
  case (ProposalMsg p)
  then show ?thesis by (simp add: hs_on_receive_msg_def) (intro keeps_steps keeps_on_receive_proposal)
next
  case (NudgeMsg p)
  then show ?thesis by (simp add: hs_on_receive_msg_def) (intro keeps_steps keeps_on_receive_nudge)
next
  case (PhaseVoteMsg v)
  then show ?thesis
    by (simp add: hs_on_receive_msg_def on_receive_phase_vote_def)
       (intro keeps_steps keeps_collect_phase_vote keeps_check_process)
next
  case (NewViewMsg nv)
  then show ?thesis
    by (simp add: hs_on_receive_msg_def on_receive_new_view_def) (intro keeps_steps keeps_check_process)
qed

end

end
