(* ===== verification/Pacemaker.thy ===== *)
theory Pacemaker
  imports Node
begin

text \<open>
  The pacemaker (\<^verbatim>\<open>pacemaker/implementation.rs\<close>): epochs and view timeouts, the clock tick, and the
  handlers of timeout votes and advance-view messages. Proved here: the timeouts always cover
  the rest of the epoch, so a view that is entered has a deadline; the view only moves forward;
  and a fallback timeout certificate can make a handler fail.
\<close>

section \<open>Epochs and timeouts\<close>

text \<open>
  The epoch-change views are the multiples of the epoch length \<open>N\<close>, view 0 included, and the epochs are \<open>[0]\<close>, \<open>[1..N]\<close>,
  \<open>[N+1..2N]\<close> and so on: each ends with its epoch-change view. This is what the code computes; the documentation of the
  module (\<^verbatim>\<open>pacemaker/mod.rs\<close>, lines 43 to 49) says that epochs are \<open>[0..N-1]\<close>, \<open>[N..2N-1]\<close> and that the epoch-change views are
  \<open>N-1\<close>, \<open>2N-1\<close> and so on.
\<close>

definition is_epoch_change_view :: "view_number \<Rightarrow> epoch_length \<Rightarrow> bool res" where
  "is_epoch_change_view view len =
     (if len = 0 then Inl (Panicked RemainderByZero) else Inr (view mod ucast len = 0))"

definition epoch :: "view_number \<Rightarrow> epoch_length \<Rightarrow> u64 res" where
  "epoch view len = (if len = 0 then Inl (Panicked RemainderByZero) else Inr (div_ceil view (ucast len)))"

text \<open>\<^verbatim>\<open>as_secs\<close>, which drops the fraction, and the product with the number of views, at 64 bits.\<close>

definition as_secs :: "duration \<Rightarrow> u64" where
  "as_secs d = of_nat (d div 10 ^ 9)"

definition time_to_view_deadline :: "duration \<Rightarrow> view_number \<Rightarrow> view_number \<Rightarrow> duration" where
  "time_to_view_deadline max_view_time start_view view = unat (as_secs max_view_time * (view - start_view + 1)) * 10 ^ 9"

definition insert_timeouts ::
  "duration \<Rightarrow> instant \<Rightarrow> view_number \<Rightarrow> view_number \<Rightarrow> (view_number \<Rightarrow> instant option)
     \<Rightarrow> (view_number \<Rightarrow> instant option) res" where
  "insert_timeouts max_view_time start_time start_view end_view m =
     rfold (\<lambda>v m. rbind (instant_add start_time (time_to_view_deadline max_view_time start_view (of_nat v))) (\<lambda>deadline.
         Inr (m(of_nat v \<mapsto> deadline))))
       [unat start_view..<Suc (unat end_view)] m"

definition epoch_change_view :: "view_number \<Rightarrow> epoch_length \<Rightarrow> view_number res" where
  "epoch_change_view view len = rbind (epoch view len) (\<lambda>e. Inr (e * ucast len))"

definition initial_timeouts :: "instant \<Rightarrow> view_number \<Rightarrow> epoch_length \<Rightarrow> duration \<Rightarrow> (view_number \<Rightarrow> instant option) res" where
  "initial_timeouts now start_view len max_view_time =
     rbind (epoch_change_view start_view len) (\<lambda>epoch_view.
     insert_timeouts max_view_time now start_view epoch_view Map.empty)"

text \<open>\<^verbatim>\<open>BTreeMap::split_off\<close> keeps the keys from the given one on.\<close>

definition split_off :: "(view_number \<Rightarrow> instant option) \<Rightarrow> view_number \<Rightarrow> view_number \<Rightarrow> instant option" where
  "split_off m k = (\<lambda>v. if k \<le> v then m v else None)"

definition update_timeouts :: "instant \<Rightarrow> view_number \<Rightarrow> pacemaker \<Rightarrow> pacemaker res" where
  "update_timeouts now epoch_start_view pk =
     (let timeouts = split_off (pk_timeouts pk) epoch_start_view in
      rbind (epoch_change_view epoch_start_view (pk_epoch_length pk)) (\<lambda>change_view.
      rbind (insert_timeouts (pk_max_view_time pk) now epoch_start_view change_view timeouts) (\<lambda>timeouts.
      Inr (pk\<lparr>pk_timeouts := timeouts\<rparr>))))"

definition extend_epoch_change_view_timeout :: "instant \<Rightarrow> view_number \<Rightarrow> pacemaker \<Rightarrow> pacemaker res" where
  "extend_epoch_change_view_timeout now view pk =
     rbind (instant_add now (pk_max_view_time pk)) (\<lambda>timeout.
     Inr (pk\<lparr>pk_timeouts := (pk_timeouts pk)(view \<mapsto> timeout)\<rparr>))"

section \<open>The pacemaker\<close>

definition pacemaker_new ::
  "instant \<Rightarrow> chain_id \<Rightarrow> signing_key \<Rightarrow> epoch_length \<Rightarrow> duration \<Rightarrow> view_number \<Rightarrow> validator_set_state \<Rightarrow> pacemaker res" where
  "pacemaker_new now chain_id keypair len max_view_time init_view vss =
     rbind (initial_timeouts now init_view len max_view_time) (\<lambda>timeouts.
     rbind (ok_or (timeouts init_view) (UpdateViewFault (GetViewTimeoutError init_view))) (\<lambda>timeout.
     Inr \<lparr>pk_chain_id = chain_id, pk_keypair = keypair, pk_epoch_length = len, pk_max_view_time = max_view_time,
          pk_timeouts = timeouts, pk_timeout_vote_collectors = acp_new tvc_ops chain_id init_view vss,
          pk_last_advance_view = None, pk_view_info = \<lparr>vi_view = init_view, vi_deadline = timeout\<rparr>\<rparr>))"

definition pacemaker_query :: "pacemaker \<Rightarrow> view_info" where
  "pacemaker_query pk = pk_view_info pk"

definition update_view :: "instant \<Rightarrow> view_number \<Rightarrow> validator_set_state \<Rightarrow> ('a, unit) handler" where
  "update_view now next_view vss =
     pbind (pgets nd_pacemaker) (\<lambda>pk.
     let cur_view = vi_view (pk_view_info pk) in
     if next_view \<le> cur_view then pfail (UpdateViewFault (NonIncreasingViewError cur_view next_view))
     else
       pbind (pure_res (epoch cur_view (pk_epoch_length pk))) (\<lambda>cur_epoch.
       pbind (pure_res (epoch next_view (pk_epoch_length pk))) (\<lambda>next_epoch.
       pthen (if cur_epoch \<noteq> next_epoch
              then try_set_pacemaker (update_timeouts now next_view)
              else pret ())
       (pbind (pgets nd_pacemaker) (\<lambda>pk.
        case pk_timeouts pk next_view of
          None \<Rightarrow> pfail (UpdateViewFault (GetViewTimeoutError next_view))
        | Some deadline \<Rightarrow>
            set_pacemaker (\<lambda>pk. pk\<lparr>pk_view_info := \<lparr>vi_view = next_view, vi_deadline = deadline\<rparr>,
              pk_timeout_vote_collectors := acp_new tvc_ops (pk_chain_id pk) next_view vss\<rparr>))))))"

definition extend_view :: "instant \<Rightarrow> ('a, unit) handler" where
  "extend_view now =
     pbind (pgets nd_pacemaker) (\<lambda>pk.
     let cur_view = vi_view (pk_view_info pk) in
     pbind (pure_res (is_epoch_change_view cur_view (pk_epoch_length pk))) (\<lambda>change.
     if \<not> change then pfail (ExtendViewFault (TriedToExtendNonEpochView cur_view))
     else
       pthen (try_set_pacemaker (extend_epoch_change_view_timeout now cur_view))
       (pbind (pgets nd_pacemaker) (\<lambda>pk.
        case pk_timeouts pk cur_view of
          None \<Rightarrow> pfail (ExtendViewFault (ExtendGetViewTimeoutError cur_view))
        | Some t \<Rightarrow> set_pacemaker (\<lambda>pk. pk\<lparr>pk_view_info := (pk_view_info pk)\<lparr>vi_deadline := t\<rparr>\<rparr>)))))"

definition not_advanced_yet :: "pacemaker \<Rightarrow> bool" where
  "not_advanced_yet pk \<longleftrightarrow> (case pk_last_advance_view pk of None \<Rightarrow> True | Some v \<Rightarrow> v < vi_view (pk_view_info pk))"

definition broadcast_advance_view :: "advance_view \<Rightarrow> ('a, unit) handler" where
  "broadcast_advance_view av =
     pthen (broadcast_pacemaker (AdvanceViewMsg av))
     (pthen (event_publish (AdvanceViewEvent av))
      (set_pacemaker (\<lambda>pk. pk\<lparr>pk_last_advance_view := Some (vi_view (pk_view_info pk))\<rparr>)))"

definition tick_timeout :: "prims \<Rightarrow> instant \<Rightarrow> validator_set_state \<Rightarrow> ('a, unit) handler" where
  "tick_timeout P now vss =
     pbind (pgets nd_pacemaker) (\<lambda>pk.
     let cur_view = vi_view (pk_view_info pk) in
     pthen (event_publish (ViewTimeoutEvent cur_view))
     (pbind (pure_res (is_epoch_change_view cur_view (pk_epoch_length pk))) (\<lambda>change.
      if change then
        pthen (if is_validator (keypair_public P (pk_keypair pk)) vss
               then pbind (read_store (kv_highest_tc P)) (\<lambda>tc.
                    let vote = timeout_vote_new P (pk_keypair pk) (pk_chain_id pk) cur_view tc in
                    pthen (broadcast_pacemaker (TimeoutVoteMsg vote)) (event_publish (TimeoutVoteEvent vote)))
               else pret ())
        (extend_view now)
      else update_view now (cur_view + 1) vss)))"

definition pm_tick :: "prims \<Rightarrow> (nat \<Rightarrow> instant) \<Rightarrow> ('a, unit) handler" where
  "pm_tick P now =
     pbind (read_store (kv_validator_set_state P)) (\<lambda>vss.
     pbind (pgets nd_pacemaker) (\<lambda>pk.
     if now 0 > vi_deadline (pk_view_info pk) then tick_timeout P (now 1) vss
     else
       pthen (set_pacemaker (\<lambda>pk. pk\<lparr>pk_timeout_vote_collectors :=
                snd (acp_update_validator_sets tvc_ops (pk_timeout_vote_collectors pk) vss)\<rparr>))
       (pbind (read_store (kv_highest_pc P)) (\<lambda>highest_pc.
        pwhen (pc_view highest_pc \<ge> vi_view (pk_view_info pk) \<and> \<not> is_genesis_pc highest_pc
               \<and> is_validator (keypair_public P (pk_keypair pk)) vss \<and> not_advanced_yet pk)
          (broadcast_advance_view \<lparr>av_progress_certificate = PhaseCertificate highest_pc\<rparr>)))))"

text \<open>The test both handlers make before they replace the highest TC.\<close>

definition tc_is_higher :: "prims \<Rightarrow> timeout_certificate \<Rightarrow> kv_store \<Rightarrow> bool res" where
  "tc_is_higher P tc s = rbind (kv_highest_tc P s) (\<lambda>old. Inr (case old of None \<Rightarrow> True | Some t \<Rightarrow> tc_view tc > tc_view t))"

definition set_highest_tc :: "prims \<Rightarrow> timeout_certificate \<Rightarrow> ('a, unit) handler" where
  "set_highest_tc P tc = pthen (write_store (bt_set_highest_tc P tc)) (event_publish (UpdateHighestTCEvent tc))"

definition collect_timeout_vote :: "timeout_vote \<Rightarrow> verifying_key \<Rightarrow> ('a, timeout_certificate option) handler" where
  "collect_timeout_vote v signer = (\<lambda>n.
     case acp_collect tvc_ops (pk_timeout_vote_collectors (nd_pacemaker n)) signer v of
       Inl e \<Rightarrow> (Inl e, n)
     | Inr (r, a) \<Rightarrow> (Inr r, n\<lparr>nd_pacemaker := (nd_pacemaker n)\<lparr>pk_timeout_vote_collectors := a\<rparr>\<rparr>))"

text \<open>
  Step 3.2 tests \<^verbatim>\<open>is_validator && last.is_none() || last.is_some_and(..)\<close>: without parentheses the
  second disjunct does not ask whether this replica is a validator.
\<close>

definition on_new_tc :: "prims \<Rightarrow> validator_set_state \<Rightarrow> timeout_certificate \<Rightarrow> ('a, unit) handler" where
  "on_new_tc P vss new_tc =
     pthen (event_publish (CollectTCEvent new_tc))
     (pbind (read_store (tc_is_higher P new_tc)) (\<lambda>higher.
      pwhen higher
        (pthen (set_highest_tc P new_tc)
        (pbind (pgets nd_pacemaker) (\<lambda>pk.
         pwhen ((is_validator (keypair_public P (pk_keypair pk)) vss \<and> pk_last_advance_view pk = None)
                \<or> (case pk_last_advance_view pk of None \<Rightarrow> False | Some v \<Rightarrow> v < vi_view (pk_view_info pk)))
           (broadcast_advance_view \<lparr>av_progress_certificate = TimeoutCertificate new_tc\<rparr>))))))"

definition on_fallback_tc :: "prims \<Rightarrow> instant \<Rightarrow> validator_set_state \<Rightarrow> timeout_certificate \<Rightarrow> ('a, unit) handler" where
  "on_fallback_tc P now vss tc =
     pbind (read_store (tc_is_higher P tc)) (\<lambda>higher.
     pwhen higher (pthen (set_highest_tc P tc) (update_view now (tc_view tc + 1) vss)))"

definition on_receive_timeout_vote :: "prims \<Rightarrow> instant \<Rightarrow> timeout_vote \<Rightarrow> verifying_key \<Rightarrow> ('a, unit) handler" where
  "on_receive_timeout_vote P now v origin =
     pthen (event_publish (ReceiveTimeoutVoteEvent origin v))
     (pbind (read_store (kv_validator_set_state P)) (\<lambda>vss.
      pwhen (is_validator origin vss)
       (pbind (pgets nd_pacemaker) (\<lambda>pk.
        pbind (pure_res (rand (Inr (timeout_vote_is_correct P origin v)) (is_epoch_change_view (tv_view v) (pk_epoch_length pk)))) (\<lambda>good.
        pwhen good
         (pbind (case tv_highest_tc v of None \<Rightarrow> pret None
                 | Some tc \<Rightarrow> pbind (read_store (\<lambda>s. tc_is_correct P s tc)) (\<lambda>ok. pret (if ok then Some tc else None))) (\<lambda>fallback_tc.
          pbind (collect_timeout_vote v origin) (\<lambda>collected.
          case collected of
            Some new_tc \<Rightarrow> on_new_tc P vss new_tc
          | None \<Rightarrow> (case fallback_tc of None \<Rightarrow> pret () | Some tc \<Rightarrow> on_fallback_tc P now vss tc)))))))))"

definition progress_certificate_valid :: "prims \<Rightarrow> epoch_length \<Rightarrow> progress_certificate \<Rightarrow> kv_store \<Rightarrow> bool res" where
  "progress_certificate_valid P len c s = (case c of
       PhaseCertificate pc \<Rightarrow> pc_is_correct P s pc
     | TimeoutCertificate tc \<Rightarrow> rand (tc_is_correct P s tc) (is_epoch_change_view (tc_view tc) len))"

definition record_higher_tc :: "prims \<Rightarrow> progress_certificate \<Rightarrow> ('a, unit) handler" where
  "record_higher_tc P c = (case c of
       PhaseCertificate _ \<Rightarrow> pret ()
     | TimeoutCertificate tc \<Rightarrow> pbind (read_store (tc_is_higher P tc)) (\<lambda>higher. pwhen higher (set_highest_tc P tc)))"

definition on_receive_advance_view :: "prims \<Rightarrow> instant \<Rightarrow> advance_view \<Rightarrow> verifying_key \<Rightarrow> ('a, unit) handler" where
  "on_receive_advance_view P now av origin =
     pthen (event_publish (ReceiveAdvanceViewEvent origin av))
     (pbind (read_store (kv_validator_set_state P)) (\<lambda>vss.
      pwhen (is_validator origin vss)
       (pbind (pgets nd_pacemaker) (\<lambda>pk.
        let certificate = av_progress_certificate av in
        pbind (read_store (progress_certificate_valid P (pk_epoch_length pk) certificate)) (\<lambda>valid.
        pwhen valid
         (pthen (record_higher_tc P certificate)
         (pbind (read_store (kv_validator_set_state P)) (\<lambda>vss'.
          pbind (pgets nd_pacemaker) (\<lambda>pk.
          pthen (pwhen (is_validator (keypair_public P (pk_keypair pk)) vss' \<and> not_advanced_yet pk)
                  (broadcast_advance_view av))
          (update_view now (prc_view certificate + 1) vss))))))))))"

definition pm_on_receive_msg :: "prims \<Rightarrow> instant \<Rightarrow> pacemaker_message \<Rightarrow> verifying_key \<Rightarrow> ('a, unit) handler" where
  "pm_on_receive_msg P now msg origin = (case msg of
       TimeoutVoteMsg v \<Rightarrow> on_receive_timeout_vote P now v origin
     | AdvanceViewMsg av \<Rightarrow> on_receive_advance_view P now av origin)"

text \<open>Which views are epoch-change views: 0 and the epoch length \<open>N\<close>, but not the view \<open>N-1\<close> that the documentation names.\<close>

lemma epoch_change_views:
  assumes "len \<noteq> 0"
  shows "is_epoch_change_view 0 len = Inr True" "is_epoch_change_view (ucast len) len = Inr True"
    "1 < len \<Longrightarrow> is_epoch_change_view (ucast len - 1) len = Inr False"
proof -
  show "is_epoch_change_view 0 len = Inr True" "is_epoch_change_view (ucast len) len = Inr True"
    using assms by (simp_all add: is_epoch_change_view_def)
  assume "1 < len"
  then have l: "1 < unat len" by (simp add: word_less_nat_alt)
  have u: "unat (ucast len :: u64) = unat len"
    using unsigned_less [of len, where 'a = nat] by (simp add: unsigned_ucast_eq take_bit_nat_eq_self)
  with l have d: "unat (ucast len - 1 :: u64) = unat len - 1" by (simp add: unat_sub word_le_nat_alt)
  have "unat ((ucast len - 1 :: u64) mod ucast len) = unat len - 1" using l by (simp add: unat_mod d u)
  with l have "(ucast len - 1 :: u64) mod ucast len \<noteq> 0" by (intro notI) simp
  with assms show "is_epoch_change_view (ucast len - 1) len = Inr False" by (simp add: is_epoch_change_view_def)
qed

section \<open>The handlers keep every pacemaker relation\<close>

text \<open>Whatever \<^verbatim>\<open>update_view\<close> does, only the pacemaker changes, and its view does not fall.\<close>

lemma update_view_cases:
  obtains pk where "snd (update_view now v vss n) = n\<lparr>nd_pacemaker := pk\<rparr>" "pk_step (nd_pacemaker n) pk"
proof -
  have "\<exists>pk. snd (update_view now v vss n) = n\<lparr>nd_pacemaker := pk\<rparr> \<and> pk_step (nd_pacemaker n) pk"
  proof (cases "v \<le> vi_view (pk_view_info (nd_pacemaker n))")
    case True
    then show ?thesis
      by (intro exI [of _ "nd_pacemaker n"]) (simp add: update_view_def pbind_def pgets_def pfail_def Let_def pk_step_def)
  next
    case False
    then show ?thesis
      by (auto simp: update_view_def pbind_def pgets_def pthen_def pret_def pfail_def pure_res_def pread_def set_pacemaker_def
          try_set_pacemaker_def pmodify_def Let_def pk_step_def update_timeouts_def rbind_def split: sum.splits option.splits
          intro: exI [of _ "nd_pacemaker n"])
  qed
  with that show thesis by blast
qed

context pacemaker_base
begin

lemmas pk_steps = keeps_steps keeps_pfail [OF reflpR] keeps_set_pacemaker keeps_try_set_pacemaker keeps_tc keeps_broadcast_pacemaker

lemma keeps_update_view: "keeps R (update_view now v vss)"
proof (rule keepsI)
  fix n :: "'a node"
  show "R n (snd (update_view now v vss n))"
  proof (cases rule: update_view_cases [of now v vss n])
    case (1 pk)
    then show ?thesis by (simp add: R_pacemaker)
  qed
qed

lemma keeps_extend_view: "keeps R (extend_view now)"
  unfolding extend_view_def
  by (intro pk_steps) (auto simp: pk_step_def extend_epoch_change_view_timeout_def rbind_eq_Inr_iff)

lemma keeps_broadcast_advance_view: "keeps R (broadcast_advance_view av)"
  unfolding broadcast_advance_view_def by (intro pk_steps) (simp add: pk_step_def)

lemma keeps_pm_tick: "keeps R (pm_tick P now)"
  unfolding pm_tick_def tick_timeout_def
  by (intro pk_steps keeps_update_view keeps_extend_view keeps_broadcast_advance_view) (simp add: pk_step_def)

lemma keeps_collect_timeout_vote: "keeps R (collect_timeout_vote v signer)"
  by (rule keepsI) (auto simp: collect_timeout_vote_def R_refl R_pacemaker pk_step_def split: sum.splits)

lemma keeps_set_highest_tc: "keeps R (set_highest_tc P tc)"
  unfolding set_highest_tc_def by (intro pk_steps)

lemma keeps_on_receive_timeout_vote: "keeps R (on_receive_timeout_vote P now v origin)"
  unfolding on_receive_timeout_vote_def on_new_tc_def on_fallback_tc_def
  by (intro pk_steps keeps_collect_timeout_vote keeps_set_highest_tc keeps_broadcast_advance_view keeps_update_view)

lemma keeps_record_higher_tc: "keeps R (record_higher_tc P c)"
  unfolding record_higher_tc_def
  by (cases c) (simp_all only: progress_certificate.case, (intro pk_steps keeps_set_highest_tc)+)

lemma keeps_on_receive_advance_view: "keeps R (on_receive_advance_view P now av origin)"
  unfolding on_receive_advance_view_def
  by (intro pk_steps keeps_record_higher_tc keeps_broadcast_advance_view keeps_update_view)

lemma keeps_pm_on_receive_msg: "keeps R (pm_on_receive_msg P now msg origin)"
  by (cases msg) (simp_all add: pm_on_receive_msg_def keeps_on_receive_timeout_vote keeps_on_receive_advance_view)

end

section \<open>Timeouts cover the epoch\<close>

text \<open>The last view of the epoch that a view is in, as a natural number.\<close>

definition epoch_end :: "nat \<Rightarrow> nat \<Rightarrow> nat" where
  "epoch_end len v = (v + len - 1) div len * len"

lemma epoch_end_ge: "0 < len \<Longrightarrow> v \<le> epoch_end len v"
proof -
  assume "0 < len"
  then have "(v + len - 1) mod len < len" by simp
  then have "v + len - 1 < (v + len - 1) div len * len + len"
    using div_mult_mod_eq [of "v + len - 1" len] by linarith
  then show ?thesis unfolding epoch_end_def by linarith
qed

lemma unat_ucast_epoch_length: "unat (ucast (len :: epoch_length) :: u64) = unat len"
  using unsigned_less [of len, where 'a = nat] by (simp add: unsigned_ucast_eq take_bit_nat_eq_self)

lemma unat_div_ceil:
  assumes "(b :: u64) \<noteq> 0"
  shows "unat (div_ceil a b) = (unat a + unat b - 1) div unat b"
proof -
  have b: "0 < unat b" using assms by (simp add: unat_gt_0)
  have up: "unat a div unat b + 1 < 2 ^ 64" if "unat a mod unat b \<noteq> 0"
  proof -
    from that have "1 < unat b" using b by (cases "unat b = 1") auto
    moreover have "unat a < 2 ^ 64" using unsigned_less [of a, where 'a = nat] by simp
    ultimately have "unat a div unat b < 2 ^ 63" by (simp add: div_less_iff_less_mult)
    then show ?thesis by simp
  qed
  show ?thesis
  proof (cases "unat a mod unat b = 0")
    case True
    then obtain k where k: "unat a = unat b * k" by auto
    then have "(unat a + unat b - 1) div unat b = k"
      using b by (intro div_nat_eqI) (simp_all add: algebra_simps)
    moreover have "a mod b = 0" using True by (simp add: word_unat_eq_iff unat_mod)
    ultimately show ?thesis using k b by (simp add: div_ceil_def unat_div)
  next
    case False
    define q r where "q = unat a div unat b" and "r = unat a mod unat b"
    have a: "unat a = unat b * q + r" unfolding q_def r_def by simp
    have r: "0 < r" "r < unat b" using False b by (simp_all add: r_def)
    have "(unat a + unat b - 1) div unat b = q + 1"
      using a r by (intro div_nat_eqI) (simp_all add: distrib_left)
    then have "(unat a + unat b - 1) div unat b = unat a div unat b + 1" by (simp add: q_def)
    moreover have "a mod b \<noteq> 0" using False by (simp add: word_unat_eq_iff unat_mod)
    ultimately show ?thesis using up [OF False] by (simp add: div_ceil_def unat_word_ariths unat_div)
  qed
qed

lemma epoch_change_view_value:
  assumes "len \<noteq> 0" and "epoch_end (unat len) (unat v) < 2 ^ 64"
  obtains c where "epoch_change_view v len = Inr c" "unat c = epoch_end (unat len) (unat v)"
proof -
  have l: "(ucast len :: u64) \<noteq> 0" using assms(1) unat_ucast_epoch_length [of len] by (metis unat_eq_zero unsigned_0)
  have "unat (div_ceil v (ucast len) * ucast len :: u64) = epoch_end (unat len) (unat v)"
    using assms(2) by (simp add: unat_word_ariths unat_div_ceil [OF l] unat_ucast_epoch_length epoch_end_def)
  with assms(1) that show thesis by (simp add: epoch_change_view_def epoch_def)
qed

lemma fold_upd_nats:
  fixes g :: "nat \<Rightarrow> instant" and m :: "view_number \<Rightarrow> instant option"
  assumes "j \<le> 2 ^ 64"
  shows "fold (\<lambda>v m. m(of_nat v \<mapsto> g v)) [i..<j] m w =
    (if i \<le> unat w \<and> unat w < j then Some (g (unat w)) else m w)"
  using assms
proof (induction j)
  case (Suc j)
  show ?case
  proof (cases "i \<le> j")
    case False
    then show ?thesis by auto
  next
    case True
    have j: "unat (of_nat j :: view_number) = j" using Suc.prems by (simp add: unat_of_nat take_bit_nat_eq_self)
    show ?thesis
      using Suc True j by (auto simp: less_Suc_eq)
  qed
qed simp

lemma insert_timeouts_run:
  assumes "\<And>w. a \<le> w \<Longrightarrow> w \<le> b \<Longrightarrow> t + time_to_view_deadline mvt a w < instant_limit"
  obtains m' where "insert_timeouts mvt t a b m = Inr m'"
    "\<And>w. m' w = (if a \<le> w \<and> w \<le> b then Some (t + time_to_view_deadline mvt a w) else m w)"
proof -
  let ?g = "\<lambda>v. t + time_to_view_deadline mvt a (of_nat v)" and ?vs = "[unat a..<Suc (unat b)]"
  have b: "Suc (unat b) \<le> 2 ^ 64" using unsigned_less [of b, where 'a = nat] by simp
  have "?g v < instant_limit" if "v \<in> set ?vs" for v
  proof -
    from that b have "v < 2 ^ 64" by (simp del: upt_Suc)
    then have "unat (of_nat v :: view_number) = v" by (simp add: unat_of_nat take_bit_nat_eq_self)
    with that show ?thesis by (intro assms) (auto simp: word_le_nat_alt simp del: upt_Suc)
  qed
  then have "insert_timeouts mvt t a b m = Inr (fold (\<lambda>v m. m(of_nat v \<mapsto> ?g v)) ?vs m)"
    unfolding insert_timeouts_def by (intro rfold_total) (simp add: instant_add_def del: upt_Suc)
  moreover have "fold (\<lambda>v m. m(of_nat v \<mapsto> ?g v)) ?vs m w = (if a \<le> w \<and> w \<le> b then Some (t + time_to_view_deadline mvt a w) else m w)" for w
    using fold_upd_nats [OF b, of ?g "unat a" m w] by (simp add: word_le_nat_alt less_Suc_eq_le del: upt_Suc)
  ultimately show thesis by (rule that)
qed

text \<open>The clock is far enough from the last instant for the timeouts of a whole epoch.\<close>

definition clock_in_range :: "instant \<Rightarrow> epoch_length \<Rightarrow> duration \<Rightarrow> bool" where
  "clock_in_range now len max_view_time \<longleftrightarrow> now + unat len * max_view_time < instant_limit"

lemma clock_in_range_extend: "clock_in_range now len mvt \<Longrightarrow> len \<noteq> 0 \<Longrightarrow> now + mvt < instant_limit"
proof -
  assume c: "clock_in_range now len mvt" and "len \<noteq> 0"
  then have "1 \<le> unat len" by (simp add: unat_gt_0 Suc_le_eq)
  from mult_le_mono1 [OF this, of mvt] have "mvt \<le> unat len * mvt" by simp
  with c show ?thesis unfolding clock_in_range_def by linarith
qed

lemma time_to_view_deadline_le:
  assumes "a \<le> v" and "unat v < unat a + n"
  shows "time_to_view_deadline mvt a v \<le> n * mvt"
proof -
  have d: "unat (v - a) = unat v - unat a" using assms(1) by (simp add: unat_sub word_le_nat_alt)
  have s: "unat (as_secs mvt) \<le> mvt div 10 ^ 9" by (simp add: as_secs_def unat_of_nat)
  have "unat (v - a + 1) \<le> unat (v - a) + 1" by (simp add: unat_word_ariths)
  with d assms(2) have "unat (v - a + 1) \<le> n" using assms(1) [unfolded word_le_nat_alt] by linarith
  moreover have "unat (as_secs mvt * (v - a + 1)) \<le> unat (as_secs mvt) * unat (v - a + 1)" by (simp add: unat_word_ariths)
  ultimately have "unat (as_secs mvt * (v - a + 1)) \<le> mvt div 10 ^ 9 * n" using s by (meson mult_le_mono order_trans)
  then have "unat (as_secs mvt * (v - a + 1)) * 10 ^ 9 \<le> mvt div 10 ^ 9 * n * 10 ^ 9" by simp
  also have "\<dots> \<le> n * mvt" by (metis div_times_less_eq_dividend mult.assoc mult.commute mult_le_mono2)
  finally show ?thesis by (simp add: time_to_view_deadline_def)
qed

lemma epoch_end_less: "0 < len \<Longrightarrow> epoch_end len v < v + len"
  unfolding epoch_end_def using div_times_less_eq_dividend [of "v + len - 1" len] by linarith

lemma epoch_timeouts:
  assumes "len \<noteq> 0" and "epoch_end (unat len) (unat v) < 2 ^ 64" and "clock_in_range now len mvt"
  obtains c m' where "epoch_change_view v len = Inr c" "unat c = epoch_end (unat len) (unat v)"
    "insert_timeouts mvt now v c m = Inr m'" "\<And>w. v \<le> w \<Longrightarrow> w \<le> c \<Longrightarrow> m' w \<noteq> None"
proof -
  obtain c where c: "epoch_change_view v len = Inr c" "unat c = epoch_end (unat len) (unat v)"
    using epoch_change_view_value [OF assms(1,2)] .
  have "0 < unat len" using assms(1) by (simp add: unat_gt_0)
  note e = epoch_end_less [OF this, of "unat v"]
  have "now + time_to_view_deadline mvt v w < instant_limit" if "v \<le> w" "w \<le> c" for w
  proof -
    have "time_to_view_deadline mvt v w \<le> unat len * mvt"
      by (rule time_to_view_deadline_le [OF that(1)]) (use that(2) e in \<open>simp add: c word_le_nat_alt\<close>)
    with assms(3) show ?thesis by (simp add: clock_in_range_def)
  qed
  from insert_timeouts_run [of v c now mvt m, OF this] obtain m' where "insert_timeouts mvt now v c m = Inr m'"
    "\<And>w. m' w = (if v \<le> w \<and> w \<le> c then Some (now + time_to_view_deadline mvt v w) else m w)" by blast
  with c that show thesis by simp
qed

text \<open>Every view from the current one to the end of its epoch has a timeout.\<close>

definition pk_ok :: "pacemaker \<Rightarrow> bool" where
  "pk_ok pk \<longleftrightarrow> pk_epoch_length pk \<noteq> 0 \<and>
     (\<forall>v. vi_view (pk_view_info pk) \<le> v \<longrightarrow> unat v \<le> epoch_end (unat (pk_epoch_length pk)) (unat (vi_view (pk_view_info pk))) \<longrightarrow>
        pk_timeouts pk v \<noteq> None)"

lemma pacemaker_new_ok:
  assumes "len \<noteq> 0" and "epoch_end (unat len) (unat init_view) < 2 ^ 64" and "clock_in_range now len mvt"
  obtains pk where "pacemaker_new now chain_id keypair len mvt init_view vss = Inr pk" "pk_ok pk"
    "vi_view (pk_view_info pk) = init_view"
proof -
  obtain c m where c: "epoch_change_view init_view len = Inr c" "unat c = epoch_end (unat len) (unat init_view)"
    and m: "insert_timeouts mvt now init_view c Map.empty = Inr m" "\<And>w. init_view \<le> w \<Longrightarrow> w \<le> c \<Longrightarrow> m w \<noteq> None"
    using epoch_timeouts [OF assms, where m = Map.empty] by metis
  have "init_view \<le> c" using c(2) epoch_end_ge [of "unat len" "unat init_view"] assms(1)
    by (simp add: word_le_nat_alt unat_gt_0)
  with m(2) obtain d where d: "m init_view = Some d" by blast
  let ?pk = "\<lparr>pk_chain_id = chain_id, pk_keypair = keypair, pk_epoch_length = len, pk_max_view_time = mvt,
          pk_timeouts = m, pk_timeout_vote_collectors = acp_new tvc_ops chain_id init_view vss,
          pk_last_advance_view = None, pk_view_info = \<lparr>vi_view = init_view, vi_deadline = d\<rparr>\<rparr>"
  have "pacemaker_new now chain_id keypair len mvt init_view vss = Inr ?pk"
    using c(1) m(1) d by (simp add: pacemaker_new_def initial_timeouts_def ok_or_def)
  moreover have "pk_ok ?pk" using assms(1) c(2) m(2) by (simp add: pk_ok_def word_le_nat_alt)
  ultimately show thesis using that by simp
qed

lemma epoch_same:
  assumes "len \<noteq> 0" and "epoch a len = epoch b len"
  shows "epoch_end (unat len) (unat a) = epoch_end (unat len) (unat b)"
proof -
  have l: "(ucast len :: u64) \<noteq> 0" using assms(1) unat_ucast_epoch_length [of len] by (metis unat_eq_zero unsigned_0)
  from assms have "unat (div_ceil a (ucast len)) = unat (div_ceil b (ucast len))" by (simp add: epoch_def)
  then show ?thesis by (simp add: unat_div_ceil [OF l] unat_ucast_epoch_length epoch_end_def)
qed

lemma update_view_ok:
  assumes ok: "pk_ok (nd_pacemaker n)" and gt: "next_view > vi_view (pk_view_info (nd_pacemaker n))"
    and nowrap: "epoch_end (unat (pk_epoch_length (nd_pacemaker n))) (unat next_view) < 2 ^ 64"
    and clock: "clock_in_range now (pk_epoch_length (nd_pacemaker n)) (pk_max_view_time (nd_pacemaker n))"
  obtains pk where "update_view now next_view vss n = (Inr (), n\<lparr>nd_pacemaker := pk\<rparr>)" "pk_ok pk"
    "vi_view (pk_view_info pk) = next_view" "pk_timeouts pk next_view = Some (vi_deadline (pk_view_info pk))"
    "pk_timeout_vote_collectors pk = acp_new tvc_ops (pk_chain_id (nd_pacemaker n)) next_view vss"
proof -
  let ?pk = "nd_pacemaker n" and ?len = "pk_epoch_length (nd_pacemaker n)"
  have len: "?len \<noteq> 0" using ok by (simp add: pk_ok_def)
  obtain c m where c: "epoch_change_view next_view ?len = Inr c" "unat c = epoch_end (unat ?len) (unat next_view)"
    and m: "insert_timeouts (pk_max_view_time ?pk) now next_view c (split_off (pk_timeouts ?pk) next_view) = Inr m"
    "\<And>w. next_view \<le> w \<Longrightarrow> w \<le> c \<Longrightarrow> m w \<noteq> None"
    using epoch_timeouts [OF len nowrap clock, where m = "split_off (pk_timeouts ?pk) next_view"] by metis
  have e: "unat next_view \<le> epoch_end (unat ?len) (unat next_view)" using len by (simp add: epoch_end_ge unat_gt_0)
  define pk1 where "pk1 = (if epoch (vi_view (pk_view_info ?pk)) ?len \<noteq> epoch next_view ?len
    then ?pk\<lparr>pk_timeouts := m\<rparr> else ?pk)"
  have cov: "pk_timeouts pk1 v \<noteq> None" if "next_view \<le> v" "unat v \<le> epoch_end (unat ?len) (unat next_view)" for v
  proof (cases "epoch (vi_view (pk_view_info ?pk)) ?len = epoch next_view ?len")
    case True
    have "vi_view (pk_view_info ?pk) \<le> v" using gt that(1) by simp
    with True ok that(2) epoch_same [OF len True] show ?thesis by (simp add: pk1_def pk_ok_def)
  next
    case False
    with that c(2) m(2) show ?thesis by (simp add: pk1_def word_le_nat_alt)
  qed
  obtain d where d: "pk_timeouts pk1 next_view = Some d" using cov [of next_view] e by auto
  have same: "pk_epoch_length pk1 = ?len" "pk_chain_id pk1 = pk_chain_id ?pk" by (simp_all add: pk1_def)
  let ?pk2 = "pk1\<lparr>pk_view_info := \<lparr>vi_view = next_view, vi_deadline = d\<rparr>,
      pk_timeout_vote_collectors := acp_new tvc_ops (pk_chain_id pk1) next_view vss\<rparr>"
  have "update_view now next_view vss n = (Inr (), n\<lparr>nd_pacemaker := ?pk2\<rparr>)"
    using gt c(1) d len m(1)
    by (auto simp: update_view_def pbind_def pgets_def pure_res_def pread_def pthen_def pret_def set_pacemaker_def try_set_pacemaker_def pmodify_def
        Let_def update_timeouts_def epoch_def pk1_def split: if_splits)
  moreover have "pk_ok ?pk2" using cov same len by (simp add: pk_ok_def)
  ultimately show thesis by (rule that [of ?pk2]) (simp_all add: d same)
qed

section \<open>Timeouts and certificates move the view\<close>

lemmas handler_run = pbind_def pgets_def pthen_def pret_def pfail_def pure_res_def pread_def pmodify_def pwhen_def
  read_store_def write_store_def set_pacemaker_def try_set_pacemaker_def event_publish_def broadcast_pacemaker_def emit_def

lemma publish_run:
  "pthen (event_publish e) m n = m (n\<lparr>nd_out := nd_out n @ (if nd_publisher n then [Published e] else [])\<rparr>)"
  by (simp add: pthen_def pbind_def event_publish_def pmodify_def)

text \<open>
  C24. What a timeout does. When the deadline of the current view has passed and the view is not an epoch-change view,
  \<^verbatim>\<open>tick\<close> enters exactly the next view, with a deadline, without any message from others. In an epoch-change view
  it stays in the view, moves the deadline to one \<^verbatim>\<open>max_view_time\<close> from now, and a validator broadcasts a timeout vote
  for the view that carries its highest TC. An epoch-change view is one divisible by the epoch length \<open>N\<close>, view 0 included: so
  views \<open>N\<close>, \<open>2N\<close> and 0 are extended, and view \<open>N-1\<close> (for \<open>N > 1\<close>) is left without a vote, although the documentation of the module
  names \<open>N-1\<close>, \<open>2N-1\<close> and so on as the epoch-change views.
\<close>

lemma tick_on_timeout:
  assumes ok: "pk_ok (nd_pacemaker n)" and vss: "kv_validator_set_state P (nd_store n) = Inr vss"
    and tc: "kv_highest_tc P (nd_store n) = Inr tc" and late: "now 0 > vi_deadline (pk_view_info (nd_pacemaker n))"
    and nowrap: "epoch_end (unat (pk_epoch_length (nd_pacemaker n))) (unat (vi_view (pk_view_info (nd_pacemaker n))) + 1) < 2 ^ 64"
    and clock: "clock_in_range (now 1) (pk_epoch_length (nd_pacemaker n)) (pk_max_view_time (nd_pacemaker n))"
  shows "\<exists>n'. pm_tick P now n = (Inr (), n') \<and>
    (if vi_view (pk_view_info (nd_pacemaker n)) mod ucast (pk_epoch_length (nd_pacemaker n)) \<noteq> 0
     then vi_view (pk_view_info (nd_pacemaker n')) = vi_view (pk_view_info (nd_pacemaker n)) + 1 \<and> pk_ok (nd_pacemaker n')
     else pk_view_info (nd_pacemaker n') = \<lparr>vi_view = vi_view (pk_view_info (nd_pacemaker n)),
              vi_deadline = now 1 + pk_max_view_time (nd_pacemaker n)\<rparr> \<and>
       (is_validator (keypair_public P (pk_keypair (nd_pacemaker n))) vss \<longrightarrow>
          Broadcast (ProgressMessage (PacemakerMessage (TimeoutVoteMsg
            (timeout_vote_new P (pk_keypair (nd_pacemaker n)) (pk_chain_id (nd_pacemaker n))
              (vi_view (pk_view_info (nd_pacemaker n))) tc)))) \<in> set (nd_out n')))"
proof -
  let ?pk = "nd_pacemaker n" and ?v = "vi_view (pk_view_info (nd_pacemaker n))"
  let ?n = "n\<lparr>nd_out := nd_out n @ (if nd_publisher n then [Published (ViewTimeoutEvent ?v)] else [])\<rparr>"
  have len: "pk_epoch_length ?pk \<noteq> 0" using ok by (simp add: pk_ok_def)
  have tick: "pm_tick P now n = tick_timeout P (now 1) vss n"
    using late vss by (simp add: pm_tick_def pbind_def pgets_def read_store_def pread_def)
  show ?thesis
  proof (cases "?v mod ucast (pk_epoch_length ?pk) = 0")
    case False
    then have t: "tick_timeout P (now 1) vss n = update_view (now 1) (?v + 1) vss ?n"
      using len by (simp add: tick_timeout_def Let_def is_epoch_change_view_def publish_run pbind_def pgets_def pure_res_def pread_def)
    have "unat ?v + 1 \<le> epoch_end (unat (pk_epoch_length ?pk)) (unat ?v + 1)" using len by (intro epoch_end_ge) (simp add: unat_gt_0)
    with nowrap have u: "unat (?v + 1) = unat ?v + 1" by (simp add: unat_word_ariths)
    then have gt: "?v < ?v + 1" by (simp add: word_less_nat_alt)
    have "pk_ok (nd_pacemaker ?n)" "?v + 1 > vi_view (pk_view_info (nd_pacemaker ?n))"
      "epoch_end (unat (pk_epoch_length (nd_pacemaker ?n))) (unat (?v + 1)) < 2 ^ 64"
      "clock_in_range (now 1) (pk_epoch_length (nd_pacemaker ?n)) (pk_max_view_time (nd_pacemaker ?n))"
      using ok gt nowrap u clock by simp_all
    from update_view_ok [OF this, of vss] obtain pk where
      "update_view (now 1) (?v + 1) vss ?n = (Inr (), ?n\<lparr>nd_pacemaker := pk\<rparr>)" "pk_ok pk" "vi_view (pk_view_info pk) = ?v + 1" .
    with False show ?thesis unfolding tick t by simp
  next
    case True
    have "tick_timeout P (now 1) vss n = (pthen (if is_validator (keypair_public P (pk_keypair ?pk)) vss
               then pbind (read_store (kv_highest_tc P)) (\<lambda>tc.
                    let vote = timeout_vote_new P (pk_keypair ?pk) (pk_chain_id ?pk) ?v tc in
                    pthen (broadcast_pacemaker (TimeoutVoteMsg vote)) (event_publish (TimeoutVoteEvent vote)))
               else pret ()) (extend_view (now 1))) ?n"
      using True len by (simp add: tick_timeout_def Let_def is_epoch_change_view_def publish_run pbind_def pgets_def pure_res_def pread_def)
    with True tc len clock_in_range_extend [OF clock len] show ?thesis unfolding tick
      by (simp add: instant_add_def handler_run Let_def extend_view_def is_epoch_change_view_def extend_epoch_change_view_timeout_def)
  qed
qed

definition higher_than :: "timeout_certificate \<Rightarrow> timeout_certificate option \<Rightarrow> bool" where
  "higher_than tc old \<longleftrightarrow> (case old of None \<Rightarrow> True | Some t \<Rightarrow> tc_view t < tc_view tc)"

lemma set_highest_tc_run:
  obtains n' where "set_highest_tc P tc n = (Inr (), n')" "nd_pacemaker n' = nd_pacemaker n"
    "kv_highest_tc P (nd_store n') = Inr (Some tc)" "kv_validator_set_state P (nd_store n') = kv_validator_set_state P (nd_store n)"
proof -
  let ?n = "n\<lparr>nd_store := bt_set_highest_tc P tc (nd_store n)\<rparr>"
  have "kv_highest_tc P (nd_store ?n) = Inr (Some tc)"
    by (simp add: bt_set_highest_tc_def wb_setter_defs kv_highest_tc_def kv_get_opt_def store_simps)
  moreover have "kv_validator_set_state P (nd_store ?n) = kv_validator_set_state P (nd_store n)"
    by (simp add: bt_set_highest_tc_def wb_setter_defs kv_validator_set_state_def kv_getter_defs kv_get_req_def kv_get_opt_def store_simps)
  ultimately show thesis
    by (intro that [of "snd (set_highest_tc P tc n)"])
       (simp_all add: set_highest_tc_def pthen_def pbind_def write_store_def pmodify_def event_publish_def)
qed

lemma record_higher_tc_run:
  assumes "kv_highest_tc P (nd_store n) = Inr old"
  shows "\<exists>n'. record_higher_tc P c n = (Inr (), n') \<and> nd_pacemaker n' = nd_pacemaker n \<and>
    kv_validator_set_state P (nd_store n') = kv_validator_set_state P (nd_store n) \<and>
    (\<forall>t. c = TimeoutCertificate t \<longrightarrow> higher_than t old \<longrightarrow> kv_highest_tc P (nd_store n') = Inr (Some t))"
proof (cases c)
  case (TimeoutCertificate t)
  have run: "record_higher_tc P c n = pwhen (higher_than t old) (set_highest_tc P t) n"
    using assms by (simp add: record_higher_tc_def TimeoutCertificate tc_is_higher_def higher_than_def pbind_def read_store_def pread_def)
  obtain n' where "set_highest_tc P t n = (Inr (), n')" "nd_pacemaker n' = nd_pacemaker n" "kv_highest_tc P (nd_store n') = Inr (Some t)"
    "kv_validator_set_state P (nd_store n') = kv_validator_set_state P (nd_store n)" by (rule set_highest_tc_run)
  with run TimeoutCertificate show ?thesis by (cases "higher_than t old") (simp_all add: pwhen_def pret_def)
qed (simp add: record_higher_tc_def pret_def)

lemma maybe_broadcast_run:
  "\<exists>n' l. pwhen b (broadcast_advance_view av) n = (Inr (), n') \<and>
     nd_pacemaker n' = (nd_pacemaker n)\<lparr>pk_last_advance_view := l\<rparr> \<and> nd_store n' = nd_store n"
proof (cases b)
  case False
  then show ?thesis by (intro exI [of _ n] exI [of _ "pk_last_advance_view (nd_pacemaker n)"]) (simp add: pwhen_def pret_def)
next
  case True
  then show ?thesis by (simp add: broadcast_advance_view_def handler_run) (rule exI, rule refl)
qed

text \<open>
  C25. A valid certificate for the current or a later view is always acted on: if an \<^verbatim>\<open>AdvanceView\<close> message from a validator
  carries a certificate that passes the check and whose view is not below the current one, the handler succeeds and the
  pacemaker is in the view after the certificate's, with its deadline; a higher timeout certificate is recorded. The epoch of that
  view must end within the view numbers and the clock must be an epoch away from the last instant.
\<close>

lemma advance_view_enters_next_view:
  assumes ok: "pk_ok (nd_pacemaker n)" and vss: "kv_validator_set_state P (nd_store n) = Inr vss"
    and origin: "is_validator origin vss"
    and valid: "progress_certificate_valid P (pk_epoch_length (nd_pacemaker n)) (av_progress_certificate av) (nd_store n) = Inr True"
    and tc: "kv_highest_tc P (nd_store n) = Inr old"
    and ge: "vi_view (pk_view_info (nd_pacemaker n)) \<le> prc_view (av_progress_certificate av)"
    and nowrap: "epoch_end (unat (pk_epoch_length (nd_pacemaker n))) (unat (prc_view (av_progress_certificate av)) + 1) < 2 ^ 64"
    and clock: "clock_in_range now (pk_epoch_length (nd_pacemaker n)) (pk_max_view_time (nd_pacemaker n))"
  shows "\<exists>n'. on_receive_advance_view P now av origin n = (Inr (), n') \<and> pk_ok (nd_pacemaker n') \<and>
    vi_view (pk_view_info (nd_pacemaker n')) = prc_view (av_progress_certificate av) + 1 \<and>
    (\<forall>t. av_progress_certificate av = TimeoutCertificate t \<longrightarrow> higher_than t old \<longrightarrow>
       kv_highest_tc P (nd_store n') = Inr (Some t))"
proof -
  let ?pk = "nd_pacemaker n" and ?c = "av_progress_certificate av"
  let ?n1 = "n\<lparr>nd_out := nd_out n @ (if nd_publisher n then [Published (ReceiveAdvanceViewEvent origin av)] else [])\<rparr>"
  have len: "pk_epoch_length ?pk \<noteq> 0" using ok by (simp add: pk_ok_def)
  have "unat (prc_view ?c) + 1 \<le> epoch_end (unat (pk_epoch_length ?pk)) (unat (prc_view ?c) + 1)"
    using len by (intro epoch_end_ge) (simp add: unat_gt_0)
  with nowrap have u: "unat (prc_view ?c + 1) = unat (prc_view ?c) + 1" by (simp add: unat_word_ariths)
  with ge have gt: "vi_view (pk_view_info ?pk) < prc_view ?c + 1" by (simp add: word_less_nat_alt word_le_nat_alt)
  have run1: "on_receive_advance_view P now av origin n = pthen (record_higher_tc P ?c)
         (pbind (read_store (kv_validator_set_state P)) (\<lambda>vss'.
          pbind (pgets nd_pacemaker) (\<lambda>pk.
          pthen (pwhen (is_validator (keypair_public P (pk_keypair pk)) vss' \<and> not_advanced_yet pk)
                  (broadcast_advance_view av))
          (update_view now (prc_view ?c + 1) vss)))) ?n1"
    using vss origin valid
    by (simp add: on_receive_advance_view_def publish_run Let_def pbind_def pgets_def pwhen_def read_store_def pread_def)
  have "kv_highest_tc P (nd_store ?n1) = Inr old" using tc by simp
  from record_higher_tc_run [OF this, of ?c] obtain n2 where n2: "record_higher_tc P ?c ?n1 = (Inr (), n2)"
    "nd_pacemaker n2 = ?pk" "kv_validator_set_state P (nd_store n2) = kv_validator_set_state P (nd_store n)"
    "\<forall>t. ?c = TimeoutCertificate t \<longrightarrow> higher_than t old \<longrightarrow> kv_highest_tc P (nd_store n2) = Inr (Some t)" by auto
  obtain n3 l where n3: "pwhen (is_validator (keypair_public P (pk_keypair ?pk)) vss \<and> not_advanced_yet ?pk)
      (broadcast_advance_view av) n2 = (Inr (), n3)" "nd_pacemaker n3 = ?pk\<lparr>pk_last_advance_view := l\<rparr>" "nd_store n3 = nd_store n2"
    using maybe_broadcast_run [of _ av n2] n2(2) by metis
  have run2: "on_receive_advance_view P now av origin n = update_view now (prc_view ?c + 1) vss n3"
    unfolding run1 using n2 n3 vss by (simp add: pthen_def pbind_def read_store_def pread_def pgets_def)
  have "pk_ok (nd_pacemaker n3)" "prc_view ?c + 1 > vi_view (pk_view_info (nd_pacemaker n3))"
    "epoch_end (unat (pk_epoch_length (nd_pacemaker n3))) (unat (prc_view ?c + 1)) < 2 ^ 64"
    "clock_in_range now (pk_epoch_length (nd_pacemaker n3)) (pk_max_view_time (nd_pacemaker n3))"
    using ok gt nowrap u clock by (simp_all add: n3 pk_ok_def)
  from update_view_ok [OF this, of vss] obtain pk where
    "update_view now (prc_view ?c + 1) vss n3 = (Inr (), n3\<lparr>nd_pacemaker := pk\<rparr>)" "pk_ok pk" "vi_view (pk_view_info pk) = prc_view ?c + 1" .
  with n2(4) n3(3) show ?thesis unfolding run2 by simp
qed

lemma on_fallback_tc_stale:
  assumes "kv_highest_tc P (nd_store n) = Inr old" and "higher_than tc old"
    and "tc_view tc + 1 \<le> vi_view (pk_view_info (nd_pacemaker n))"
  shows "\<exists>n'. on_fallback_tc P now vss tc n =
      (Inl (UpdateViewFault (NonIncreasingViewError (vi_view (pk_view_info (nd_pacemaker n))) (tc_view tc + 1))), n') \<and>
    kv_highest_tc P (nd_store n') = Inr (Some tc)"
proof -
  obtain n' where n': "set_highest_tc P tc n = (Inr (), n')" "nd_pacemaker n' = nd_pacemaker n"
    "kv_highest_tc P (nd_store n') = Inr (Some tc)" by (rule set_highest_tc_run)
  have "read_store (tc_is_higher P tc) n = (Inr True, n)"
    using assms(1,2) by (simp add: read_store_def pread_def tc_is_higher_def higher_than_def)
  with n' assms(3) show ?thesis
    by (simp add: on_fallback_tc_def pbind_def pthen_def pwhen_def update_view_def pgets_def Let_def pfail_def)
qed

text \<open>
  C37. A late timeout vote can make the handler fail. If a validator's correct timeout vote for an epoch-change view is
  collected without completing a certificate, and the correct TC it carries is above the recorded highest TC (or none
  is recorded) but its view is already behind the pacemaker's, the handler records that TC and then returns a
  \<^verbatim>\<open>NonIncreasingViewError\<close>, on which the algorithm thread panics. A replica that got ahead by phase certificates, and so
  never recorded a TC, is in this situation.
\<close>

lemma stale_fallback_tc_fails:
  assumes "kv_validator_set_state P (nd_store n) = Inr vss" and "is_validator origin vss"
    and "timeout_vote_is_correct P origin v" and "is_epoch_change_view (tv_view v) (pk_epoch_length (nd_pacemaker n)) = Inr True"
    and "tv_highest_tc v = Some tc" and "tc_is_correct P (nd_store n) tc = Inr True"
    and "acp_collect tvc_ops (pk_timeout_vote_collectors (nd_pacemaker n)) origin v = Inr (None, a)"
    and "kv_highest_tc P (nd_store n) = Inr old" and "higher_than tc old"
    and "tc_view tc + 1 \<le> vi_view (pk_view_info (nd_pacemaker n))"
  shows "\<exists>n'. on_receive_timeout_vote P now v origin n =
      (Inl (UpdateViewFault (NonIncreasingViewError (vi_view (pk_view_info (nd_pacemaker n))) (tc_view tc + 1))), n') \<and>
    kv_highest_tc P (nd_store n') = Inr (Some tc)"
proof -
  let ?m = "n\<lparr>nd_out := nd_out n @ (if nd_publisher n then [Published (ReceiveTimeoutVoteEvent origin v)] else []),
      nd_pacemaker := (nd_pacemaker n)\<lparr>pk_timeout_vote_collectors := a\<rparr>\<rparr>"
  have "on_receive_timeout_vote P now v origin n = on_fallback_tc P now vss tc ?m"
    using assms(1-7) by (simp add: on_receive_timeout_vote_def publish_run pbind_def pgets_def pwhen_def pure_res_def read_store_def
        pread_def pret_def collect_timeout_vote_def)
  with on_fallback_tc_stale [of P ?m old tc now vss] assms(8-10) show ?thesis by simp
qed

text \<open>
  The pacemaker never goes back: no step of the pacemaker, the clock tick or any received message, with or without an
  error, lowers the current view or changes the chain, key, epoch length or view time it was configured with.
\<close>

lemma pacemaker_view_monotone:
  "pk_step (nd_pacemaker n) (nd_pacemaker (snd (pm_tick P now n))) \<and>
   pk_step (nd_pacemaker n) (nd_pacemaker (snd (pm_on_receive_msg P t msg origin n)))"
  using keepsD [OF views.keeps_pm_tick, of n P now] keepsD [OF views.keeps_pm_on_receive_msg, of n P t msg origin]
  by (simp add: view_rel_def)

end
