(* ===== verification/Block_Sync.thy ===== *)
theory Block_Sync
  imports Node
begin

text \<open>
  Block sync: the client, which runs in the algorithm thread (\<^verbatim>\<open>block_sync/client.rs\<close>), the server
  (\<^verbatim>\<open>block_sync/server.rs\<close>) and the two chain readers it uses (\<^verbatim>\<open>block_tree/accessors/public.rs\<close>). What the
  network delivers while the client waits, the clock readings, and the random choice of a
  server are arguments.
\<close>

section \<open>State of the client\<close>

definition client_new ::
  "chain_id \<Rightarrow> u32 \<Rightarrow> duration \<Rightarrow> duration \<Rightarrow> u64 \<Rightarrow> duration \<Rightarrow> instant \<Rightarrow> block_sync_client" where
  "client_new chain_id request_limit response_timeout blacklist_expiry_time min_view_difference trigger_timeout now =
     \<lparr>bc_chain_id = chain_id, bc_request_limit = request_limit, bc_response_timeout = response_timeout,
      bc_blacklist_expiry_time = blacklist_expiry_time, bc_trigger_min_view_difference = min_view_difference,
      bc_trigger_timeout = trigger_timeout, bc_available_sync_servers = [], bc_blacklist = [],
      bc_last_progress_or_sync_time = now, bc_highest_pc_view = 0\<rparr>"

definition register_or_update_sync_server :: "verifying_key \<Rightarrow> block_height \<Rightarrow> block_sync_client \<Rightarrow> block_sync_client" where
  "register_or_update_sync_server sync_server height c =
     c\<lparr>bc_available_sync_servers := hm_insert (bc_available_sync_servers c) sync_server height\<rparr>"

definition blacklist_sync_server :: "instant \<Rightarrow> verifying_key \<Rightarrow> block_sync_client \<Rightarrow> block_sync_client res" where
  "blacklist_sync_server now sync_server c =
     rbind (instant_add now (bc_blacklist_expiry_time c)) (\<lambda>expiry.
     Inr (c\<lparr>bc_available_sync_servers := hm_remove (bc_available_sync_servers c) sync_server,
            bc_blacklist := bc_blacklist c @ [(sync_server, expiry)]\<rparr>))"

definition remove_expired_blacklisted_servers :: "instant \<Rightarrow> block_sync_client \<Rightarrow> block_sync_client" where
  "remove_expired_blacklisted_servers now c = c\<lparr>bc_blacklist := dropWhile (\<lambda>(_, expiry). expiry \<ge> now) (bc_blacklist c)\<rparr>"

text \<open>\<^verbatim>\<open>choose\<close> of the \<^verbatim>\<open>rand\<close> crate: an element of the iterator, and \<open>None\<close> when there is none.\<close>

definition choose_law :: "(verifying_key list \<Rightarrow> verifying_key option) \<Rightarrow> bool" where
  "choose_law pick \<longleftrightarrow> (\<forall>xs. case pick xs of None \<Rightarrow> xs = [] | Some x \<Rightarrow> x \<in> set xs)"

definition random_sync_server ::
  "(verifying_key list \<Rightarrow> verifying_key option) \<Rightarrow> block_height option \<Rightarrow> block_sync_client \<Rightarrow> verifying_key option" where
  "random_sync_server pick min_height c = (case min_height of
       None \<Rightarrow> pick (map fst (bc_available_sync_servers c))
     | Some h \<Rightarrow> pick (filter (\<lambda>vk. case hm_get (bc_available_sync_servers c) vk of None \<Rightarrow> False | Some height \<Rightarrow> height \<ge> h)
                   (map fst (bc_available_sync_servers c))))"

definition is_sync_server_address :: "prims \<Rightarrow> verifying_key \<Rightarrow> kv_store \<Rightarrow> bool res" where
  "is_sync_server_address P verifying_key s =
     rbind (kv_committed_validator_set P s) (\<lambda>vs.
     if vs_contains vs verifying_key then Inr True
     else rbind (kv_highest_committed_block P s) (\<lambda>hc. case hc of
         None \<Rightarrow> Inr False
       | Some b \<Rightarrow> returns (map_option (\<lambda>branch. Inr (list_ex (\<lambda>b. case kv_validator_set_updates_status P s b of
             Inr (Pending updates) \<Rightarrow> us_get_insert updates verifying_key \<noteq> None
           | _ \<Rightarrow> False) branch)) (blocks_in_branch P s b))))"

section \<open>Receiving a response\<close>

datatype response_result = RespReceived verifying_key block_sync_response | RespTimeout | RespDisconnected

text \<open>Both errors lead to the same branch of the client; \<open>None\<close> stands for either.\<close>

fun recv_response :: "verifying_key \<Rightarrow> instant \<Rightarrow> (instant \<times> response_result) list \<Rightarrow> block_sync_response option" where
  "recv_response peer deadline [] = None"
| "recv_response peer deadline ((now, r) # rs) =
     (if now < deadline then
        (case r of
           RespReceived sender resp \<Rightarrow> if sender = peer then Some resp else recv_response peer deadline rs
         | RespTimeout \<Rightarrow> recv_response peer deadline rs
         | RespDisconnected \<Rightarrow> None)
      else None)"

section \<open>Syncing\<close>

text \<open>
  One round per request: the clock when the request was sent and what the channel yields until the
  deadline. No more rounds means that nothing more arrives.
\<close>

record sync_env =
  se_choose :: "verifying_key list \<Rightarrow> verifying_key option"
  se_rounds :: "(instant \<times> (instant \<times> response_result) list) list"
  se_blacklist_time :: instant
  se_end_time :: instant

definition send_sync_request :: "verifying_key \<Rightarrow> block_sync_request \<Rightarrow> ('a, unit) handler" where
  "send_sync_request peer r = emit (Send peer (BlockSyncMessage (BlockSyncRequest r)))"

definition end_sync :: "verifying_key \<Rightarrow> u64 \<Rightarrow> ('a, unit) handler" where
  "end_sync peer blocks_synced = event_publish (EndSyncEvent peer blocks_synced)"

definition blacklist_peer :: "sync_env \<Rightarrow> verifying_key \<Rightarrow> ('a, unit) handler" where
  "blacklist_peer E peer = try_set_client (blacklist_sync_server (se_blacklist_time E) peer)"

text \<open>The server promised blocks up to the height it advertised.\<close>

definition check_commitment :: "sync_env \<Rightarrow> verifying_key \<Rightarrow> block_height \<Rightarrow> u64 \<Rightarrow> ('a, unit) handler" where
  "check_commitment E peer init_height blocks_synced =
     pbind (pgets nd_client) (\<lambda>c.
     case hm_get (bc_available_sync_servers c) peer of
       None \<Rightarrow> pfail (Panicked UnwrapOnNone)
     | Some advertised \<Rightarrow>
         pthen (pwhen (blocks_synced < advertised - init_height) (blacklist_peer E peer))
           (end_sync peer blocks_synced))"

definition sync_block :: "prims \<Rightarrow> 'a app_ops \<Rightarrow> block \<Rightarrow> ('a, bool) handler" where
  "sync_block P app block =
     pbind (pgets nd_client) (\<lambda>c.
     pbind (read_store (\<lambda>s. rand (block_is_correct P s block) (safe_block P s (bc_chain_id c) block))) (\<lambda>good.
     if \<not> good then pret False
     else
       pbind (read_store (\<lambda>s. bt_app_view P s (if is_genesis_pc (b_justify block) then None else Some (pc_block (b_justify block))))) (\<lambda>view.
       pbind (call_app (app_validate_block_for_sync app \<lparr>vbq_proposed_block = block, vbq_block_tree_view = view\<rparr>)) (\<lambda>response.
       case response of
         Invalid \<Rightarrow> pret False
       | Valid app_state_updates validator_set_updates \<Rightarrow>
           pthen (write_store (bt_insert P block app_state_updates validator_set_updates))
           (pthen (event_publish (InsertBlockEvent block))
           (pbind (update_block_tree P (b_justify block)) (\<lambda>vsu.
            pthen (update_validator_set vsu) (pret True))))))))"

text \<open>After each block, the highest PC of the response is tried; the validator set updates this may commit are dropped.\<close>

definition try_highest_pc :: "prims \<Rightarrow> phase_certificate \<Rightarrow> ('a, unit) handler" where
  "try_highest_pc P highest_pc =
     pbind (pgets nd_client) (\<lambda>c.
     pbind (read_store (\<lambda>s. rand (pc_is_correct P s highest_pc) (safe_pc P s (bc_chain_id c) highest_pc))) (\<lambda>good.
     pwhen good (pbind (update_block_tree P highest_pc) (\<lambda>_. pret ()))))"

text \<open>\<open>None\<close>: the sync ended early. Otherwise the number of blocks synced so far.\<close>

fun sync_blocks ::
  "prims \<Rightarrow> 'a app_ops \<Rightarrow> sync_env \<Rightarrow> verifying_key \<Rightarrow> phase_certificate \<Rightarrow> block list \<Rightarrow> u64 \<Rightarrow> ('a, u64 option) handler" where
  "sync_blocks P app E peer highest_pc [] blocks_synced = pret (Some blocks_synced)"
| "sync_blocks P app E peer highest_pc (block # blocks) blocks_synced =
     pbind (sync_block P app block) (\<lambda>ok.
     if ok then
       pthen (try_highest_pc P highest_pc) (sync_blocks P app E peer highest_pc blocks (blocks_synced + 1))
     else
       pthen (blacklist_peer E peer) (pthen (end_sync peer blocks_synced) (pret None)))"

definition next_request :: "prims \<Rightarrow> ('a, block_sync_request) handler" where
  "next_request P =
     pbind (pgets nd_client) (\<lambda>c.
     pbind (read_store (bt_highest_committed_block_height P)) (\<lambda>hc.
     pret \<lparr>bsr_chain_id = bc_chain_id c, bsr_start_height = (case hc of None \<Rightarrow> 0 | Some h \<Rightarrow> h + 1),
           bsr_limit = bc_request_limit c\<rparr>))"

fun sync_loop ::
  "prims \<Rightarrow> 'a app_ops \<Rightarrow> sync_env \<Rightarrow> verifying_key \<Rightarrow> block_height \<Rightarrow> (instant \<times> (instant \<times> response_result) list) list \<Rightarrow>
   u64 \<Rightarrow> ('a, unit) handler" where
  "sync_loop P app E peer init_height [] blocks_synced =
     pbind (next_request P) (\<lambda>request.
     pthen (send_sync_request peer request) (check_commitment E peer init_height blocks_synced))"
| "sync_loop P app E peer init_height ((now, rs) # rounds) blocks_synced =
     pbind (next_request P) (\<lambda>request.
     pthen (send_sync_request peer request)
     (pbind (pgets nd_client) (\<lambda>c.
      pbind (pure_res (instant_add now (bc_response_timeout c))) (\<lambda>deadline.
      case recv_response peer deadline rs of
        None \<Rightarrow> check_commitment E peer init_height blocks_synced
      | Some response \<Rightarrow>
          pbind (pgets nd_store) (\<lambda>s.
          let new_blocks = dropWhile (\<lambda>b. bt_contains P s (b_hash b)) (bsp_blocks response) in
          if new_blocks = [] then check_commitment E peer init_height blocks_synced
          else
            pbind (sync_blocks P app E peer (bsp_highest_pc response) new_blocks blocks_synced) (\<lambda>r.
            case r of None \<Rightarrow> pret () | Some n \<Rightarrow> sync_loop P app E peer init_height rounds n))))))"

definition sync_with :: "prims \<Rightarrow> 'a app_ops \<Rightarrow> sync_env \<Rightarrow> verifying_key \<Rightarrow> ('a, unit) handler" where
  "sync_with P app E peer =
     pthen (event_publish (StartSyncEvent peer))
     (pbind (read_store (bt_highest_committed_block_height P)) (\<lambda>hc.
      sync_loop P app E peer (case hc of None \<Rightarrow> 0 | Some h \<Rightarrow> h) (se_rounds E) 0))"

definition sync :: "prims \<Rightarrow> 'a app_ops \<Rightarrow> sync_env \<Rightarrow> ('a, unit) handler" where
  "sync P app E =
     pbind (read_store (bt_highest_committed_block_height P)) (\<lambda>hc.
     pbind (pgets nd_client) (\<lambda>c.
     case random_sync_server (se_choose E) hc c of
       None \<Rightarrow> pret ()
     | Some peer \<Rightarrow> sync_with P app E peer))"

section \<open>Handlers of the client\<close>

definition sync_then_record :: "prims \<Rightarrow> 'a app_ops \<Rightarrow> sync_env \<Rightarrow> ('a, unit) handler" where
  "sync_then_record P app E =
     pthen (sync P app E) (set_client (\<lambda>c. c\<lparr>bc_last_progress_or_sync_time := se_end_time E\<rparr>))"

definition on_receive_advertise_block :: "prims \<Rightarrow> advertise_block \<Rightarrow> verifying_key \<Rightarrow> ('a, unit) handler" where
  "on_receive_advertise_block P advertise_block origin =
     pbind (pgets nd_client) (\<lambda>c.
     if ab_chain_id advertise_block \<noteq> bc_chain_id c \<or> \<not> advertise_block_is_correct P origin advertise_block then pret ()
     else
       pbind (read_store (is_sync_server_address P origin)) (\<lambda>valid.
       if \<not> valid then pret ()
       else if blacklist_contains_server_address c origin then pret ()
       else set_client (register_or_update_sync_server origin (ab_highest_committed_block_height advertise_block))))"

definition on_receive_advertise_pc ::
  "prims \<Rightarrow> 'a app_ops \<Rightarrow> sync_env \<Rightarrow> advertise_pc \<Rightarrow> verifying_key \<Rightarrow> ('a, unit) handler" where
  "on_receive_advertise_pc P app E advertise_pc origin =
     pbind (read_store (kv_highest_view_entered P)) (\<lambda>highest_view_entered.
     pbind (pgets nd_client) (\<lambda>c.
     if blacklist_contains_server_address c origin then pret ()
     else if pc_view (ap_highest_pc advertise_pc) < highest_view_entered then pret ()
     else
       let view_difference = view_sub (pc_view (ap_highest_pc advertise_pc)) highest_view_entered in
       pbind (read_store (\<lambda>s. rand (Inr (view_difference \<ge> bc_trigger_min_view_difference c))
                (pc_is_correct P s (ap_highest_pc advertise_pc)))) (\<lambda>trigger.
       pwhen trigger (sync_then_record P app E))))"

definition client_on_receive_msg ::
  "prims \<Rightarrow> 'a app_ops \<Rightarrow> sync_env \<Rightarrow> block_sync_advertise_message \<Rightarrow> verifying_key \<Rightarrow> ('a, unit) handler" where
  "client_on_receive_msg P app E msg origin = (case msg of
       AdvertiseBlockMsg a \<Rightarrow> on_receive_advertise_block P a origin
     | AdvertisePCMsg a \<Rightarrow> on_receive_advertise_pc P app E a origin)"

definition client_tick :: "prims \<Rightarrow> 'a app_ops \<Rightarrow> sync_env \<Rightarrow> (nat \<Rightarrow> instant) \<Rightarrow> ('a, unit) handler" where
  "client_tick P app E now =
     pthen (set_client (remove_expired_blacklisted_servers (now 0)))
     (pbind (read_store (kv_highest_pc P)) (\<lambda>pc.
      pbind (pgets nd_client) (\<lambda>c.
      pthen (pwhen (pc_view pc > bc_highest_pc_view c)
              (set_client (\<lambda>c. c\<lparr>bc_highest_pc_view := pc_view pc, bc_last_progress_or_sync_time := now 1\<rparr>)))
      (pbind (pgets nd_client) (\<lambda>c.
       pwhen (now 2 - bc_last_progress_or_sync_time c \<ge> bc_trigger_timeout c) (sync_then_record P app E))))))"

section \<open>The client keeps every node relation\<close>

lemma blacklist_simps:
  "blacklist_contains_server_address c k \<longleftrightarrow> k \<in> fst ` set (bc_blacklist c)"
  by (force simp: blacklist_contains_server_address_def list_ex_iff)

lemma blacklist_sync_server_fields:
  assumes "blacklist_sync_server now k c = Inr c'"
  shows "bc_available_sync_servers c' = hm_remove (bc_available_sync_servers c) k"
    "bc_blacklist c' = bc_blacklist c @ [(k, now + bc_blacklist_expiry_time c)]"
  using assms by (auto simp: blacklist_sync_server_def rbind_eq_Inr_iff)

lemma client_step_blacklist: "blacklist_sync_server now k c = Inr c' \<Longrightarrow> client_step c c'"
  using blacklist_sync_server_fields [of now k c c']
  by (auto simp: client_step_def client_ok_def blacklist_simps hm_contains_key_get split: if_splits)

lemma client_step_expired: "client_step c (remove_expired_blacklisted_servers now c)"
  by (auto simp: client_step_def client_ok_def remove_expired_blacklisted_servers_def blacklist_simps dest: set_dropWhileD)

lemma client_step_register:
  "\<not> blacklist_contains_server_address c k \<Longrightarrow> client_step c (register_or_update_sync_server k h c)"
  by (auto simp: client_step_def client_ok_def register_or_update_sync_server_def blacklist_simps hm_contains_key_get split: if_splits)

lemma client_step_same:
  "bc_available_sync_servers c' = bc_available_sync_servers c \<Longrightarrow> bc_blacklist c' = bc_blacklist c \<Longrightarrow> client_step c c'"
  by (simp add: client_step_def client_ok_def blacklist_simps)

context checked_rel
begin

lemma keeps_blacklist_peer: "keeps R (blacklist_peer E peer)"
  unfolding blacklist_peer_def by (rule keeps_try_set_client) (rule client_step_blacklist)

lemma keeps_check_commitment: "keeps R (check_commitment E peer h n)"
  unfolding check_commitment_def end_sync_def by (intro keeps_steps keeps_pfail [OF reflpR] keeps_blacklist_peer)

lemma keeps_sync_block: "keeps R (sync_block P app b)"
  unfolding sync_block_def
proof (rule keeps_pbind [OF transpR keeps_pgets [OF reflpR] keeps_hoare], intro hoare_start hoare_pbind [OF hoare_read_store] after_R hoare_assume)
  fix n :: "'a node" and c good
  let ?s = "nd_store n"
  let ?par = "if is_genesis_pc (b_justify b) then None else Some (pc_block (b_justify b))"
  let ?req = "\<lambda>view. \<lparr>vbq_proposed_block = b, vbq_block_tree_view = view\<rparr>"
  let ?accept = "\<lambda>response. case response of Invalid \<Rightarrow> pret False
       | Valid au vu \<Rightarrow> pthen (write_store (bt_insert P b au vu)) (pthen (event_publish (InsertBlockEvent b))
           (pbind (update_block_tree P (b_justify b)) (\<lambda>vsu. pthen (update_validator_set vsu) (pret True))))"
  assume g: "rand (block_is_correct P ?s b) (safe_block P ?s (bc_chain_id c) b) = Inr good"
  have acc: "hoare (after ?s n) (?accept response) (\<lambda>_. R n) (R n)"
    if "good" "bt_app_view P ?s ?par = Inr view" "\<exists>a. fst (app_validate_block_for_sync app (?req view) a) = response" for response view
  proof (cases response)
    case (Valid au vu)
    then have ok: "acceptable P app ?s b au vu"
      using g that by (auto simp: acceptable_def rand_eq_True validated_def parent_of_def)
    have "hoare (after s n) (pthen (update_validator_set vsu) (pret True)) (\<lambda>_. R n) (R n)"
      if "bt_update P (nd_publisher n) (b_justify b) (bt_insert P b au vu ?s) = Inr (r, evs, s)" for vsu r evs s
      using R_after [OF R_accept_update [OF ok that]]
      by (intro hoare_pthen [OF hoare_after [OF quiet_update_validator_set]] hoare_pret)
    then show ?thesis unfolding Valid validate_block_response.case
      using R_after [OF R_accept_insert [OF ok]]
      by (intro hoare_pthen [OF hoare_write_after] hoare_pthen [OF hoare_after [OF quiet_steps(2)]]
          hoare_pbind [OF hoare_update_block_tree hoare_updated])
  qed (simp add: hoare_pret after_R)
  show "hoare (after ?s n) (if \<not> good then pret False
      else pbind (read_store (\<lambda>s. bt_app_view P s ?par)) (\<lambda>view.
        pbind (call_app (app_validate_block_for_sync app (?req view))) ?accept)) (\<lambda>_. R n) (R n)"
    by (intro hoare_if hoare_pret hoare_pbind [OF hoare_read_store] hoare_assume hoare_pbind [OF hoare_call_app] acc after_R) auto
qed

lemma keeps_try_highest_pc: "keeps R (try_highest_pc P pc)"
  unfolding try_highest_pc_def
proof (rule keeps_pbind [OF transpR keeps_pgets [OF reflpR] keeps_hoare], intro hoare_start hoare_pbind [OF hoare_read_store] after_R hoare_assume)
  fix n :: "'a node" and c good
  assume g: "rand (pc_is_correct P (nd_store n) pc) (safe_pc P (nd_store n) (bc_chain_id c) pc) = Inr good"
  show "hoare (after (nd_store n) n) (pwhen good (pbind (update_block_tree P pc) (\<lambda>_. pret ()))) (\<lambda>_. R n) (R n)"
  proof (cases good)
    case True
    with g have ok: "processable P (nd_store n) pc" by (auto simp: processable_def rand_eq_True)
    have "hoare (after (nd_store n) n) (pbind (update_block_tree P pc) (\<lambda>_. pret ())) (\<lambda>_. R n) (R n)"
      by (intro hoare_pbind [OF hoare_update_block_tree hoare_updated] hoare_pret) (auto intro: after_R R_after [OF R_process [OF ok]])
    with True show ?thesis by (simp add: pwhen_def)
  qed (simp add: pwhen_def hoare_pret after_R)
qed

lemma keeps_sync_blocks: "keeps R (sync_blocks P app E peer pc bs n)"
proof (induction bs arbitrary: n)
  case (Cons b bs)
  show ?case unfolding sync_blocks.simps end_sync_def
    by (intro keeps_steps keeps_sync_block keeps_try_highest_pc keeps_blacklist_peer Cons)
qed (simp add: keeps_pret reflpR)

lemma keeps_next_request: "keeps R (next_request P)"
  unfolding next_request_def by (intro keeps_steps)

lemma keeps_send_sync_request: "keeps R (send_sync_request peer r)"
  by (simp add: send_sync_request_def keeps_emit)

lemma keeps_sync_loop: "keeps R (sync_loop P app E peer h rounds n)"
proof (induction rounds arbitrary: n)
  case Nil
  show ?case unfolding sync_loop.simps by (intro keeps_steps keeps_next_request keeps_send_sync_request keeps_check_commitment)
next
  case (Cons r rounds)
  obtain now rs where r: "r = (now, rs)" by fastforce
  show ?case unfolding r sync_loop.simps
    by (intro keeps_steps keeps_next_request keeps_send_sync_request keeps_check_commitment keeps_sync_blocks Cons)
qed

lemma keeps_sync_then_record: "keeps R (sync_then_record P app E)"
  unfolding sync_then_record_def sync_def sync_with_def
  by (intro keeps_steps keeps_sync_loop keeps_set_client) (simp add: client_step_same)

lemma keeps_advertise_block: "keeps R (on_receive_advertise_block P a origin)"
proof (rule keepsI)
  fix n :: "'a node"
  have "R n (n\<lparr>nd_client := register_or_update_sync_server origin h (nd_client n)\<rparr>)"
    if "\<not> blacklist_contains_server_address (nd_client n) origin" for h
    using that by (simp add: R_client client_step_register)
  then show "R n (snd (on_receive_advertise_block P a origin n))"
    by (auto simp: on_receive_advertise_block_def pbind_def pgets_def pret_def read_store_def pread_def set_client_def pmodify_def
        R_refl split: sum.splits)
qed

lemma keeps_client_on_receive_msg: "keeps R (client_on_receive_msg P app E msg origin)"
proof (cases msg)
  case (AdvertisePCMsg a)
  then show ?thesis
    by (simp add: client_on_receive_msg_def on_receive_advertise_pc_def) (intro keeps_steps keeps_sync_then_record)
qed (simp add: client_on_receive_msg_def keeps_advertise_block)

lemma keeps_client_tick: "keeps R (client_tick P app E now)"
  unfolding client_tick_def
  by (intro keeps_steps keeps_set_client keeps_sync_then_record) (simp_all add: client_step_expired client_step_same)

end

section \<open>The server\<close>

text \<open>Committed blocks from a height on; the flag says that the limit was reached.\<close>

partial_function (option) committed_from :: "prims \<Rightarrow> kv_store \<Rightarrow> u32 \<Rightarrow> block_height \<Rightarrow> nat \<Rightarrow> (block list \<times> bool) res option" where
  "committed_from P s limit cursor len =
     (case kv_block_at_height P s cursor of
        Inl e \<Rightarrow> Some (Inl e)
      | Inr None \<Rightarrow> Some (Inr ([], False))
      | Inr (Some block_hash) \<Rightarrow>
          (case rbind (kv_block P s block_hash) (\<lambda>b. ok_or b (BlockTreeFault (BlockExpectedButNotFound block_hash))) of
             Inl e \<Rightarrow> Some (Inl e)
           | Inr block \<Rightarrow>
               if Suc len = unat limit then Some (Inr ([block], True))
               else Option.bind (committed_from P s limit (cursor + 1) (Suc len))
                      (\<lambda>r. Some (rbind r (\<lambda>(bs, full). Inr (block # bs, full))))))"

text \<open>The walk from the newest block down to, but without, the highest committed block, newest first.\<close>

partial_function (option) newest_loop :: "prims \<Rightarrow> kv_store \<Rightarrow> crypto_hash \<Rightarrow> block list res option" where
  "newest_loop P s cursor =
     (case rbind (kv_block P s cursor) (\<lambda>b. ok_or b (BlockTreeFault (BlockExpectedButNotFound cursor))) of
        Inl e \<Rightarrow> Some (Inl e)
      | Inr block \<Rightarrow>
          (case kv_highest_committed_block P s of
             Inl e \<Rightarrow> Some (Inl e)
           | Inr hc \<Rightarrow>
               if hc = Some (pc_block (b_justify block)) \<or> b_justify block = genesis_pc then Some (Inr [block])
               else Option.bind (newest_loop P s (pc_block (b_justify block))) (\<lambda>r. Some (rbind r (\<lambda>bs. Inr (block # bs))))))"

definition blocks_from_newest_to_committed :: "prims \<Rightarrow> kv_store \<Rightarrow> block list res" where
  "blocks_from_newest_to_committed P s =
     rbind (kv_newest_block P s) (\<lambda>newest. case newest of None \<Rightarrow> Inr [] | Some b \<Rightarrow> returns (newest_loop P s b))"

text \<open>The \<^verbatim>\<open>for\<close> loop that pushes blocks until the vector has the length of the limit.\<close>

fun push_until :: "nat \<Rightarrow> block list \<Rightarrow> block list \<Rightarrow> block list" where
  "push_until limit res [] = res"
| "push_until limit res (b # bs) =
     (if Suc (length res) = limit then res @ [b] else push_until limit (res @ [b]) bs)"

definition blocks_from_height_to_newest :: "prims \<Rightarrow> kv_store \<Rightarrow> block_height \<Rightarrow> u32 \<Rightarrow> block list res" where
  "blocks_from_height_to_newest P s height limit =
     rbind (returns (committed_from P s limit height 0)) (\<lambda>(res, full).
     if full then Inr res
     else rbind (blocks_from_newest_to_committed P s) (\<lambda>speculative.
       Inr (push_until (unat limit) res (rev speculative))))"

record block_sync_server =
  sv_chain_id :: chain_id
  sv_keypair :: signing_key
  sv_request_limit :: u32
  sv_advertise_time :: duration
  sv_last_advertisement :: instant
  sv_out :: "effect list"
  sv_publisher :: bool

definition server_new :: "chain_id \<Rightarrow> signing_key \<Rightarrow> u32 \<Rightarrow> duration \<Rightarrow> instant \<Rightarrow> bool \<Rightarrow> block_sync_server" where
  "server_new chain_id keypair request_limit advertise_time now publisher =
     \<lparr>sv_chain_id = chain_id, sv_keypair = keypair, sv_request_limit = request_limit, sv_advertise_time = advertise_time,
      sv_last_advertisement = now, sv_out = [], sv_publisher = publisher\<rparr>"

definition sv_emit :: "effect \<Rightarrow> (block_sync_server, fault, unit) proc" where
  "sv_emit e = pmodify (\<lambda>sv. sv\<lparr>sv_out := sv_out sv @ [e]\<rparr>)"

definition sv_publish :: "event \<Rightarrow> (block_sync_server, fault, unit) proc" where
  "sv_publish ev = pmodify (\<lambda>sv. if sv_publisher sv then sv\<lparr>sv_out := sv_out sv @ [Published ev]\<rparr> else sv)"

text \<open>Errors of the two reads of the snapshot are swallowed.\<close>

definition respond :: "prims \<Rightarrow> kv_store \<Rightarrow> verifying_key \<Rightarrow> block_sync_request \<Rightarrow> (block_sync_server, fault, unit) proc" where
  "respond P s origin req =
     pthen (sv_publish (ReceiveSyncRequestEvent origin (bsr_start_height req) (bsr_limit req)))
     (pbind (pgets sv_request_limit) (\<lambda>request_limit.
      case blocks_from_height_to_newest P s (bsr_start_height req) (max (bsr_limit req) request_limit) of
        Inl (BlockTreeFault _) \<Rightarrow> pret ()
      | Inl e \<Rightarrow> pfail e
      | Inr blocks \<Rightarrow>
          (case kv_highest_pc P s of
             Inl (BlockTreeFault _) \<Rightarrow> pret ()
           | Inl e \<Rightarrow> pfail e
           | Inr highest_pc \<Rightarrow>
               pthen (sv_emit (Send origin (BlockSyncMessage (BlockSyncResponse \<lparr>bsp_blocks = blocks, bsp_highest_pc = highest_pc\<rparr>))))
                 (sv_publish (SendSyncResponseEvent origin blocks highest_pc)))))"

text \<open>An \<^verbatim>\<open>expect\<close> panics on an error.\<close>

definition expect :: "'r res \<Rightarrow> 'r res" where
  "expect r = (case r of Inl (Panicked p) \<Rightarrow> Inl (Panicked p) | Inl Diverged \<Rightarrow> Inl Diverged
     | Inl _ \<Rightarrow> Inl (Panicked ExpectOnErr) | Inr x \<Rightarrow> Inr x)"

definition advertise :: "prims \<Rightarrow> kv_store \<Rightarrow> instant \<Rightarrow> (block_sync_server, fault, unit) proc" where
  "advertise P s now =
     pbind (pread (\<lambda>_. expect (kv_highest_pc P s))) (\<lambda>highest_pc.
     pbind (pread (\<lambda>_. expect (bt_highest_committed_block_height P s))) (\<lambda>hc.
     pthen (sv_emit (Broadcast (ProgressMessage (BlockSyncAdvertiseMessage (AdvertisePCMsg \<lparr>ap_highest_pc = highest_pc\<rparr>)))))
     (pbind (pgets id) (\<lambda>sv.
      pthen (sv_emit (Broadcast (ProgressMessage (BlockSyncAdvertiseMessage (AdvertiseBlockMsg
        (advertise_block_new P (sv_keypair sv) (sv_chain_id sv) (case hc of None \<Rightarrow> 0 | Some h \<Rightarrow> h)))))))
      (pmodify (\<lambda>sv. sv\<lparr>sv_last_advertisement := now\<rparr>))))))"

text \<open>One turn of the server thread; a request for another chain skips the advertisement too.\<close>

definition server_step ::
  "prims \<Rightarrow> kv_store \<Rightarrow> (nat \<Rightarrow> instant) \<Rightarrow> (verifying_key \<times> block_sync_request) option \<Rightarrow> (block_sync_server, fault, unit) proc" where
  "server_step P s now req =
     pbind (pgets sv_chain_id) (\<lambda>chain_id.
     let advertise_if_due = pbind (pgets id) (\<lambda>sv.
           pwhen (now 0 - sv_last_advertisement sv \<ge> sv_advertise_time sv) (advertise P s (now 1))) in
     case req of
       None \<Rightarrow> advertise_if_due
     | Some (origin, r) \<Rightarrow>
         if bsr_chain_id r \<noteq> chain_id then pret ()
         else pthen (respond P s origin r) advertise_if_due)"

section \<open>What the server sends\<close>

text \<open>The blocks of the height index from a height on, without a gap, up to its end.\<close>

definition committed_run :: "prims \<Rightarrow> kv_store \<Rightarrow> block_height \<Rightarrow> block list \<Rightarrow> bool" where
  "committed_run P s h bs \<longleftrightarrow>
     (\<forall>i < length bs. \<exists>hash. kv_block_at_height P s (h + of_nat i) = Inr (Some hash) \<and> kv_block P s hash = Inr (Some (bs ! i))) \<and>
     kv_block_at_height P s (h + of_nat (length bs)) = Inr None"

lemma committed_run_Nil: "committed_run P s h [] \<longleftrightarrow> kv_block_at_height P s h = Inr None"
  by (simp add: committed_run_def)

lemma committed_run_Cons:
  "committed_run P s h (b # bs) \<longleftrightarrow>
     (\<exists>hash. kv_block_at_height P s h = Inr (Some hash) \<and> kv_block P s hash = Inr (Some b)) \<and> committed_run P s (h + 1) bs"
  by (auto simp: committed_run_def All_less_Suc2 algebra_simps)

lemma committed_from_run:
  assumes "committed_run P s h bs" and "len < unat limit"
  shows "committed_from P s limit h len = Some (Inr (take (unat limit - len) bs, unat limit - len \<le> length bs))"
  using assms
proof (induction bs arbitrary: h len)
  case Nil
  then show ?case by (subst committed_from.simps) (simp add: committed_run_Nil)
next
  case (Cons b bs)
  from Cons.prems(1) obtain hash where h: "kv_block_at_height P s h = Inr (Some hash)" "kv_block P s hash = Inr (Some b)"
    and rest: "committed_run P s (h + 1) bs" by (auto simp: committed_run_Cons)
  show ?case
  proof (cases "Suc len = unat limit")
    case True
    then have "unat limit - len = 1" by simp
    with h True show ?thesis by (subst committed_from.simps) simp
  next
    case False
    with Cons.prems(2) have l: "Suc len < unat limit" by simp
    from Cons.IH [OF rest l] h False l show ?thesis
      by (subst committed_from.simps) (auto simp: take_Cons' Suc_diff_Suc)
  qed
qed

lemma push_until_take: "length res < limit \<Longrightarrow> push_until limit res bs = take limit (res @ bs)"
proof (induction limit res bs rule: push_until.induct)
  case (2 limit res b bs)
  then show ?case by (cases "Suc (length res) = limit") auto
qed simp

lemma blocks_from_height_run:
  assumes "0 < limit" and "committed_run P s h bs" and "blocks_from_newest_to_committed P s = Inr spec"
  shows "blocks_from_height_to_newest P s h limit = Inr (take (unat limit) (bs @ rev spec))"
proof -
  have l: "0 < unat limit" using assms(1) by (simp add: word_less_nat_alt)
  show ?thesis
    using committed_from_run [OF assms(2) l] assms(3) l push_until_take [of bs "unat limit" "rev spec"]
    by (auto simp: blocks_from_height_to_newest_def)
qed

text \<open>The walk from the newest block ends on a tree whose links go down in height.\<close>

lemma newest_loop_ends:
  assumes "chain_wf P s"
  shows "kv_block_height P s b = Inr (Some h) \<Longrightarrow> newest_loop P s b \<noteq> None"
proof (induction "unat h" arbitrary: b h rule: less_induct)
  case less
  show ?case
  proof (cases "rbind (kv_block P s b) (\<lambda>x. ok_or x (BlockTreeFault (BlockExpectedButNotFound b)))")
    case (Inl e)
    then show ?thesis by (subst newest_loop.simps) simp
  next
    case (Inr block)
    show ?thesis
    proof (cases "kv_highest_committed_block P s")
      case (Inl e)
      with Inr show ?thesis by (subst newest_loop.simps) simp
    next
      case (Inr hc)
      have j: "kv_block_justify P s b = Inr (b_justify block)"
        using \<open>rbind (kv_block P s b) _ = Inr block\<close> by (auto simp: kv_block_def rbind_eq_Inr_iff ok_or_def split: option.splits)
      show ?thesis
      proof (cases "hc = Some (pc_block (b_justify block)) \<or> b_justify block = genesis_pc")
        case True
        with \<open>rbind (kv_block P s b) _ = Inr block\<close> Inr show ?thesis by (subst newest_loop.simps) simp
      next
        case False
        then have "chain_next P s b = Some (pc_block (b_justify block))" using j by (simp add: chain_next_def is_genesis_pc_def)
        with assms less(2) obtain hp where "kv_block_height P s (pc_block (b_justify block)) = Inr (Some hp)" "unat hp < unat h"
          unfolding chain_wf_def by (metis Inr_inject option.inject word_less_nat_alt)
        from less(1) [OF this(2,1)] False \<open>rbind (kv_block P s b) _ = Inr block\<close> Inr show ?thesis
          by (subst newest_loop.simps) auto
      qed
    qed
  qed
qed

text \<open>
  C30. What a sync response contains. On a tree whose links go down in height the server's walk from the newest block
  always ends, and to a request it sends the committed blocks from the requested height on, in the order of their
  heights, followed by the speculative blocks up to the newest one, oldest first, together with the highest PC. The
  number of blocks is cut at the larger of the requester's limit and the server's own.
\<close>

lemma server_sends_chain:
  assumes "chain_wf P s" and "kv_newest_block P s = Inr (Some newest)" and "kv_block_height P s newest = Inr (Some hn)"
    and "committed_run P s (bsr_start_height req) bs" and "kv_highest_pc P s = Inr pc"
    and "0 < max (bsr_limit req) (sv_request_limit sv)"
  shows "newest_loop P s newest \<noteq> None \<and>
    (\<forall>spec. newest_loop P s newest = Some (Inr spec) \<longrightarrow>
      (\<exists>sv'. respond P s origin req sv = (Inr (), sv') \<and>
        Send origin (BlockSyncMessage (BlockSyncResponse
          \<lparr>bsp_blocks = take (unat (max (bsr_limit req) (sv_request_limit sv))) (bs @ rev spec), bsp_highest_pc = pc\<rparr>))
        \<in> set (sv_out sv')))"
proof (intro conjI allI impI)
  show "newest_loop P s newest \<noteq> None" using assms(1,3) by (rule newest_loop_ends)
next
  fix spec assume "newest_loop P s newest = Some (Inr spec)"
  then have "blocks_from_newest_to_committed P s = Inr spec" using assms(2) by (simp add: blocks_from_newest_to_committed_def)
  from blocks_from_height_run [OF assms(6,4) this] assms(5)
  show "\<exists>sv'. respond P s origin req sv = (Inr (), sv') \<and>
        Send origin (BlockSyncMessage (BlockSyncResponse
          \<lparr>bsp_blocks = take (unat (max (bsr_limit req) (sv_request_limit sv))) (bs @ rev spec), bsp_highest_pc = pc\<rparr>))
        \<in> set (sv_out sv')"
    by (simp add: respond_def pthen_def pbind_def pgets_def sv_publish_def sv_emit_def pmodify_def)
qed

section \<open>What the client accepts\<close>

text \<open>
  C39. Expiry of a blacklisting is inverted: a freshly blacklisted server is taken off the list by the first clean-up at or
  before the expiry time, and is kept by every clean-up after the expiry time (the expiry time is an instant that can
  be represented, otherwise blacklisting panics).
\<close>

lemma blacklist_expiry_inverted:
  assumes "bc_blacklist c = []" and "blacklist_sync_server t k c = Inr c'"
  shows "blacklist_contains_server_address (remove_expired_blacklisted_servers now c') k \<longleftrightarrow>
    t + bc_blacklist_expiry_time c < now"
  using assms(1) by (auto simp: blacklist_simps remove_expired_blacklisted_servers_def blacklist_sync_server_fields [OF assms(2)])

lemma bt_update_newest:
  "bt_update P pub pc s = Inr (r, ev, s') \<Longrightarrow> kv_newest_block P s' = kv_newest_block P s"
  using bt_update_frame [of P pub pc s r ev s' PNewestBlock] by (simp add: kv_newest_block_def kv_get_opt_def)

lemma bt_insert_newest: "kv_newest_block P (bt_insert P b au vu s) = Inr (Some (b_hash b))"
  by (simp add: kv_newest_block_def kv_get_opt_def bt_insert_path)

lemma sync_block_cases:
  assumes "sync_block P app b n = (Inr ok, n')"
  shows "nd_client n' = nd_client n \<and> (ok \<longrightarrow> block_is_correct P (nd_store n) b = Inr True \<and>
    safe_block P (nd_store n) (bc_chain_id (nd_client n)) b = Inr True \<and>
    (\<exists>view au vu. bt_app_view P (nd_store n) (if is_genesis_pc (b_justify b) then None else Some (pc_block (b_justify b))) = Inr view \<and>
       fst (app_validate_block_for_sync app \<lparr>vbq_proposed_block = b, vbq_block_tree_view = view\<rparr> (nd_app n)) = Valid au vu) \<and>
    kv_newest_block P (nd_store n') = Inr (Some (b_hash b)))"
proof -
  let ?good = "rand (block_is_correct P (nd_store n) b) (safe_block P (nd_store n) (bc_chain_id (nd_client n)) b)"
  let ?view = "bt_app_view P (nd_store n) (if is_genesis_pc (b_justify b) then None else Some (pc_block (b_justify b)))"
  let ?val = "\<lambda>view. app_validate_block_for_sync app \<lparr>vbq_proposed_block = b, vbq_block_tree_view = view\<rparr> (nd_app n)"
  note step = sync_block_def pbind_def pgets_def read_store_def pread_def call_app_def pret_def
  show ?thesis
  proof (cases "?good = Inr True")
    case False
    with assms show ?thesis by (cases ?good) (auto simp: step)
  next
    case good: True
    show ?thesis
    proof (cases ?view)
      case (Inl e)
      with assms good show ?thesis by (simp add: step)
    next
      case view: (Inr view)
      obtain resp a where val: "?val view = (resp, a)" by fastforce
      show ?thesis
      proof (cases resp)
        case Invalid
        with assms good view val show ?thesis by (auto simp: step)
      next
        case (Valid au vu)
        let ?s = "bt_insert P b au vu (nd_store n)"
        let ?m = "n\<lparr>nd_app := a, nd_store := ?s, nd_out := nd_out n @ (if nd_publisher n then [Published (InsertBlockEvent b)] else [])\<rparr>"
        have run: "sync_block P app b n = (pbind (update_block_tree P (b_justify b)) (\<lambda>vsu. pthen (update_validator_set vsu) (pret True))) ?m"
          using good view val Valid
          by (simp add: sync_block_def pbind_def pgets_def read_store_def pread_def call_app_def pthen_def write_store_def
              pmodify_def event_publish_def)
        from assms run obtain vsu evs s' where up: "bt_update P (nd_publisher n) (b_justify b) ?s = Inr (vsu, evs, s')"
          and n': "nd_store n' = s'" "nd_client n' = nd_client n"
          by (cases "bt_update P (nd_publisher n) (b_justify b) ?s")
             (auto simp: pbind_def update_block_tree_def pthen_def update_validator_set_def pret_def emit_def pmodify_def split: option.splits)
        have "kv_newest_block P s' = Inr (Some (b_hash b))"
          using bt_update_newest [OF up] bt_insert_newest by simp
        with good view val Valid n' show ?thesis by (auto simp: rand_eq_True)
      qed
    qed
  qed
qed

text \<open>
  C31. Sync accepts only checked blocks: when processing a synced block succeeds, the block was correct (its hash and its
  justify, against the replica's own tree) and safe, the application validated it on the app state of its parent, and
  it is now the newest block of the tree.
\<close>

lemma sync_block_inserts_checked:
  assumes "sync_block P app b n = (Inr True, n')"
  shows "block_is_correct P (nd_store n) b = Inr True \<and> safe_block P (nd_store n) (bc_chain_id (nd_client n)) b = Inr True \<and>
    (\<exists>view au vu. bt_app_view P (nd_store n) (if is_genesis_pc (b_justify b) then None else Some (pc_block (b_justify b))) = Inr view \<and>
       fst (app_validate_block_for_sync app \<lparr>vbq_proposed_block = b, vbq_block_tree_view = view\<rparr> (nd_app n)) = Valid au vu) \<and>
    kv_newest_block P (nd_store n') = Inr (Some (b_hash b))"
  using sync_block_cases [OF assms] by simp

text \<open>
  A server that sends a bad block is dropped: whenever processing the blocks of a response stops early because a block
  is incorrect, unsafe or refused by the application, the server is on the blacklist afterwards and no longer among
  the available servers, whatever blocks before it were accepted.
\<close>

lemma bad_block_blacklists_server:
  assumes "sync_blocks P app E peer pc bs k n = (Inr None, n')"
  shows "blacklist_contains_server_address (nd_client n') peer \<and>
    \<not> hm_contains_key (bc_available_sync_servers (nd_client n')) peer"
  using assms
proof (induction bs arbitrary: k n)
  case (Cons b bs)
  then obtain ok m where m: "sync_block P app b n = (Inr ok, m)"
    by (auto simp: pbind_def split: prod.splits sum.splits)
  show ?case
  proof (cases ok)
    case True
    with m Cons.prems obtain m2 where "sync_blocks P app E peer pc bs (k + 1) m2 = (Inr None, n')"
      by (auto simp: pbind_def pthen_def split: prod.splits sum.splits)
    then show ?thesis by (rule Cons.IH)
  next
    case False
    with m Cons.prems have "blacklist_sync_server (se_blacklist_time E) peer (nd_client m) = Inr (nd_client n')"
      by (auto simp: pbind_def pthen_def blacklist_peer_def try_set_client_def pmodify_def end_sync_def event_publish_def pret_def
          split: if_splits sum.splits)
    from blacklist_sync_server_fields [OF this] show ?thesis by (simp add: blacklist_simps hm_contains_key_get)
  qed
qed (simp add: pret_def)

end
