(* ===== verification/Msg_Buffer.thy ===== *)
theory Msg_Buffer
  imports Messages
begin

text \<open>
  The poller, the view-aware message buffer and the receiving ends of progress messages and sync requests
  (\<^verbatim>\<open>networking/receiving.rs\<close>).
  The \<^verbatim>\<open>BTreeMap\<close> of queues is an association list in ascending order of views; the sizes that
  \<^verbatim>\<open>mem::size_of\<close> reports are a parameter. Proved here: the buffer keeps its shape, eviction drops the
  shortest sufficient run of the newest messages of the highest views, receiving delivers only
  messages the subprotocols may process, and the byte counter is not kept when messages leave.
\<close>

section \<open>The buffer\<close>

type_synonym stored_msg = "verifying_key \<times> progress_message"

definition msg_bytes :: "sizes \<Rightarrow> stored_msg \<Rightarrow> u64" where
  "msg_bytes S x = sz_verifying_key S + prm_size S (snd x)"

record msg_buffer =
  mb_capacity :: buffer_size
  mb_buffer :: "(view_number \<times> stored_msg list) list"
  mb_size :: buffer_size

definition mb_new :: "buffer_size \<Rightarrow> msg_buffer" where
  "mb_new capacity = \<lparr>mb_capacity = capacity, mb_buffer = [], mb_size = 0\<rparr>"

text \<open>What is used of \<^verbatim>\<open>BTreeMap\<close>: the queue of a view (empty when there is none), and \<^verbatim>\<open>push_back\<close> on it.\<close>

definition mb_queue :: "(view_number \<times> stored_msg list) list \<Rightarrow> view_number \<Rightarrow> stored_msg list" where
  "mb_queue m v = (case map_of m v of None \<Rightarrow> [] | Some q \<Rightarrow> q)"

fun push_back :: "view_number \<Rightarrow> stored_msg \<Rightarrow> (view_number \<times> stored_msg list) list \<Rightarrow> (view_number \<times> stored_msg list) list" where
  "push_back v x [] = [(v, [x])]"
| "push_back v x ((w, q) # m) =
     (if v = w then (w, q @ [x]) # m else if v < w then (v, [x]) # (w, q) # m else (w, q) # push_back v x m)"

text \<open>How many messages \<^verbatim>\<open>take_while\<close> accepts, from the back of a queue, and the bytes counted so far.\<close>

fun count_removals :: "sizes \<Rightarrow> u64 \<Rightarrow> u64 \<Rightarrow> stored_msg list \<Rightarrow> u64 \<times> nat" where
  "count_removals S bytes_to_remove bytes_removed [] = (bytes_removed, 0)"
| "count_removals S bytes_to_remove bytes_removed (x # xs) =
     (if bytes_removed < bytes_to_remove
      then let (r, c) = count_removals S bytes_to_remove (bytes_removed + msg_bytes S x) xs in (r, Suc c)
      else (bytes_removed, 0))"

text \<open>The loop over the queues, highest view first: bytes removed, views left without messages, and the queues.\<close>

fun remove_loop ::
  "sizes \<Rightarrow> u64 \<Rightarrow> u64 \<Rightarrow> (view_number \<times> stored_msg list) list \<Rightarrow> u64 \<times> view_number list \<times> (view_number \<times> stored_msg list) list" where
  "remove_loop S bytes_to_remove bytes_removed [] = (bytes_removed, [], [])"
| "remove_loop S bytes_to_remove bytes_removed ((v, q) # rest) =
     (if bytes_removed < bytes_to_remove
      then
        let (removed, removals) = count_removals S bytes_to_remove bytes_removed (rev q);
            q' = take (length q - removals) q;
            (removed', views, rest') = remove_loop S bytes_to_remove removed rest
        in (removed', if q' = [] then v # views else views, (v, q') # rest')
      else (bytes_removed, [], (v, q) # rest))"

definition remove_highest_viewed_msgs :: "sizes \<Rightarrow> u64 \<Rightarrow> msg_buffer \<Rightarrow> msg_buffer" where
  "remove_highest_viewed_msgs S bytes_to_remove b =
     (let (bytes_removed, views_removed, queues) = remove_loop S bytes_to_remove 0 (rev (mb_buffer b))
      in b\<lparr>mb_size := mb_size b - bytes_removed,
           mb_buffer := filter (\<lambda>(v, q). v \<notin> set views_removed) (rev queues)\<rparr>)"

definition max_view :: "msg_buffer \<Rightarrow> view_number option" where
  "max_view b = (if mb_buffer b = [] then None else Some (fst (last (mb_buffer b))))"

definition mb_insert :: "sizes \<Rightarrow> view_number \<Rightarrow> progress_message \<Rightarrow> verifying_key \<Rightarrow> msg_buffer \<Rightarrow> bool \<times> msg_buffer" where
  "mb_insert S view msg sender b =
     (let bytes_requested = msg_bytes S (sender, msg);
          overloaded = (unat (mb_size b) + unat bytes_requested \<ge> 2 ^ 64 \<or> mb_size b + bytes_requested > mb_capacity b);
          cache_if_overloaded = (case max_view b of None \<Rightarrow> True | Some m \<Rightarrow> view < m);
          b = (if overloaded \<and> cache_if_overloaded then remove_highest_viewed_msgs S bytes_requested b else b)
      in if \<not> overloaded \<or> (overloaded \<and> cache_if_overloaded)
         then (True, b\<lparr>mb_size := mb_size b + bytes_requested, mb_buffer := push_back view (sender, msg) (mb_buffer b)\<rparr>)
         else (False, b))"

fun pop_front :: "view_number \<Rightarrow> (view_number \<times> stored_msg list) list \<Rightarrow> stored_msg option \<times> (view_number \<times> stored_msg list) list" where
  "pop_front v [] = (None, [])"
| "pop_front v ((w, q) # m) =
     (if v = w then (case q of [] \<Rightarrow> (None, (w, []) # m) | x # q' \<Rightarrow> (Some x, (w, q') # m))
      else let (r, m') = pop_front v m in (r, (w, q) # m'))"

definition get_msg :: "view_number \<Rightarrow> msg_buffer \<Rightarrow> stored_msg option \<times> msg_buffer" where
  "get_msg view b = (let (r, m) = pop_front view (mb_buffer b) in (r, b\<lparr>mb_buffer := m\<rparr>))"

definition remove_expired_msgs :: "view_number \<Rightarrow> msg_buffer \<Rightarrow> msg_buffer" where
  "remove_expired_msgs cur_view b = b\<lparr>mb_buffer := filter (\<lambda>(v, q). cur_view \<le> v) (mb_buffer b)\<rparr>"

section \<open>Receiving\<close>

text \<open>
  What the channel yields while \<^verbatim>\<open>recv\<close> waits, each with the clock reading of the loop test before it. When
  the list is exhausted the deadline passes.
\<close>

datatype chan_result = Received verifying_key progress_message | RecvTimeout | RecvDisconnected

datatype recv_result = GotMsg verifying_key progress_message | ReceiveTimeout | ReceiveDisconnected

definition cache_future :: "sizes \<Rightarrow> view_number \<Rightarrow> verifying_key \<Rightarrow> progress_message \<Rightarrow> msg_buffer \<Rightarrow> msg_buffer" where
  "cache_future S cur_view sender msg b =
     (case prm_view msg of
        None \<Rightarrow> b
      | Some view \<Rightarrow> if view > cur_view then snd (mb_insert S view msg sender b) else b)"

fun return_msg :: "view_number \<Rightarrow> progress_message \<Rightarrow> bool" where
  "return_msg cur_view (HotStuffMessage m) = (hm_view m = cur_view)"
| "return_msg cur_view (PacemakerMessage m) = (pm_view m \<ge> cur_view)"
| "return_msg cur_view (BlockSyncAdvertiseMessage m) = True"

fun recv_loop :: "sizes \<Rightarrow> chain_id \<Rightarrow> view_number \<Rightarrow> nat \<Rightarrow> (nat \<times> chan_result) list \<Rightarrow> msg_buffer \<Rightarrow> recv_result \<times> msg_buffer" where
  "recv_loop S chain_id cur_view deadline [] b = (ReceiveTimeout, b)"
| "recv_loop S chain_id cur_view deadline ((now, r) # rs) b =
     (if now < deadline then
        (case r of
           Received sender msg \<Rightarrow>
             (if prm_chain_id msg \<noteq> chain_id then recv_loop S chain_id cur_view deadline rs b
              else
                let b = cache_future S cur_view sender msg b in
                if return_msg cur_view msg then (GotMsg sender msg, b) else recv_loop S chain_id cur_view deadline rs b)
         | RecvTimeout \<Rightarrow> recv_loop S chain_id cur_view deadline rs b
         | RecvDisconnected \<Rightarrow> (ReceiveDisconnected, b))
      else (ReceiveTimeout, b))"

definition recv :: "sizes \<Rightarrow> chain_id \<Rightarrow> view_number \<Rightarrow> nat \<Rightarrow> (nat \<times> chan_result) list \<Rightarrow> msg_buffer \<Rightarrow> recv_result \<times> msg_buffer" where
  "recv S chain_id cur_view deadline rs b =
     (let b = remove_expired_msgs cur_view b in
      case get_msg cur_view b of
        (Some (sender, msg), b) \<Rightarrow> (GotMsg sender msg, b)
      | (None, b) \<Rightarrow> recv_loop S chain_id cur_view deadline rs b)"

section \<open>Polling\<close>

text \<open>
  The poller thread: what has been sent on each of the three channels and not been received yet. One turn with
  the shutdown signal and what the network yields; the result tells whether the thread returns.
\<close>

record poller_channels =
  to_progress_msg_receiver :: "(verifying_key \<times> progress_message) list"
  to_sync_request_receiver :: "(verifying_key \<times> block_sync_request) list"
  to_sync_response_receiver :: "(verifying_key \<times> block_sync_response) list"

fun distribute :: "verifying_key \<Rightarrow> message \<Rightarrow> poller_channels \<Rightarrow> poller_channels" where
  "distribute origin (ProgressMessage p_msg) c = c\<lparr>to_progress_msg_receiver := to_progress_msg_receiver c @ [(origin, p_msg)]\<rparr>"
| "distribute origin (BlockSyncMessage (BlockSyncRequest s_req)) c =
     c\<lparr>to_sync_request_receiver := to_sync_request_receiver c @ [(origin, s_req)]\<rparr>"
| "distribute origin (BlockSyncMessage (BlockSyncResponse s_res)) c =
     c\<lparr>to_sync_response_receiver := to_sync_response_receiver c @ [(origin, s_res)]\<rparr>"

definition poller_turn ::
  "unit try_recv_result \<Rightarrow> (verifying_key \<times> message) option \<Rightarrow> (poller_channels, fault, bool) proc" where
  "poller_turn shutdown received = (\<lambda>c. case shutdown of
       TryOk _ \<Rightarrow> (Inr True, c)
     | TryDisconnected \<Rightarrow> (Inl (Panicked ExplicitPanic), c)
     | TryEmpty \<Rightarrow> (Inr False, case received of None \<Rightarrow> c | Some (origin, msg) \<Rightarrow> distribute origin msg c))"

text \<open>The receiving end of sync requests.\<close>

datatype request_result = GotRequest verifying_key block_sync_request | RequestDisconnected | RequestNotAvailable

fun recv_request :: "(verifying_key \<times> block_sync_request) try_recv_result \<Rightarrow> request_result" where
  "recv_request (TryOk (origin, request)) = GotRequest origin request"
| "recv_request TryDisconnected = RequestDisconnected"
| "recv_request TryEmpty = RequestNotAvailable"

section \<open>The shape of the buffer\<close>

text \<open>Ascending views, and every message under its own view and of the replica's chain.\<close>

definition queues_ok :: "chain_id \<Rightarrow> (view_number \<times> stored_msg list) list \<Rightarrow> bool" where
  "queues_ok c m \<longleftrightarrow> sorted_wrt (<) (map fst m) \<and>
     (\<forall>(v, q) \<in> set m. \<forall>(k, msg) \<in> set q. prm_view msg = Some v \<and> prm_chain_id msg = c)"

abbreviation mb_ok :: "chain_id \<Rightarrow> msg_buffer \<Rightarrow> bool" where
  "mb_ok c b \<equiv> queues_ok c (mb_buffer b)"

lemma queues_ok_Nil [simp]: "queues_ok c []"
  by (simp add: queues_ok_def)

lemma queues_ok_Cons:
  "queues_ok c ((v, q) # m) \<longleftrightarrow> (\<forall>w \<in> fst ` set m. v < w) \<and>
     (\<forall>(k, msg) \<in> set q. prm_view msg = Some v \<and> prm_chain_id msg = c) \<and> queues_ok c m"
  by (auto simp: queues_ok_def)

lemma set_push_back: "fst ` set (push_back v x m) = insert v (fst ` set m)"
  by (induction v x m rule: push_back.induct) auto

lemma push_back_ok:
  "queues_ok c m \<Longrightarrow> prm_view msg = Some v \<Longrightarrow> prm_chain_id msg = c \<Longrightarrow> queues_ok c (push_back v (k, msg) m)"
proof (induction v "(k, msg)" m rule: push_back.induct)
  case (2 v w q m)
  then show ?case using set_push_back [of v "(k, msg)" m] by (auto simp: queues_ok_Cons)
qed (simp add: queues_ok_Cons)

lemma queue_push_back:
  "queues_ok c m \<Longrightarrow> mb_queue (push_back v x m) w = (if w = v then mb_queue m v @ [x] else mb_queue m w)"
proof (induction v x m rule: push_back.induct)
  case (2 v x u q m)
  have none: "map_of m v = None" if "v < u"
    using that 2(2) by (auto simp: queues_ok_Cons map_of_eq_None_iff)
  have IH: "mb_queue (push_back v x m) w = (if w = v then mb_queue m v @ [x] else mb_queue m w)" if "v \<noteq> u" "\<not> v < u"
    using 2 that by (auto simp: queues_ok_Cons)
  from none IH show ?case by (auto simp: mb_queue_def)
qed (simp add: mb_queue_def)

lemma pop_front_spec:
  assumes "queues_ok c m"
  shows "queues_ok c (snd (pop_front v m)) \<and> fst ` set (snd (pop_front v m)) = fst ` set m \<and>
    fst (pop_front v m) = (case mb_queue m v of [] \<Rightarrow> None | x # q \<Rightarrow> Some x) \<and>
    mb_queue (snd (pop_front v m)) = (mb_queue m)(v := tl (mb_queue m v))"
  using assms
proof (induction v m rule: pop_front.induct)
  case (2 v w q m)
  show ?case
  proof (cases "v = w")
    case True
    with 2(2) show ?thesis by (cases q) (auto simp: mb_queue_def queues_ok_Cons fun_eq_iff)
  next
    case False
    obtain r m' where p: "pop_front v m = (r, m')" by fastforce
    from 2(2) have "queues_ok c m" by (simp add: queues_ok_Cons)
    with 2(1) False p have "queues_ok c m'" "fst ` set m' = fst ` set m"
      "r = (case mb_queue m v of [] \<Rightarrow> None | x # q \<Rightarrow> Some x)" "mb_queue m' = (mb_queue m)(v := tl (mb_queue m v))" by auto
    with False p 2(2) show ?thesis by (auto simp: mb_queue_def queues_ok_Cons fun_eq_iff split: option.splits)
  qed
qed (simp add: mb_queue_def fun_eq_iff)

lemma filter_ok: "queues_ok c m \<Longrightarrow> queues_ok c (filter P m)"
  by (induction m) (auto simp: queues_ok_Cons)

section \<open>Eviction\<close>

text \<open>All messages, in ascending order of views, oldest first within a view.\<close>

definition mb_msgs :: "(view_number \<times> stored_msg list) list \<Rightarrow> stored_msg list" where
  "mb_msgs m = concat (map snd m)"

text \<open>The nested loop counts as one loop over all messages from the back.\<close>

lemma count_removals_le: "snd (count_removals S n r xs) \<le> length xs"
  by (induction S n r xs rule: count_removals.induct) (auto split: prod.splits)

lemma count_removals_stop: "\<not> r < n \<Longrightarrow> count_removals S n r xs = (r, 0)"
  by (cases xs) simp_all

lemma count_removals_append:
  "count_removals S n r (xs @ ys) = (let (r1, c1) = count_removals S n r xs in
     if c1 = length xs then (let (r2, c2) = count_removals S n r1 ys in (r2, c1 + c2)) else (r1, c1))"
  by (induction S n r xs rule: count_removals.induct) (auto simp: count_removals_stop split: prod.splits)

lemma count_removals_short:
  "snd (count_removals S n r xs) < length xs \<Longrightarrow> \<not> fst (count_removals S n r xs) < n"
  by (induction S n r xs rule: count_removals.induct) (auto split: prod.splits)

lemma remove_loop_stop: "\<not> r < n \<Longrightarrow> remove_loop S n r D = (r, [], D)"
  by (cases D) auto

lemma mb_msgs_simps [simp]:
  "mb_msgs [] = []" "mb_msgs ((v, q) # m) = q @ mb_msgs m" "mb_msgs (m @ m') = mb_msgs m @ mb_msgs m'"
  by (simp_all add: mb_msgs_def)

lemma remove_loop_flat:
  "remove_loop S n r D = (r', vs, D') \<Longrightarrow>
     \<exists>k. count_removals S n r (rev (mb_msgs (rev D))) = (r', k) \<and>
       mb_msgs (rev D') = take (length (mb_msgs (rev D)) - k) (mb_msgs (rev D))"
proof (induction S n r D arbitrary: r' vs D' rule: remove_loop.induct)
  case (2 S n r v q rest)
  show ?case
  proof (cases "r < n")
    case False
    with 2(2) show ?thesis by (auto simp: count_removals_stop)
  next
    case True
    obtain removed c where c: "count_removals S n r (rev q) = (removed, c)" by fastforce
    obtain removed' vs' rest' where l: "remove_loop S n removed rest = (removed', vs', rest')" by (metis prod_cases3)
    from 2(2) True c l have D': "r' = removed'" "D' = (v, take (length q - c) q) # rest'" by (auto simp: Let_def split: if_splits)
    have le: "c \<le> length q" using count_removals_le [of S n r "rev q"] c by simp
    from 2(1) [OF True c [symmetric] refl refl l] obtain k where k:
      "count_removals S n removed (rev (mb_msgs (rev rest))) = (removed', k)"
      "mb_msgs (rev rest') = take (length (mb_msgs (rev rest)) - k) (mb_msgs (rev rest))" by blast
    show ?thesis
    proof (cases "c = length q")
      case True
      with k c D' have "count_removals S n r (rev (mb_msgs (rev ((v, q) # rest)))) = (r', c + k)"
        by (simp add: count_removals_append)
      with True k(2) D' show ?thesis by simp
    next
      case False
      then have "\<not> removed < n" using le c count_removals_short [of S n r "rev q"] by simp
      then have "removed' = removed" "rest' = rest" using l by (simp_all add: remove_loop_stop)
      with False c D' le show ?thesis by (simp add: count_removals_append)
    qed
  qed
qed simp

lemma remove_loop_keys:
  "remove_loop S n r D = (r', vs, D') \<Longrightarrow> map fst D' = map fst D \<and>
     (\<forall>v q. (v, q) \<in> set D' \<longrightarrow> (\<exists>q0. (v, q0) \<in> set D \<and> set q \<subseteq> set q0)) \<and> (\<forall>v \<in> set vs. (v, []) \<in> set D')"
proof (induction S n r D arbitrary: r' vs D' rule: remove_loop.induct)
  case (2 S n r v q rest)
  show ?case
  proof (cases "r < n")
    case False
    with 2(2) show ?thesis by auto
  next
    case True
    obtain removed c where c: "count_removals S n r (rev q) = (removed, c)" by fastforce
    obtain removed' vs' rest' where l: "remove_loop S n removed rest = (removed', vs', rest')" by (metis prod_cases3)
    from 2(2) True c l have D': "D' = (v, take (length q - c) q) # rest'" "set vs \<subseteq> insert v (set vs')"
      "v \<in> set vs \<Longrightarrow> v \<notin> set vs' \<Longrightarrow> take (length q - c) q = []" by (auto simp: Let_def split: if_splits)
    from 2(1) [OF True c [symmetric] refl refl l] D' show ?thesis
      by (auto dest: in_set_takeD) blast+
  qed
qed simp

lemma mb_msgs_filter: "\<forall>(v, q) \<in> set m. v \<in> V \<longrightarrow> q = [] \<Longrightarrow> mb_msgs (filter (\<lambda>(v, q). v \<notin> V) m) = mb_msgs m"
  by (induction m) auto

lemma queues_ok_distinct: "queues_ok c m \<Longrightarrow> distinct (map fst m)"
  unfolding queues_ok_def by (auto intro: strict_sorted_imp_sorted strict_sorted_equal simp: strict_sorted_iff)

lemma remove_highest_flat:
  assumes "mb_ok c b"
  shows "\<exists>r k. count_removals S n 0 (rev (mb_msgs (mb_buffer b))) = (r, k) \<and>
    mb_msgs (mb_buffer (remove_highest_viewed_msgs S n b)) = take (length (mb_msgs (mb_buffer b)) - k) (mb_msgs (mb_buffer b)) \<and>
    mb_size (remove_highest_viewed_msgs S n b) = mb_size b - r \<and> mb_ok c (remove_highest_viewed_msgs S n b) \<and>
    mb_capacity (remove_highest_viewed_msgs S n b) = mb_capacity b"
proof -
  obtain r vs D where l: "remove_loop S n 0 (rev (mb_buffer b)) = (r, vs, D)" by (metis prod_cases3)
  from remove_loop_flat [OF l] obtain k where k: "count_removals S n 0 (rev (mb_msgs (mb_buffer b))) = (r, k)"
    "mb_msgs (rev D) = take (length (mb_msgs (mb_buffer b)) - k) (mb_msgs (mb_buffer b))" by auto
  from remove_loop_keys [OF l] have keys: "map fst (rev D) = map fst (mb_buffer b)" "\<forall>v \<in> set vs. (v, []) \<in> set D"
    and sub: "\<And>v q. (v, q) \<in> set D \<Longrightarrow> \<exists>q0. (v, q0) \<in> set (mb_buffer b) \<and> set q \<subseteq> set q0"
    by (auto simp: rev_map [symmetric] rev_swap)
  have ok: "queues_ok c (rev D)" using assms sub unfolding queues_ok_def keys(1) by fastforce
  have "\<forall>(v, q) \<in> set (rev D). v \<in> set vs \<longrightarrow> q = []"
    using keys(2) eq_key_imp_eq_value [OF queues_ok_distinct [OF ok]] by fastforce
  from mb_msgs_filter [OF this] k ok filter_ok [OF ok] show ?thesis
    by (auto simp: remove_highest_viewed_msgs_def l)
qed

definition nat_bytes :: "sizes \<Rightarrow> stored_msg list \<Rightarrow> nat" where
  "nat_bytes S xs = sum_list (map (\<lambda>x. unat (msg_bytes S x)) xs)"

lemma nat_bytes_simps [simp]:
  "nat_bytes S [] = 0" "nat_bytes S (x # xs) = unat (msg_bytes S x) + nat_bytes S xs"
  "nat_bytes S (xs @ ys) = nat_bytes S xs + nat_bytes S ys" "nat_bytes S (rev xs) = nat_bytes S xs"
  by (simp_all add: nat_bytes_def sum_list_rev flip: rev_map)

lemma count_removals_bytes:
  assumes "unat r + nat_bytes S xs < 2 ^ 64" and "count_removals S n r xs = (r', k)"
  shows "k \<le> length xs \<and> unat r' = unat r + nat_bytes S (take k xs) \<and> (n \<le> r' \<or> k = length xs) \<and>
    (\<forall>j < k. unat r + nat_bytes S (take j xs) < unat n)"
  using assms
proof (induction S n r xs arbitrary: r' k rule: count_removals.induct)
  case (2 S n r x xs)
  show ?case
  proof (cases "r < n")
    case False
    with 2 show ?thesis by (auto simp: not_less)
  next
    case True
    obtain k1 where k1: "count_removals S n (r + msg_bytes S x) xs = (r', k1)" "k = Suc k1"
      using 2(3) True by (auto split: prod.splits)
    have u: "unat (r + msg_bytes S x) = unat r + unat (msg_bytes S x)"
      using 2(2) by (simp add: unat_word_ariths)
    have "unat (r + msg_bytes S x) + nat_bytes S xs < 2 ^ 64" using 2(2) u by simp
    from 2(1) [OF True this k1(1)] u True k1(2) show ?thesis
      by (auto simp: word_less_nat_alt less_Suc_eq_0_disj)
  qed
qed auto

text \<open>
  C29. Eviction is exact: asked to free a number of bytes, \<^verbatim>\<open>remove_highest_viewed_msgs\<close> drops a run of messages from the
  end of the buffer in the order of views and arrival, so only the newest messages of the highest views; what is dropped
  has at least the requested bytes unless the buffer was emptied, one message fewer would not have been enough, and
  the byte counter falls by exactly the bytes dropped.
\<close>

lemma eviction_exact:
  assumes "mb_ok c b" and "nat_bytes S (mb_msgs (mb_buffer b)) < 2 ^ 64"
  shows "\<exists>dropped. mb_msgs (mb_buffer b) = mb_msgs (mb_buffer (remove_highest_viewed_msgs S n b)) @ dropped \<and>
    (unat n \<le> nat_bytes S dropped \<or> mb_msgs (mb_buffer (remove_highest_viewed_msgs S n b)) = []) \<and>
    (dropped \<noteq> [] \<longrightarrow> nat_bytes S (tl dropped) < unat n) \<and>
    mb_size (remove_highest_viewed_msgs S n b) = mb_size b - of_nat (nat_bytes S dropped) \<and>
    mb_ok c (remove_highest_viewed_msgs S n b)"
proof -
  let ?m = "mb_msgs (mb_buffer b)" and ?b = "remove_highest_viewed_msgs S n b"
  from remove_highest_flat [OF assms(1)] obtain r k where
    k: "count_removals S n 0 (rev ?m) = (r, k)" and take: "mb_msgs (mb_buffer ?b) = take (length ?m - k) ?m"
    and size: "mb_size ?b = mb_size b - r" and ok: "mb_ok c ?b" by blast
  have "unat (0 :: u64) + nat_bytes S (rev ?m) < 2 ^ 64" using assms(2) by simp
  from count_removals_bytes [OF this k] have c: "k \<le> length ?m" "unat r = nat_bytes S (take k (rev ?m))"
    "n \<le> r \<or> k = length ?m" "\<And>j. j < k \<Longrightarrow> nat_bytes S (take j (rev ?m)) < unat n" by auto
  let ?d = "drop (length ?m - k) ?m"
  have d: "nat_bytes S (take k (rev ?m)) = nat_bytes S ?d" by (simp add: take_rev)
  have "nat_bytes S (tl ?d) < unat n" if "?d \<noteq> []"
  proof -
    have "0 < k" using that by (cases k) auto
    moreover have "tl ?d = drop (length ?m - (k - 1)) ?m" using \<open>0 < k\<close> c(1) by (simp add: Suc_diff_le drop_Suc tl_drop)
    ultimately show ?thesis using c(4) [of "k - 1"] by (simp add: take_rev)
  qed
  moreover have "mb_size ?b = mb_size b - of_nat (nat_bytes S ?d)" unfolding size d [symmetric] c(2) [symmetric] by simp
  moreover have "unat n \<le> nat_bytes S ?d \<or> mb_msgs (mb_buffer ?b) = []" using c(2,3) d take by (auto simp: word_le_nat_alt)
  ultimately show ?thesis using take ok by (intro exI [of _ ?d]) simp
qed

section \<open>Receiving\<close>

lemma mb_insert_ok:
  assumes "mb_ok c b" and "prm_view msg = Some v" and "prm_chain_id msg = c"
  shows "mb_ok c (snd (mb_insert S v msg sender b))"
proof -
  have "mb_ok c (remove_highest_viewed_msgs S n b)" for n using remove_highest_flat [OF assms(1)] by blast
  with assms show ?thesis by (auto simp: mb_insert_def Let_def intro: push_back_ok)
qed

lemma cache_future_ok:
  "mb_ok c b \<Longrightarrow> prm_chain_id msg = c \<Longrightarrow> mb_ok c (cache_future S cur_view sender msg b)"
  by (auto simp: cache_future_def mb_insert_ok split: option.splits)

lemma mb_queue_filter: "P v \<Longrightarrow> mb_queue (filter (\<lambda>(v, q). P v) m) v = mb_queue m v"
  by (induction m) (auto simp: mb_queue_def)

lemma mb_queue_filter_out: "\<not> P v \<Longrightarrow> mb_queue (filter (\<lambda>(v, q). P v) m) v = []"
  by (induction m) (auto simp: mb_queue_def split: if_splits)

lemma mb_msgs_empty:
  assumes "\<And>v. mb_queue m v = []" and "distinct (map fst m)"
  shows "mb_msgs m = []"
proof -
  have "q = []" if "(v, q) \<in> set m" for v q
    using that assms(1) [of v] map_of_is_SomeI [OF assms(2) that] by (simp add: mb_queue_def)
  then show ?thesis by (auto simp: mb_msgs_def)
qed

text \<open>What the subprotocols may be handed in a view.\<close>

definition deliverable :: "chain_id \<Rightarrow> view_number \<Rightarrow> progress_message \<Rightarrow> bool" where
  "deliverable c cur_view msg \<longleftrightarrow> prm_chain_id msg = c \<and> return_msg cur_view msg"

lemma recv_loop_ok:
  "mb_ok c b \<Longrightarrow> recv_loop S c cur_view deadline rs b = (r, b') \<Longrightarrow>
     mb_ok c b' \<and> (\<forall>k msg. r = GotMsg k msg \<longrightarrow> deliverable c cur_view msg)"
proof (induction S c cur_view deadline rs b rule: recv_loop.induct)
  case (2 S c cur_view deadline now x rs b)
  show ?case
  proof (cases "now < deadline")
    case True
    show ?thesis
    proof (cases x)
      case (Received k msg)
      with 2 True show ?thesis
        by (cases "prm_chain_id msg = c")
           (auto simp: Let_def deliverable_def cache_future_ok split: if_splits)
    qed (use 2 True in auto)
  qed (use 2 in auto)
qed auto

lemma queue_ok_at:
  assumes "queues_ok c m" and "mb_queue m v = (k, msg) # q"
  shows "prm_view msg = Some v \<and> prm_chain_id msg = c"
proof -
  from assms(2) obtain q' where "map_of m v = Some q'" "(k, msg) \<in> set q'" by (auto simp: mb_queue_def split: option.splits)
  moreover from this have "(v, q') \<in> set m" by (simp add: map_of_SomeD)
  ultimately show ?thesis using assms(1) unfolding queues_ok_def by fastforce
qed

lemma return_msg_current: "prm_view msg = Some v \<Longrightarrow> return_msg v msg"
  by (cases msg) auto

text \<open>Nothing of a past view is left, and nothing of a past view comes in.\<close>

definition no_past :: "view_number \<Rightarrow> msg_buffer \<Rightarrow> bool" where
  "no_past cur_view b \<longleftrightarrow> (\<forall>v \<in> fst ` set (mb_buffer b). cur_view \<le> v)"

lemma remove_highest_no_past: "no_past cur_view b \<Longrightarrow> no_past cur_view (remove_highest_viewed_msgs S n b)"
proof -
  assume past: "no_past cur_view b"
  obtain r vs D where l: "remove_loop S n 0 (rev (mb_buffer b)) = (r, vs, D)" by (metis prod_cases3)
  from remove_loop_keys [OF l] have "fst ` set D = fst ` set (mb_buffer b)" by (metis list.set_map set_rev)
  with past have "\<forall>v \<in> fst ` set D. cur_view \<le> v" by (simp add: no_past_def)
  with l show ?thesis by (auto simp: no_past_def remove_highest_viewed_msgs_def)
qed

lemma push_back_no_past:
  assumes "no_past cur_view b" and "cur_view < view"
  shows "no_past cur_view (b\<lparr>mb_size := n, mb_buffer := push_back view x (mb_buffer b)\<rparr>)"
proof -
  have "cur_view \<le> v" if "v \<in> fst ` set (push_back view x (mb_buffer b))" for v
    using that assms by (auto simp: set_push_back no_past_def simp del: ball_simps)
  then show ?thesis by (simp add: no_past_def)
qed

lemma cache_future_no_past: "no_past cur_view b \<Longrightarrow> no_past cur_view (cache_future S cur_view sender msg b)"
proof -
  assume past: "no_past cur_view b"
  have "no_past cur_view (snd (mb_insert S view msg sender b))" if "view > cur_view" for view
    using that past push_back_no_past remove_highest_no_past [OF past] by (simp add: mb_insert_def Let_def)
  with past show ?thesis by (auto simp: cache_future_def split: option.splits)
qed

lemma recv_loop_no_past:
  "no_past cur_view b \<Longrightarrow> recv_loop S c cur_view deadline rs b = (r, b') \<Longrightarrow> no_past cur_view b'"
proof (induction S c cur_view deadline rs b rule: recv_loop.induct)
  case (2 S c cur_view deadline now x rs b)
  then show ?case by (cases x) (auto simp: Let_def cache_future_no_past split: if_splits)
qed auto

lemma recv_correct:
  assumes "mb_ok c b" and "recv S c cur_view deadline rs b = (r, b')"
  shows "mb_ok c b' \<and> no_past cur_view b' \<and> (\<forall>k msg. r = GotMsg k msg \<longrightarrow> deliverable c cur_view msg) \<and>
    (\<forall>x q. mb_queue (mb_buffer b) cur_view = x # q \<longrightarrow>
       r = GotMsg (fst x) (snd x) \<and> mb_queue (mb_buffer b') cur_view = q)"
proof -
  let ?b = "remove_expired_msgs cur_view b"
  have ok: "mb_ok c ?b" using assms(1) by (simp add: remove_expired_msgs_def filter_ok)
  have q: "mb_queue (mb_buffer ?b) cur_view = mb_queue (mb_buffer b) cur_view"
    by (simp add: remove_expired_msgs_def mb_queue_filter)
  have keys: "no_past cur_view ?b" by (auto simp: no_past_def remove_expired_msgs_def)
  note pop = pop_front_spec [OF ok, of cur_view]
  show ?thesis
  proof (cases "mb_queue (mb_buffer b) cur_view")
    case Nil
    with pop q have "fst (pop_front cur_view (mb_buffer ?b)) = None" "mb_ok c (snd (get_msg cur_view ?b))"
      "no_past cur_view (snd (get_msg cur_view ?b))"
      using keys by (simp_all add: get_msg_def no_past_def case_prod_beta)
    with assms(2) recv_loop_no_past [of cur_view "snd (get_msg cur_view ?b)" S c deadline rs r b']
      recv_loop_ok [of c "snd (get_msg cur_view ?b)" S cur_view deadline rs r b'] Nil show ?thesis
      by (auto simp: recv_def Let_def get_msg_def split: prod.splits option.splits)
  next
    case (Cons x xs)
    obtain k msg where x: "x = (k, msg)" by fastforce
    have d: "deliverable c cur_view msg"
      using queue_ok_at [OF assms(1), of cur_view k msg xs] Cons x by (simp add: deliverable_def return_msg_current)
    obtain m where m: "pop_front cur_view (mb_buffer ?b) = (Some (k, msg), m)" "queues_ok c m" "mb_queue m cur_view = xs"
      "fst ` set m = fst ` set (mb_buffer ?b)" using pop q Cons x by (cases "pop_front cur_view (mb_buffer ?b)") simp
    have kx: "no_past cur_view (?b\<lparr>mb_buffer := m\<rparr>)" using keys m(4) by (simp add: no_past_def)
    have "r = GotMsg k msg" "b' = ?b\<lparr>mb_buffer := m\<rparr>"
      using assms(2) m(1) by (simp_all add: recv_def Let_def get_msg_def)
    then show ?thesis using d kx m(2,3) Cons x by simp
  qed
qed

text \<open>
  C28. Receiving respects the preconditions of the subprotocols: from a well-formed buffer, whatever the channel yields,
  \<^verbatim>\<open>recv\<close> leaves a well-formed buffer without messages of past views, and a message it returns is for this chain and is
  a HotStuff message of exactly the current view, a pacemaker message of the current or a later view, or a block sync
  advertisement. A buffered message of the current view is preferred over the channel, oldest first.
\<close>

lemma recv_delivers:
  assumes "mb_ok c b" and "recv S c cur_view deadline rs b = (r, b')"
  shows "mb_ok c b' \<and> (\<forall>v \<in> fst ` set (mb_buffer b'). cur_view \<le> v) \<and>
    (\<forall>k msg. r = GotMsg k msg \<longrightarrow> prm_chain_id msg = c \<and> (case msg of
         HotStuffMessage m \<Rightarrow> hm_view m = cur_view | PacemakerMessage m \<Rightarrow> cur_view \<le> pm_view m | BlockSyncAdvertiseMessage _ \<Rightarrow> True)) \<and>
    (\<forall>x q. mb_queue (mb_buffer b) cur_view = x # q \<longrightarrow>
       r = GotMsg (fst x) (snd x) \<and> mb_queue (mb_buffer b') cur_view = q)"
proof -
  have "case msg of HotStuffMessage m \<Rightarrow> hm_view m = cur_view | PacemakerMessage m \<Rightarrow> cur_view \<le> pm_view m
      | BlockSyncAdvertiseMessage _ \<Rightarrow> True" if "return_msg cur_view msg" for msg
    using that by (cases msg) simp_all
  with recv_correct [OF assms] show ?thesis by (auto simp: no_past_def deliverable_def)
qed

section \<open>The byte counter\<close>

text \<open>A message arrives for a later view, that view comes, and the message is taken out of the buffer.\<close>

definition pass_through :: "sizes \<Rightarrow> view_number \<Rightarrow> progress_message \<Rightarrow> verifying_key \<Rightarrow> msg_buffer \<Rightarrow> msg_buffer" where
  "pass_through S v msg sender b = snd (get_msg v (remove_expired_msgs v (snd (mb_insert S v msg sender b))))"

lemma pass_through_run:
  assumes "mb_msgs (mb_buffer b) = []" and "mb_ok (prm_chain_id msg) b" and "prm_view msg = Some v"
    and "unat (mb_size b) + unat (msg_bytes S (sender, msg)) \<le> unat (mb_capacity b)"
  shows "mb_msgs (mb_buffer (pass_through S v msg sender b)) = [] \<and> mb_ok (prm_chain_id msg) (pass_through S v msg sender b) \<and>
    unat (mb_size (pass_through S v msg sender b)) = unat (mb_size b) + unat (msg_bytes S (sender, msg)) \<and>
    mb_capacity (pass_through S v msg sender b) = mb_capacity b"
proof -
  have lt: "unat (mb_size b) + unat (msg_bytes S (sender, msg)) < 2 ^ 64"
    using assms(4) unsigned_less [of "mb_capacity b", where 'a = nat] by simp
  then have u: "unat (mb_size b + msg_bytes S (sender, msg)) = unat (mb_size b) + unat (msg_bytes S (sender, msg))"
    by (simp add: unat_word_ariths)
  let ?m = "push_back v (sender, msg) (mb_buffer b)"
  have ins: "mb_insert S v msg sender b = (True, b\<lparr>mb_size := mb_size b + msg_bytes S (sender, msg), mb_buffer := ?m\<rparr>)"
    using lt u assms(4) by (simp add: mb_insert_def Let_def word_less_nat_alt not_le)
  have ok: "queues_ok (prm_chain_id msg) ?m" using assms(2,3) by (simp add: push_back_ok)
  let ?f = "filter (\<lambda>(w, q). v \<le> w) ?m"
  have none: "mb_queue (mb_buffer b) w = []" for w
    using assms(1) by (auto simp: mb_msgs_def mb_queue_def dest!: map_of_SomeD split: option.splits)
  have "mb_queue ?f v = [(sender, msg)]" using assms(2) none by (simp add: mb_queue_filter queue_push_back)
  then have pop: "mb_queue (snd (pop_front v ?f)) = (mb_queue ?f)(v := [])" "queues_ok (prm_chain_id msg) (snd (pop_front v ?f))"
    using pop_front_spec [OF filter_ok [OF ok], of v "\<lambda>(w, q). v \<le> w"] by simp_all
  have "mb_queue ?f w = []" if "w \<noteq> v" for w
    using that assms(2) none by (cases "v \<le> w") (simp_all add: mb_queue_filter mb_queue_filter_out queue_push_back)
  with pop have "mb_queue (snd (pop_front v ?f)) w = []" for w by simp
  from mb_msgs_empty [OF this queues_ok_distinct [OF pop(2)]] pop(2) u show ?thesis
    by (simp add: pass_through_def ins get_msg_def remove_expired_msgs_def case_prod_beta)
qed

text \<open>
  C38. The byte counter only knows about arrivals and evictions: when the same message passes through the buffer any number
  of times (it arrives early, its view comes, it is handed out), the buffer is empty each time, yet the counter has grown
  by the size of the message each time, up to the capacity. From then on the buffer evicts, or drops messages, although
  it holds nothing.
\<close>

lemma buffer_counter_leaks:
  assumes "prm_view msg = Some v" and "i * unat (msg_bytes S (sender, msg)) \<le> unat capacity"
  shows "mb_msgs (mb_buffer ((pass_through S v msg sender ^^ i) (mb_new capacity))) = [] \<and>
    unat (mb_size ((pass_through S v msg sender ^^ i) (mb_new capacity))) = i * unat (msg_bytes S (sender, msg))"
proof -
  have "mb_msgs (mb_buffer ((pass_through S v msg sender ^^ i) (mb_new capacity))) = [] \<and>
    mb_ok (prm_chain_id msg) ((pass_through S v msg sender ^^ i) (mb_new capacity)) \<and>
    mb_capacity ((pass_through S v msg sender ^^ i) (mb_new capacity)) = capacity \<and>
    unat (mb_size ((pass_through S v msg sender ^^ i) (mb_new capacity))) = i * unat (msg_bytes S (sender, msg))"
    using assms(2)
  proof (induction i)
    case (Suc i)
    let ?b = "(pass_through S v msg sender ^^ i) (mb_new capacity)"
    from Suc have IH: "mb_msgs (mb_buffer ?b) = []" "mb_ok (prm_chain_id msg) ?b" "mb_capacity ?b = capacity"
      "unat (mb_size ?b) = i * unat (msg_bytes S (sender, msg))" by simp_all
    have "unat (mb_size ?b) + unat (msg_bytes S (sender, msg)) \<le> unat (mb_capacity ?b)" using IH(3,4) Suc.prems by simp
    from pass_through_run [OF IH(1,2) assms(1) this] IH(3,4) show ?case by simp
  qed (simp add: mb_new_def)
  then show ?thesis by simp
qed

end
