(* ===== verification/Algorithm.thy ===== *)
theory Algorithm
  imports Hotstuff Pacemaker Block_Sync Msg_Buffer
begin

text \<open>
  The algorithm thread (\<^verbatim>\<open>algorithm.rs\<close>): how it starts from a block tree, and one turn of its main loop,
  which composes the pacemaker, HotStuff, the message buffer and the block sync client. Every
  \<^verbatim>\<open>expect\<close> turns an error into a panic that ends the thread. A replica can be started again on the
  block tree it left, also after a panic. The properties are about every state that can be
  reached this way.
\<close>

section \<open>Starting\<close>

record config =
  cf_chain_id :: chain_id
  cf_keypair :: signing_key
  cf_epoch_length :: epoch_length
  cf_max_view_time :: duration
  cf_request_limit :: u32
  cf_response_timeout :: duration
  cf_blacklist_expiry_time :: duration
  cf_trigger_min_view_difference :: u64
  cf_trigger_timeout :: duration
  cf_buffer_capacity :: buffer_size
  cf_publisher :: bool

record 'a algorithm =
  al_chain_id :: chain_id
  al_buffer :: msg_buffer
  al_node :: "'a node"

definition initial_view :: "view_number \<Rightarrow> view_number" where
  "initial_view highest = (if highest = 0 then 0 else highest + 1)"

text \<open>
  \<^verbatim>\<open>Algorithm::new\<close>: from the store and the application, with the clock readings of the pacemaker and
  of the block sync client. The log of effects is an argument, so that a restarted replica can
  carry on the log of its earlier life.
\<close>

definition algorithm_new :: "prims \<Rightarrow> config \<Rightarrow> instant \<Rightarrow> instant \<Rightarrow> effect list \<Rightarrow> kv_store \<Rightarrow> 'a \<Rightarrow> 'a algorithm res" where
  "algorithm_new P cf now1 now2 out s app =
     rbind (expect (bt_highest_view_with_progress P s)) (\<lambda>highest.
     rbind (expect (kv_validator_set_state P s)) (\<lambda>vss.
     rbind (expect (pacemaker_new now1 (cf_chain_id cf) (cf_keypair cf) (cf_epoch_length cf) (cf_max_view_time cf)
              (initial_view highest) vss)) (\<lambda>pk.
     Inr \<lparr>al_chain_id = cf_chain_id cf, al_buffer = mb_new (cf_buffer_capacity cf),
          al_node = \<lparr>nd_hotstuff = hotstuff_new (cf_chain_id cf) (cf_keypair cf) (pacemaker_query pk) vss,
            nd_pacemaker = pk,
            nd_client = client_new (cf_chain_id cf) (cf_request_limit cf) (cf_response_timeout cf) (cf_blacklist_expiry_time cf)
              (cf_trigger_min_view_difference cf) (cf_trigger_timeout cf) now2,
            nd_store = s, nd_app = app, nd_out = out, nd_publisher = cf_publisher cf\<rparr>\<rparr>)))"

section \<open>The main loop\<close>

text \<open>What the outside does during one turn: clock readings, the channel of progress messages, the sync channel.\<close>

record turn =
  tu_pacemaker_now :: "nat \<Rightarrow> instant"
  tu_channel :: "(nat \<times> chan_result) list"
  tu_handler_now :: instant
  tu_msg_sync :: sync_env
  tu_client_now :: "nat \<Rightarrow> instant"
  tu_tick_sync :: sync_env

type_synonym ('a, 'r) alg_handler = "('a algorithm, fault, 'r) proc"

definition on_node :: "('a, 'r) handler \<Rightarrow> ('a, 'r) alg_handler" where
  "on_node h = (\<lambda>a. let (r, n) = h (al_node a) in (expect r, a\<lparr>al_node := n\<rparr>))"

definition enter_if_outdated :: "prims \<Rightarrow> 'a app_ops \<Rightarrow> ('a, unit) handler" where
  "enter_if_outdated P app =
     pbind (pgets (\<lambda>n. pacemaker_query (nd_pacemaker n))) (\<lambda>view_info.
     pbind (pgets nd_hotstuff) (\<lambda>h.
     pwhen (is_view_outdated h view_info) (hs_enter_view P app view_info)))"

definition recv_msg :: "sizes \<Rightarrow> turn \<Rightarrow> view_info \<Rightarrow> ('a, recv_result) alg_handler" where
  "recv_msg S t view_info = (\<lambda>a.
     let (r, b) = recv S (al_chain_id a) (vi_view view_info) (vi_deadline view_info) (tu_channel t) (al_buffer a)
     in (Inr r, a\<lparr>al_buffer := b\<rparr>))"

definition dispatch :: "prims \<Rightarrow> 'a app_ops \<Rightarrow> turn \<Rightarrow> recv_result \<Rightarrow> ('a, unit) alg_handler" where
  "dispatch P app t r = (case r of
       GotMsg origin (HotStuffMessage msg) \<Rightarrow> on_node (hs_on_receive_msg P app msg origin)
     | GotMsg origin (PacemakerMessage msg) \<Rightarrow> on_node (pm_on_receive_msg P (tu_handler_now t) msg origin)
     | GotMsg origin (BlockSyncAdvertiseMessage msg) \<Rightarrow> on_node (client_on_receive_msg P app (tu_msg_sync t) msg origin)
     | ReceiveDisconnected \<Rightarrow> pfail (Panicked ExpectOnErr)
     | ReceiveTimeout \<Rightarrow> pret ())"

text \<open>One turn of \<^verbatim>\<open>execute\<close>, after the check of the shutdown signal.\<close>

definition execute_turn :: "prims \<Rightarrow> 'a app_ops \<Rightarrow> sizes \<Rightarrow> turn \<Rightarrow> ('a, unit) alg_handler" where
  "execute_turn P app S t =
     pthen (on_node (pm_tick P (tu_pacemaker_now t)))
     (pbind (pgets (\<lambda>a. pacemaker_query (nd_pacemaker (al_node a)))) (\<lambda>view_info.
      pthen (on_node (enter_if_outdated P app))
      (pbind (recv_msg S t view_info) (\<lambda>r.
       pthen (dispatch P app t r)
       (on_node (client_tick P app (tu_tick_sync t) (tu_client_now t)))))))"

section \<open>All reachable states\<close>

text \<open>
  A validator set state that Rust can build: the validator sets are well-formed, since their fields are private and
  all constructors keep them so, and their keys, being \<^verbatim>\<open>VerifyingKey\<close>s, parse to themselves.
\<close>

definition vss_ok :: "prims \<Rightarrow> validator_set_state \<Rightarrow> bool" where
  "vss_ok P vss \<longleftrightarrow> vs_ok (committed_vs vss) \<and> vs_ok (previous_vs vss) \<and>
     vs_keys_parse P (committed_vs vss) \<and> vs_keys_parse P (previous_vs vss)"

text \<open>
  A replica starts on a freshly initialized block tree, takes turns, and may be restarted on the store
  it left, after a turn that ended with an error or without one.
\<close>

inductive reachable :: "prims \<Rightarrow> 'a app_ops \<Rightarrow> sizes \<Rightarrow> config \<Rightarrow> 'a algorithm \<Rightarrow> bool" for P app S cf where
  start: "vss_ok P vss \<Longrightarrow> us_ok u \<Longrightarrow> algorithm_new P cf now1 now2 [] (bt_initialize P u vss Map.empty) x = Inr a \<Longrightarrow> reachable P app S cf a"
| turn: "reachable P app S cf a \<Longrightarrow> execute_turn P app S t a = (r, a') \<Longrightarrow> reachable P app S cf a'"
| restart: "reachable P app S cf a \<Longrightarrow>
    algorithm_new P cf now1 now2 (nd_out (al_node a)) (nd_store (al_node a)) x = Inr a' \<Longrightarrow> reachable P app S cf a'"

inductive_cases reachable_cases: "reachable P app S cf a"

section \<open>A turn keeps every relation that the handlers keep\<close>

lemma keeps_on_node:
  assumes "keeps R h"
  shows "keeps (\<lambda>a a'. R (al_node a) (al_node a')) (on_node h)"
proof (rule keepsI)
  fix a :: "'a algorithm"
  obtain r n where "h (al_node a) = (r, n)" by fastforce
  with keepsD [OF assms, of "al_node a"] show "R (al_node a) (al_node (snd (on_node h a)))" by (simp add: on_node_def)
qed

lemma recv_msg_node: "al_node (snd (recv_msg S t vi a)) = al_node a"
  by (simp add: recv_msg_def split: prod.splits)

context turn_rel
begin

abbreviation A :: "'a algorithm \<Rightarrow> 'a algorithm \<Rightarrow> bool" where
  "A a a' \<equiv> R (al_node a) (al_node a')"

lemma reflpA: "reflp A"
  by (rule reflpI) (rule R_refl)

lemma transpA: "transp A"
  by (rule transpI) (rule R_trans)

lemmas alg_steps = keeps_pbind [OF transpA] keeps_pthen [OF transpA] keeps_pgets [OF reflpA] keeps_pret [OF reflpA] keeps_pfail [OF reflpA]

lemma keeps_enter_if_outdated: "keeps R (enter_if_outdated P app)"
  unfolding enter_if_outdated_def by (intro keeps_steps keeps_enter_view)

lemma keeps_recv_msg: "keeps A (recv_msg S t vi)"
  by (rule keepsI) (simp add: recv_msg_node R_refl)

lemma keeps_dispatch: "keeps A (dispatch P app t r)"
proof (cases r)
  case (GotMsg origin msg)
  then show ?thesis
    by (cases msg) (simp_all add: dispatch_def keeps_on_node keeps_hs_on_receive_msg keeps_pm_on_receive_msg keeps_client_on_receive_msg)
qed (simp_all add: dispatch_def keeps_pret keeps_pfail reflpA)

lemma keeps_execute_turn: "keeps A (execute_turn P app S t)"
  unfolding execute_turn_def
  by (intro alg_steps keeps_on_node keeps_pm_tick keeps_enter_if_outdated keeps_recv_msg keeps_dispatch keeps_client_tick)

end

section \<open>Voting\<close>

lemma algorithm_new_node:
  assumes "algorithm_new P cf now1 now2 out s x = Inr a"
  shows "nd_out (al_node a) = out" "nd_store (al_node a) = s" "client_ok (nd_client (al_node a))"
    "hs_view_info (nd_hotstuff (al_node a)) = pk_view_info (nd_pacemaker (al_node a))" "al_chain_id a = cf_chain_id cf"
    "al_buffer a = mb_new (cf_buffer_capacity cf)"
  using assms by (auto simp: algorithm_new_def rbind_eq_Inr_iff client_new_def client_ok_def hotstuff_new_def pacemaker_query_def
      hm_contains_key_def)

lemma vote_inv_reachable: "reachable P app S cf a \<Longrightarrow> vote_inv P (al_node a)"
proof (induction rule: reachable.induct)
  case (start now1 now2 u vss x a)
  then show ?case by (simp add: algorithm_new_node vote_inv_def sent_votes_def map_filter_def)
next
  case (turn a t r a')
  from keepsD [OF votes.keeps_execute_turn [of P app S t], of a] turn show ?case by (simp add: vote_rel_def)
next
  case (restart a now1 now2 x a')
  then show ?case by (simp add: vote_inv_def sent_votes_def algorithm_new_node)
qed

text \<open>
  C2. A replica never votes twice in a view. In every reachable state, over any number of turns, errors, panics and
  restarts on the same block tree, the phase votes sent so far have strictly increasing views; so there is at most one
  vote per view, and none is for a view above the recorded highest view voted in.
\<close>

lemma at_most_one_vote_per_view:
  assumes "reachable P app S cf a"
  shows "sorted_wrt (<) (map pv_view (sent_votes (al_node a))) \<and> distinct (map pv_view (sent_votes (al_node a))) \<and>
    (\<forall>v \<in> set (sent_votes (al_node a)).
       \<exists>w. kv_highest_view_phase_voted P (nd_store (al_node a)) = Inr (Some w) \<and> pv_view v \<le> w)"
  using vote_inv_reachable [OF assms] by (simp add: vote_inv_def strict_sorted_iff)

section \<open>Nothing goes backwards\<close>

text \<open>
  C23. Progress is never lost: over one turn of the main loop, whatever messages arrive and whatever fails, the view of the
  highest PC does not fall, the pacemaker's view does not fall, and its configuration does not change.
\<close>

lemma turn_keeps_progress:
  assumes "execute_turn P app S t a = (r, a')" and "kv_highest_pc P (nd_store (al_node a)) = Inr pc"
  shows "(\<exists>pc'. kv_highest_pc P (nd_store (al_node a')) = Inr pc' \<and> pc_view pc \<le> pc_view pc') \<and>
    pk_step (nd_pacemaker (al_node a)) (nd_pacemaker (al_node a'))"
  using keepsD [OF pcs.keeps_execute_turn [of P app S t], of a] keepsD [OF views.keeps_execute_turn [of P app S t], of a] assms
  by (simp add: pc_rel_def view_rel_def)

lemma client_ok_reachable: "reachable P app S cf a \<Longrightarrow> client_ok (nd_client (al_node a))"
proof (induction rule: reachable.induct)
  case (turn a t r a')
  from keepsD [OF clients.keeps_execute_turn [of P app S t], of a] turn show ?case by (simp add: client_rel_def client_step_def)
qed (simp_all add: algorithm_new_node)

text \<open>
  C32. A blacklisted server is never used: in every reachable state no server is at the same time on the blacklist and
  among the available servers, so the random choice of a server to sync with never returns a blacklisted one.
\<close>

lemma sync_server_not_blacklisted:
  assumes "reachable P app S cf a" and "choose_law pick"
    and "random_sync_server pick min_height (nd_client (al_node a)) = Some k"
  shows "hm_contains_key (bc_available_sync_servers (nd_client (al_node a))) k \<and>
    \<not> blacklist_contains_server_address (nd_client (al_node a)) k"
proof -
  let ?c = "nd_client (al_node a)"
  have "k \<in> set (map fst (bc_available_sync_servers ?c))"
    using assms(2,3) unfolding choose_law_def random_sync_server_def by (fastforce split: option.splits)
  then have "hm_contains_key (bc_available_sync_servers ?c) k" by (simp add: hm_contains_key_iff)
  with client_ok_reachable [OF assms(1)] show ?thesis by (simp add: client_ok_def)
qed

section \<open>Messages meet the preconditions of their handlers\<close>

definition buffer_rel :: "'a algorithm \<Rightarrow> 'a algorithm \<Rightarrow> bool" where
  "buffer_rel a a' \<longleftrightarrow> al_chain_id a' = al_chain_id a \<and> (mb_ok (al_chain_id a) (al_buffer a) \<longrightarrow> mb_ok (al_chain_id a) (al_buffer a'))"

lemma buffer_rel_order: "reflp buffer_rel" "transp buffer_rel"
  by (auto simp: buffer_rel_def intro!: reflpI transpI)

lemma on_node_same [simp]:
  "al_chain_id (snd (on_node h a)) = al_chain_id a" "al_buffer (snd (on_node h a)) = al_buffer a"
  by (simp_all add: on_node_def split: prod.splits)

lemma keeps_on_node_buffer: "keeps buffer_rel (on_node h)"
  by (rule keepsI) (simp add: buffer_rel_def)

lemma recv_msg_buffer:
  "recv_msg S t vi a = (Inr r, a') \<Longrightarrow> mb_ok (al_chain_id a) (al_buffer a) \<Longrightarrow>
     mb_ok (al_chain_id a) (al_buffer a') \<and> al_chain_id a' = al_chain_id a \<and> al_node a' = al_node a \<and>
     (\<forall>k m. r = GotMsg k m \<longrightarrow> deliverable (al_chain_id a) (vi_view vi) m)"
  by (auto simp: recv_msg_def split: prod.splits dest: recv_correct)

lemma keeps_recv_msg_buffer: "keeps buffer_rel (recv_msg S t vi)"
proof (rule keepsI)
  fix a :: "'a algorithm"
  show "buffer_rel a (snd (recv_msg S t vi a))"
    by (cases "recv S (al_chain_id a) (vi_view vi) (vi_deadline vi) (tu_channel t) (al_buffer a)")
       (auto simp: buffer_rel_def recv_msg_def dest: recv_correct)
qed

lemma keeps_dispatch_buffer: "keeps buffer_rel (dispatch P app t r)"
proof (cases r)
  case (GotMsg k msg)
  then show ?thesis by (cases msg) (simp_all add: dispatch_def keeps_on_node_buffer)
qed (simp_all add: dispatch_def keeps_pret keeps_pfail buffer_rel_order)

lemma keeps_turn_buffer: "keeps buffer_rel (execute_turn P app S t)"
  unfolding execute_turn_def
  by (intro keeps_pthen keeps_pbind keeps_pgets keeps_on_node_buffer keeps_recv_msg_buffer keeps_dispatch_buffer buffer_rel_order)

lemma buffer_reachable: "reachable P app S cf a \<Longrightarrow> al_chain_id a = cf_chain_id cf \<and> mb_ok (cf_chain_id cf) (al_buffer a)"
proof (induction rule: reachable.induct)
  case (turn a t r a')
  from keepsD [OF keeps_turn_buffer [of P app S t], of a] turn show ?case by (simp add: buffer_rel_def)
qed (simp_all add: algorithm_new_node mb_new_def)

text \<open>HotStuff does not touch the pacemaker, and proposing does not touch the view of HotStuff.\<close>

interpretation same_pacemaker: node_rel P "\<lambda>n n'. nd_pacemaker n' = nd_pacemaker n" for P
  by unfold_locales auto

definition hs_view_rel :: "'a node \<Rightarrow> 'a node \<Rightarrow> bool" where
  "hs_view_rel n n' \<longleftrightarrow> hs_view_info (nd_hotstuff n') = hs_view_info (nd_hotstuff n)"

lemma hs_view_rel_order: "reflp hs_view_rel" "transp hs_view_rel"
  by (auto simp: hs_view_rel_def intro!: reflpI transpI)

lemma hs_view_steps:
  "keeps hs_view_rel (emit e)" "keeps hs_view_rel (event_publish ev)" "keeps hs_view_rel (read_store f)"
  "keeps hs_view_rel (write_store g)" "keeps hs_view_rel (pure_res r)" "keeps hs_view_rel (call_app h)"
  by (simp_all add: keeps_def hs_view_rel_def handler_defs pmodify_def pread_def split: prod.splits)

lemma keeps_propose_view: "keeps hs_view_rel (propose P app)"
  unfolding propose_def propose_new_block_def broadcast_proposal_def broadcast_hotstuff_def
  by (intro keeps_intro hs_view_steps hs_view_rel_order)

lemma enter_view_sets_view: "ensures (\<lambda>n. hs_view_info (nd_hotstuff n) = vi) (hs_enter_view P app vi)"
proof -
  have set: "ensures (\<lambda>n. hs_view_info (nd_hotstuff n) = vi) (set_hotstuff (\<lambda>h. h\<lparr>hs_view_info := vi, hs_proposal_status := st h,
      hs_phase_vote_collectors := c h\<rparr>))" for st c
    by (simp add: ensures_def set_hotstuff_def pmodify_def)
  have rest: "keeps hs_view_rel (pthen (write_store (bt_set_highest_view_entered P (vi_view vi)))
     (pthen (event_publish (StartViewEvent (vi_view vi)))
     (pbind (pure_res (is_proposer k (vi_view vi) vss)) (\<lambda>proposer. pwhen proposer (propose P app)))))" for k vss
    by (intro keeps_intro hs_view_steps hs_view_rel_order keeps_propose_view)
  show ?thesis
    unfolding hs_enter_view_def
    by (intro ensures_pbind ensures_Let ensures_case_prod ensures_pthen [OF ensures_pthen] ensures_pthen [OF ensures_kept [OF set rest]])
       (simp add: hs_view_rel_def)
qed

lemma enter_if_outdated_views:
  assumes "enter_if_outdated P app n = (Inr (), n')"
  shows "nd_pacemaker n' = nd_pacemaker n \<and> vi_view (hs_view_info (nd_hotstuff n')) = vi_view (pk_view_info (nd_pacemaker n'))"
proof -
  have "keeps (\<lambda>n n'. nd_pacemaker n' = nd_pacemaker n) (enter_if_outdated P app)"
    unfolding enter_if_outdated_def by (intro same_pacemaker.keeps_steps same_pacemaker.keeps_enter_view)
  from keepsD [OF this, of n] assms have "nd_pacemaker n' = nd_pacemaker n" by simp
  moreover have "vi_view (hs_view_info (nd_hotstuff n')) = vi_view (pk_view_info (nd_pacemaker n))"
    using assms enter_view_sets_view [of "pk_view_info (nd_pacemaker n)" P app]
    by (auto simp: ensures_def enter_if_outdated_def pbind_def pgets_def pwhen_def pacemaker_query_def is_view_outdated_def pret_def split: if_splits)
  ultimately show ?thesis by simp
qed

text \<open>
  C18. Messages are handled in the right view: in a turn from any reachable state, when the tick and the view change of the
  turn went through, HotStuff and the pacemaker are in the same view, and a message that is received is of this
  replica's chain and is a proposal, nudge, phase vote or new-view message of exactly that view, a timeout vote or advance-view
  message of that or a later view, or a block sync advertisement. These are the preconditions the handlers document.
\<close>

lemma messages_meet_preconditions:
  assumes "reachable P app S cf a" and "on_node (pm_tick P (tu_pacemaker_now t)) a = (Inr (), a1)"
    and "on_node (enter_if_outdated P app) a1 = (Inr (), a2)"
    and "recv_msg S t (pacemaker_query (nd_pacemaker (al_node a1))) a2 = (Inr (GotMsg origin msg), a3)"
  shows "vi_view (hs_view_info (nd_hotstuff (al_node a3))) = vi_view (pk_view_info (nd_pacemaker (al_node a3))) \<and>
    (let c = cf_chain_id cf; view = vi_view (pk_view_info (nd_pacemaker (al_node a3))) in case msg of
       HotStuffMessage (ProposalMsg p) \<Rightarrow> p_chain_id p = c \<and> p_view p = view
     | HotStuffMessage (NudgeMsg n) \<Rightarrow> n_chain_id n = c \<and> n_view n = view
     | HotStuffMessage (PhaseVoteMsg v) \<Rightarrow> pv_chain_id v = c \<and> pv_view v = view
     | HotStuffMessage (NewViewMsg v) \<Rightarrow> nv_chain_id v = c \<and> nv_view v = view
     | PacemakerMessage (TimeoutVoteMsg v) \<Rightarrow> tv_chain_id v = c \<and> view \<le> tv_view v
     | PacemakerMessage (AdvanceViewMsg av) \<Rightarrow> prc_chain_id (av_progress_certificate av) = c \<and> view \<le> prc_view (av_progress_certificate av)
     | BlockSyncAdvertiseMessage (AdvertiseBlockMsg ab) \<Rightarrow> ab_chain_id ab = c
     | BlockSyncAdvertiseMessage (AdvertisePCMsg ap) \<Rightarrow> pc_chain_id (ap_highest_pc ap) = c)"
proof -
  obtain n where n: "enter_if_outdated P app (al_node a1) = (Inr (), n)" "al_node a2 = n"
    using assms(3) by (auto simp: on_node_def expect_def split: prod.splits sum.splits fault.splits)
  note v = enter_if_outdated_views [OF n(1)]
  have "al_chain_id a2 = al_chain_id a" "al_buffer a2 = al_buffer a"
    using on_node_same [of "pm_tick P (tu_pacemaker_now t)" a] on_node_same [of "enter_if_outdated P app" a1] assms(2,3) by simp_all
  with buffer_reachable [OF assms(1)] have "mb_ok (al_chain_id a2) (al_buffer a2)" "al_chain_id a2 = cf_chain_id cf" by simp_all
  with recv_msg_buffer [OF assms(4)] v n(2)
  have "vi_view (hs_view_info (nd_hotstuff (al_node a3))) = vi_view (pk_view_info (nd_pacemaker (al_node a3)))"
    "deliverable (cf_chain_id cf) (vi_view (pk_view_info (nd_pacemaker (al_node a3)))) msg" by (simp_all add: pacemaker_query_def)
  then show ?thesis
    by (auto simp: deliverable_def Let_def split: progress_message.splits hotstuff_message.splits pacemaker_message.splits
        block_sync_advertise_message.splits)
qed

end
