(* ===== verification/Safety.thy ===== *)
theory Safety
  imports Algorithm
begin

text \<open>
  Properties that span several components: certificates cannot conflict within a view as long as
  the honest validators vote once per view, a replica votes only for what it has checked, and
  what a leader proposes.
\<close>

section \<open>Certificates of one view agree\<close>

text \<open>
  What voting once per view means for the signatures of a validator: all phase messages of one chain
  and view that verify under its key are the same.
\<close>

definition votes_once :: "prims \<Rightarrow> verifying_key \<Rightarrow> chain_id \<Rightarrow> view_number \<Rightarrow> bool" where
  "votes_once P k c v \<longleftrightarrow> (\<forall>b ph s b' ph' s'. vk_verify P k (phase_message P c v b ph) s \<longrightarrow>
     vk_verify P k (phase_message P c v b' ph') s' \<longrightarrow> b = b' \<and> ph = ph')"

definition certifies :: "prims \<Rightarrow> phase_certificate \<Rightarrow> verifying_key \<Rightarrow> bool" where
  "certifies P pc k \<longleftrightarrow>
     (\<exists>s. vk_verify P k (phase_message P (pc_chain_id pc) (pc_view pc) (pc_block pc) (pc_phase pc)) s)"

lemma signer_certifies:
  assumes "vs_good vs" and "pc_is_correctly_signed P pc vs = Inr True"
  shows "vs_is_quorum vs (signers vs (pc_signatures pc)) \<and> (\<forall>k \<in> signers vs (pc_signatures pc). certifies P pc k)"
proof -
  from is_correctly_signed_iff [OF assms(1)] assms(2)
  have "slots_valid P (phase_message P (pc_chain_id pc) (pc_view pc) (pc_block pc) (pc_phase pc)) (pc_signatures pc) vs"
    "vs_is_quorum vs (signers vs (pc_signatures pc))" by (simp_all add: pc_is_correctly_signed_def)
  then show ?thesis by (auto simp: signers_def slots_valid_def certifies_def)
qed

text \<open>
  C11. No two conflicting certificates in a view: take two phase certificates of the same chain and view that are both
  correctly signed for one validator set. If the validators outside some set of at most a third of the power have
  voted only once in that view, the certificates are for the same block and the same phase.
\<close>

lemma no_conflicting_certificates:
  assumes "vs_good vs" and "vs_tolerates vs F"
    and "pc_is_correctly_signed P pc vs = Inr True" and "pc_is_correctly_signed P pc' vs = Inr True"
    and "pc_chain_id pc' = pc_chain_id pc" and "pc_view pc' = pc_view pc"
    and "\<And>k. k \<notin> F \<Longrightarrow> votes_once P k (pc_chain_id pc) (pc_view pc)"
  shows "pc_block pc' = pc_block pc \<and> pc_phase pc' = pc_phase pc"
proof -
  note q = signer_certifies [OF assms(1,3)] and q' = signer_certifies [OF assms(1,4)]
  from vsq.honest_intersection [OF conjunct1 [OF q] conjunct1 [OF q'] assms(2)]
  obtain k where "k \<in> signers vs (pc_signatures pc)" "k \<in> signers vs (pc_signatures pc')" "k \<notin> F" by blast
  with q q' have "certifies P pc k" "certifies P pc' k" by simp_all
  then obtain s s' where "vk_verify P k (phase_message P (pc_chain_id pc) (pc_view pc) (pc_block pc) (pc_phase pc)) s"
    "vk_verify P k (phase_message P (pc_chain_id pc) (pc_view pc) (pc_block pc') (pc_phase pc')) s'"
    by (auto simp: certifies_def assms(5,6))
  moreover have "votes_once P k (pc_chain_id pc) (pc_view pc)" using \<open>k \<notin> F\<close> by (rule assms(7))
  ultimately have "pc_block pc = pc_block pc' \<and> pc_phase pc = pc_phase pc'" unfolding votes_once_def by blast
  then show ?thesis by simp
qed

section \<open>What a replica votes for\<close>

text \<open>Handler steps other than voting: the votes and the view of HotStuff stay.\<close>

definition no_vote_rel :: "'a node \<Rightarrow> 'a node \<Rightarrow> bool" where
  "no_vote_rel n n' \<longleftrightarrow> sent_votes n' = sent_votes n \<and> hs_view_info (nd_hotstuff n') = hs_view_info (nd_hotstuff n)"

lemma no_vote_order: "reflp no_vote_rel" "transp no_vote_rel"
  by (auto simp: no_vote_rel_def intro!: reflpI transpI)

lemma no_vote_steps:
  "effect_vote e = None \<Longrightarrow> keeps no_vote_rel (emit e)" "keeps no_vote_rel (event_publish ev)"
  "keeps no_vote_rel (read_store f)" "keeps no_vote_rel (write_store g)" "keeps no_vote_rel (pure_res r)"
  "keeps no_vote_rel (call_app h)" "keeps no_vote_rel (stop_accepting origin)" "keeps no_vote_rel (update_collectors vss)"
  by (simp_all add: keeps_def no_vote_rel_def handler_defs pmodify_def pread_def sent_votes_def map_filter_def stop_accepting_def
      update_collectors_def split: prod.splits)

lemma keeps_no_vote_update: "keeps no_vote_rel (update_block_tree P pc)"
proof (rule keepsI)
  fix n :: "'a node"
  have "List.map_filter effect_vote (map Published evs) = []" for evs by (induction evs) (simp_all add: map_filter_def)
  then show "no_vote_rel n (snd (update_block_tree P pc n))"
    by (auto simp: update_block_tree_def no_vote_rel_def sent_votes_def map_filter_def split: sum.splits)
qed

lemma keeps_no_vote_process_justify: "keeps no_vote_rel (process_justify P pc)"
proof -
  have "keeps no_vote_rel (update_validator_set vsu)" for vsu
    by (cases vsu) (simp_all add: update_validator_set_def keeps_pret no_vote_order no_vote_steps)
  then show ?thesis unfolding process_justify_def
    by (intro keeps_intro no_vote_steps no_vote_order keeps_no_vote_update)
qed

lemma vote_if_allowed_adds:
  obtains "sent_votes (snd (vote_if_allowed P pc vss block ph n)) = sent_votes n"
  | v where "sent_votes (snd (vote_if_allowed P pc vss block ph n)) = sent_votes n @ [v]"
      "pv_view v = vi_view (hs_view_info (nd_hotstuff n))" "pv_block v = block" "ph = Inr (pv_phase v)"
proof (cases rule: vote_if_allowed_cases [of P pc vss block ph n])
  case (2 v k w m)
  have "sent_votes (snd (event_publish (PhaseVoteEvent v) m)) = sent_votes m"
    using keepsD [OF no_vote_steps(2), of m "PhaseVoteEvent v"] by (simp add: no_vote_rel_def)
  also have "\<dots> = sent_votes n @ [v]" by (simp add: 2(4) sent_votes_def map_filter_def)
  finally show thesis using 2 that(2) by simp
qed (use that in simp)

text \<open>A handler that sends at most one vote, in HotStuff's view and with a given property.\<close>

definition may_vote_for :: "(phase_vote \<Rightarrow> bool) \<Rightarrow> ('a, 'r) handler \<Rightarrow> bool" where
  "may_vote_for Q m \<longleftrightarrow> (\<forall>n. sent_votes (snd (m n)) = sent_votes n \<or>
     (\<exists>v. sent_votes (snd (m n)) = sent_votes n @ [v] \<and> pv_view v = vi_view (hs_view_info (nd_hotstuff n)) \<and> Q v))"

lemma may_vote_none: "keeps no_vote_rel m \<Longrightarrow> may_vote_for Q m"
  by (auto simp: may_vote_for_def dest: keepsD [where R = no_vote_rel] simp: no_vote_rel_def keeps_def)

lemma may_vote_vote: "may_vote_for (\<lambda>v. pv_block v = block \<and> ph = Inr (pv_phase v)) (vote_if_allowed P pc vss block ph)"
  unfolding may_vote_for_def
proof
  fix n :: "'a node"
  show "sent_votes (snd (vote_if_allowed P pc vss block ph n)) = sent_votes n \<or>
    (\<exists>v. sent_votes (snd (vote_if_allowed P pc vss block ph n)) = sent_votes n @ [v] \<and>
       pv_view v = vi_view (hs_view_info (nd_hotstuff n)) \<and> pv_block v = block \<and> ph = Inr (pv_phase v))"
    by (rule vote_if_allowed_adds [of P pc vss block ph n]) auto
qed

lemma may_vote_pbind:
  assumes "keeps no_vote_rel m" and "\<And>x. may_vote_for Q (f x)"
  shows "may_vote_for Q (pbind m f)"
  unfolding may_vote_for_def
proof
  fix n :: "'a node"
  obtain r n1 where m: "m n = (r, n1)" by fastforce
  with keepsD [OF assms(1), of n] have same: "sent_votes n1 = sent_votes n" "hs_view_info (nd_hotstuff n1) = hs_view_info (nd_hotstuff n)"
    by (simp_all add: no_vote_rel_def)
  show "sent_votes (snd (pbind m f n)) = sent_votes n \<or>
    (\<exists>v. sent_votes (snd (pbind m f n)) = sent_votes n @ [v] \<and> pv_view v = vi_view (hs_view_info (nd_hotstuff n)) \<and> Q v)"
  proof (cases r)
    case (Inr x)
    with assms(2) [of x, unfolded may_vote_for_def, rule_format, of n1] m same show ?thesis by (simp add: pbind_def)
  qed (use m same in \<open>simp add: pbind_def\<close>)
qed

lemma may_vote_pthen: "keeps no_vote_rel m \<Longrightarrow> may_vote_for Q m' \<Longrightarrow> may_vote_for Q (pthen m m')"
  by (simp add: pthen_def may_vote_pbind)

lemma may_vote_last:
  assumes "may_vote_for Q m" and "keeps no_vote_rel m'"
  shows "may_vote_for Q (pthen m m')"
  unfolding may_vote_for_def
proof
  fix n :: "'a node"
  obtain r n1 where m: "m n = (r, n1)" by fastforce
  have "sent_votes (snd (pthen m m' n)) = sent_votes n1"
    using m keepsD [OF assms(2), of n1] by (cases r) (simp_all add: pthen_def pbind_def no_vote_rel_def)
  with assms(1) m show "sent_votes (snd (pthen m m' n)) = sent_votes n \<or>
    (\<exists>v. sent_votes (snd (pthen m m' n)) = sent_votes n @ [v] \<and> pv_view v = vi_view (hs_view_info (nd_hotstuff n)) \<and> Q v)"
    unfolding may_vote_for_def by (metis snd_conv)
qed

lemma may_vote_mono: "may_vote_for Q m \<Longrightarrow> (\<And>v. Q v \<Longrightarrow> Q' v) \<Longrightarrow> may_vote_for Q' m"
  unfolding may_vote_for_def by meson

text \<open>What the votes of the two handlers have been checked against.\<close>

definition proposal_checked :: "prims \<Rightarrow> 'a app_ops \<Rightarrow> 'a node \<Rightarrow> proposal \<Rightarrow> phase_vote \<Rightarrow> bool" where
  "proposal_checked P app n p v \<longleftrightarrow> pv_block v = b_hash (p_block p) \<and>
     block_is_correct P (nd_store n) (p_block p) = Inr True \<and>
     safe_block P (nd_store n) (hs_chain_id (nd_hotstuff n)) (p_block p) = Inr True \<and>
     (\<exists>view au vu. bt_app_view P (nd_store n) (if is_genesis_pc (b_justify (p_block p)) then None
          else Some (pc_block (b_justify (p_block p)))) = Inr view \<and>
        fst (app_validate_block app \<lparr>vbq_proposed_block = p_block p, vbq_block_tree_view = view\<rparr> (nd_app n)) = Valid au vu \<and>
        pv_phase v = (if vu \<noteq> None then Prepare else Generic))"

definition nudge_checked :: "prims \<Rightarrow> 'a node \<Rightarrow> nudge \<Rightarrow> phase_vote \<Rightarrow> bool" where
  "nudge_checked P n nd v \<longleftrightarrow> pv_block v = pc_block (n_justify nd) \<and>
     pc_is_correct P (nd_store n) (n_justify nd) = Inr True \<and>
     safe_nudge P (nd_store n) (hs_chain_id (nd_hotstuff n)) (vi_view (hs_view_info (nd_hotstuff n))) nd = Inr True \<and>
     nudge_vote_phase (pc_phase (n_justify nd)) = Inr (pv_phase v)"

definition vote_outcome :: "(phase_vote \<Rightarrow> bool) \<Rightarrow> 'a node \<Rightarrow> 'a node \<Rightarrow> bool" where
  "vote_outcome Q n n' \<longleftrightarrow> sent_votes n' = sent_votes n \<or>
     (\<exists>v. sent_votes n' = sent_votes n @ [v] \<and> pv_view v = vi_view (hs_view_info (nd_hotstuff n)) \<and> Q v)"

lemma vote_outcomeI: "may_vote_for Q m \<Longrightarrow> vote_outcome Q n (snd (m n))"
  by (simp add: may_vote_for_def vote_outcome_def)

lemma vote_outcome_from:
  "vote_outcome Q m n' \<Longrightarrow> sent_votes m = sent_votes n \<Longrightarrow> hs_view_info (nd_hotstuff m) = hs_view_info (nd_hotstuff n) \<Longrightarrow> vote_outcome Q n n'"
  by (simp add: vote_outcome_def)

lemma sent_votes_published [simp]:
  "sent_votes (n\<lparr>nd_out := nd_out n @ (if b then [Published ev] else [])\<rparr>) = sent_votes n"
  by (simp add: sent_votes_def map_filter_def)

lemma nudge_votes_checked: "vote_outcome (nudge_checked P n nd) n (snd (on_receive_nudge P nd origin n))"
proof -
  let ?n = "n\<lparr>nd_out := nd_out n @ (if nd_publisher n then [Published (ReceiveNudgeEvent origin nd)] else [])\<rparr>"
  let ?good = "rand (pc_is_correct P (nd_store n) (n_justify nd))
      (safe_nudge P (nd_store n) (hs_chain_id (nd_hotstuff n)) (vi_view (hs_view_info (nd_hotstuff n))) nd)"
  let ?body = "pbind (process_justify P (n_justify nd)) (\<lambda>vss.
        pthen (vote_if_allowed P (n_justify nd) vss (pc_block (n_justify nd)) (nudge_vote_phase (pc_phase (n_justify nd))))
        (stop_accepting origin))"
  have run: "on_receive_nudge P nd origin n = (case ?good of Inl e \<Rightarrow> (Inl e, ?n)
      | Inr good \<Rightarrow> (if \<not> good then stop_accepting origin else ?body) ?n)"
    by (simp add: on_receive_nudge_def publish_run pbind_def pgets_def read_store_def pread_def split: sum.splits)
  show ?thesis
  proof (cases "?good = Inr True")
    case True
    have "may_vote_for (\<lambda>v. pv_block v = pc_block (n_justify nd) \<and> nudge_vote_phase (pc_phase (n_justify nd)) = Inr (pv_phase v)) ?body"
      by (intro may_vote_pbind may_vote_last may_vote_vote keeps_no_vote_process_justify no_vote_steps)
    then have "may_vote_for (nudge_checked P n nd) ?body"
      by (rule may_vote_mono) (use True in \<open>auto simp: nudge_checked_def rand_eq_True\<close>)
    from vote_outcomeI [OF this, of ?n] True show ?thesis by (simp add: run vote_outcome_def)
  next
    case False
    from vote_outcomeI [OF may_vote_none [OF no_vote_steps(7)], of "nudge_checked P n nd" ?n origin] False
    show ?thesis by (cases ?good) (auto simp: run vote_outcome_def)
  qed
qed

lemma proposal_votes_checked: "vote_outcome (proposal_checked P app n p) n (snd (on_receive_proposal P app p origin n))"
proof -
  let ?b = "p_block p"
  let ?n = "n\<lparr>nd_out := nd_out n @ (if nd_publisher n then [Published (ReceiveProposalEvent origin p)] else [])\<rparr>"
  let ?good = "rand (block_is_correct P (nd_store n) ?b) (safe_block P (nd_store n) (hs_chain_id (nd_hotstuff n)) ?b)"
  let ?view = "bt_app_view P (nd_store n) (if is_genesis_pc (b_justify ?b) then None else Some (pc_block (b_justify ?b)))"
  let ?val = "\<lambda>view. app_validate_block app \<lparr>vbq_proposed_block = ?b, vbq_block_tree_view = view\<rparr> (nd_app n)"
  let ?vote = "\<lambda>au vu. pthen (write_store (bt_insert P ?b au vu)) (pthen (event_publish (InsertBlockEvent ?b))
      (pbind (process_justify P (b_justify ?b)) (\<lambda>vss. vote_if_allowed P (b_justify ?b) vss (b_hash ?b)
         (Inr (if vu \<noteq> None then Prepare else Generic)))))"
  let ?body = "\<lambda>resp. pthen (case resp of Invalid \<Rightarrow> pret () | Valid au vu \<Rightarrow> ?vote au vu) (stop_accepting origin)"
  note step = on_receive_proposal_def publish_run Let_def pbind_def pgets_def read_store_def pread_def call_app_def
  have stop: "vote_outcome Q n (snd (stop_accepting origin ?n))" for Q
    using vote_outcomeI [OF may_vote_none [OF no_vote_steps(7)], of Q ?n origin] by (simp add: vote_outcome_def)
  have idle: "vote_outcome Q n ?n" for Q by (simp add: vote_outcome_def)
  show ?thesis
  proof (cases "?good = Inr True")
    case False
    then show ?thesis by (cases ?good) (simp_all add: step stop idle)
  next
    case good: True
    show ?thesis
    proof (cases ?view)
      case (Inl e)
      with good show ?thesis by (simp add: step idle)
    next
      case view: (Inr view)
      obtain resp a where val: "?val view = (resp, a)" by fastforce
      let ?m = "?n\<lparr>nd_app := a\<rparr>"
      have run: "on_receive_proposal P app p origin n = ?body resp ?m" using good view val by (simp add: step)
      have same: "sent_votes ?m = sent_votes n" by (simp add: sent_votes_def map_filter_def)
      have "may_vote_for (proposal_checked P app n p) (?body resp)"
      proof (cases resp)
        case Invalid
        then show ?thesis by (simp add: may_vote_pthen keeps_pret no_vote_order may_vote_none no_vote_steps)
      next
        case (Valid au vu)
        have "may_vote_for (\<lambda>v. pv_block v = b_hash ?b \<and> Inr (if vu \<noteq> None then Prepare else Generic) = (Inr (pv_phase v) :: phase res))
            (pthen (?vote au vu) (stop_accepting origin))"
          by (intro may_vote_last may_vote_pthen may_vote_pbind may_vote_vote keeps_no_vote_process_justify no_vote_steps)
        then have "may_vote_for (proposal_checked P app n p) (pthen (?vote au vu) (stop_accepting origin))"
          by (rule may_vote_mono) (use good view val Valid in \<open>auto simp: proposal_checked_def rand_eq_True\<close>)
        with Valid show ?thesis by simp
      qed
      from vote_outcomeI [OF this, of ?m] same show ?thesis unfolding run by (simp add: vote_outcome_def)
    qed
  qed
qed

lemma keeps_no_vote_other: "keeps no_vote_rel (on_receive_phase_vote P v k)" "keeps no_vote_rel (on_receive_new_view P nv k)"
proof -
  have "keeps no_vote_rel (collect_phase_vote v k)"
    by (rule keepsI) (auto simp: collect_phase_vote_def no_vote_rel_def sent_votes_def split: sum.splits)
  then show "keeps no_vote_rel (on_receive_phase_vote P v k)" "keeps no_vote_rel (on_receive_new_view P nv k)"
    unfolding on_receive_phase_vote_def on_receive_new_view_def
    by (intro keeps_intro no_vote_steps no_vote_order keeps_no_vote_process_justify; assumption)+
qed

text \<open>
  C12. A replica votes only for what it has checked. Whatever HotStuff message arrives, at most one vote is sent, and only in
  the current view; it answers a proposal or a nudge of a leader of that view from whom nothing was accepted in the view
  yet. For a proposal, the vote is for the proposed block, the block was correct and safe against the block tree,
  the application validated it on its parent's app state, and the phase depends on whether the block updates the
  validator set; for a nudge, its certificate was correct and the nudge safe, and the vote is for the next phase.
\<close>

lemma votes_are_checked:
  assumes "sent_votes (snd (hs_on_receive_msg P app msg origin n)) \<noteq> sent_votes n"
  shows "\<exists>v. sent_votes (snd (hs_on_receive_msg P app msg origin n)) = sent_votes n @ [v] \<and>
    pv_view v = vi_view (hs_view_info (nd_hotstuff n)) \<and> accepts_proposal P origin (nd_hotstuff n) (nd_store n) = Inr True \<and>
    ((\<exists>p. msg = ProposalMsg p \<and> proposal_checked P app n p v) \<or> (\<exists>nd. msg = NudgeMsg nd \<and> nudge_checked P n nd v))"
proof (cases msg)
  case (ProposalMsg p)
  with assms have acc: "accepts_proposal P origin (nd_hotstuff n) (nd_store n) = Inr True"
    by (auto simp: hs_on_receive_msg_def pbind_def pread_def pwhen_def pret_def split: sum.splits if_splits)
  with ProposalMsg have "hs_on_receive_msg P app msg origin n = on_receive_proposal P app p origin n"
    by (simp add: hs_on_receive_msg_def pbind_def pread_def pwhen_def)
  with assms acc ProposalMsg proposal_votes_checked [of P app n p origin] show ?thesis by (auto simp: vote_outcome_def)
next
  case (NudgeMsg nd)
  with assms have acc: "accepts_proposal P origin (nd_hotstuff n) (nd_store n) = Inr True"
    by (auto simp: hs_on_receive_msg_def pbind_def pread_def pwhen_def pret_def split: sum.splits if_splits)
  with NudgeMsg have "hs_on_receive_msg P app msg origin n = on_receive_nudge P nd origin n"
    by (simp add: hs_on_receive_msg_def pbind_def pread_def pwhen_def)
  with assms acc NudgeMsg nudge_votes_checked [of P n nd origin] show ?thesis by (auto simp: vote_outcome_def)
next
  case (PhaseVoteMsg v)
  with assms keepsD [OF keeps_no_vote_other(1), of n P v origin] show ?thesis by (simp add: hs_on_receive_msg_def no_vote_rel_def)
next
  case (NewViewMsg nv)
  with assms keepsD [OF keeps_no_vote_other(2), of n P nv origin] show ?thesis by (simp add: hs_on_receive_msg_def no_vote_rel_def)
qed

section \<open>Block heights\<close>

text \<open>
  C35. The height of a block is never checked: if a proposed block is correct and safe, so is the block with the same
  justify and data that claims any other height (with its hash computed accordingly). Nothing relates the height to
  the height of the parent, although committing and the height index go by the heights.
\<close>

lemma block_height_unchecked:
  assumes "block_is_correct P s b = Inr True" and "safe_block P s chain_id b = Inr True"
  shows "block_is_correct P s (b\<lparr>b_height := h, b_hash := block_compute_hash P h (b_justify b) (b_data_hash b)\<rparr>) = Inr True \<and>
    safe_block P s chain_id (b\<lparr>b_height := h, b_hash := block_compute_hash P h (b_justify b) (b_data_hash b)\<rparr>) = Inr True"
  using assms by (simp add: block_is_correct_def safe_block_def rand_eq_True)

section \<open>What a leader proposes\<close>

text \<open>
  C27. A leader extends its highest PC: when the highest PC is generic or decides an update, proposing always succeeds and
  broadcasts a proposal for the current view whose block carries exactly that PC as its justify, has the height after the
  certified block's (0 on top of the genesis PC) and the data the application produced, and is correct exactly when the
  PC is.
\<close>

lemma leader_extends_highest_pc:
  assumes "kv_highest_pc P (nd_store n) = Inr pc" and "pc_phase pc = Generic \<or> pc_phase pc = Decide"
    and "\<not> is_genesis_pc pc \<longrightarrow> kv_block_height P (nd_store n) (pc_block pc) = Inr (Some h)"
    and "bt_app_view P (nd_store n) (if is_genesis_pc pc then None else Some (pc_block pc)) = Inr view"
    and "app_produce_block app \<lparr>pbq_cur_view = vi_view (hs_view_info (nd_hotstuff n)),
       pbq_parent_block = (if is_genesis_pc pc then None else Some (pc_block pc)), pbq_block_tree_view = view\<rparr> (nd_app n) = (resp, a)"
  shows "\<exists>n' b. propose P app n = (Inr (), n') \<and> nd_store n' = nd_store n \<and>
    Broadcast (ProgressMessage (HotStuffMessage (ProposalMsg \<lparr>p_chain_id = hs_chain_id (nd_hotstuff n),
      p_view = vi_view (hs_view_info (nd_hotstuff n)), p_block = b\<rparr>))) \<in> set (nd_out n') \<and>
    b_justify b = pc \<and> b_height b = (if is_genesis_pc pc then 0 else h + 1) \<and> b_data b = pbr_data resp \<and>
    block_is_correct P (nd_store n) b = pc_is_correct P (nd_store n) pc"
proof -
  let ?hb = "if is_genesis_pc pc then 0 else h + 1"
  let ?b = "\<lparr>b_height = ?hb, b_hash = block_compute_hash P ?hb pc (pbr_data_hash resp), b_justify = pc,
     b_data_hash = pbr_data_hash resp, b_data = pbr_data resp\<rparr>"
  have "repropose_block P (nd_store n) v = Inr None" for v using assms(1,2) by (auto simp: repropose_block_def)
  then have "propose P app n = propose_new_block P app pc n"
    using assms(1,2) by (simp add: propose_def Let_def pbind_def pgets_def read_store_def pread_def)
  moreover have "block_new P ?hb pc (pbr_data_hash resp) (pbr_data resp) = Inr ?b" using assms(2) by (simp add: block_new_def)
  ultimately have "propose P app n = broadcast_proposal \<lparr>p_chain_id = hs_chain_id (nd_hotstuff n),
      p_view = vi_view (hs_view_info (nd_hotstuff n)), p_block = ?b\<rparr> (n\<lparr>nd_app := a\<rparr>)"
    using assms(3-5) by (cases "is_genesis_pc pc")
      (simp_all add: propose_new_block_def pbind_def pgets_def read_store_def pread_def call_app_def pure_res_def ok_or_def)
  then show ?thesis
    by (intro exI [of _ "snd (propose P app n)"] exI [of _ ?b])
       (auto simp: broadcast_proposal_def pthen_def pbind_def broadcast_hotstuff_def emit_def pmodify_def event_publish_def
         block_is_correct_def rand_def)
qed

end
