(* ===== verification/Witnesses.thy ===== *)
theory Witnesses
  imports Safety
begin

text \<open>
  Concrete inputs on which the hypotheses of the properties hold: a validator set of two members,
  primitives that satisfy the documented laws, a small block tree, and a replica running on them.
\<close>

section \<open>Two validators\<close>

definition demo_vs :: validator_set where
  "demo_vs = \<lparr>vs_validators = [1, 2], vs_powers = [(1, 3), (2, 1)]\<rparr>"

lemma demo_vs_ok: "vs_ok demo_vs" "vs_sum demo_vs = 4" "vs_good demo_vs" "vs_len demo_vs = 2"
  by (simp_all add: demo_vs_def vs_ok_def vs_sum_def vs_good_def hm_ok_def vs_len_def insert_commute)

lemma select_leader_total_witness:
  "\<exists>v \<in> set (vs_validators demo_vs). select_leader 6 demo_vs = Inr v
     \<and> (\<forall>view'. unat view' mod vs_sum demo_vs = unat (6 :: view_number) mod vs_sum demo_vs \<longrightarrow> select_leader view' demo_vs = Inr v)"
  by (rule select_leader_total) (simp_all add: demo_vs_ok)

lemma select_leader_fair_witness:
  "card {i. i < vs_sum demo_vs \<and> select_leader (of_nat i) demo_vs = Inr 1} = 3"
  using select_leader_fair [of demo_vs 1 3] demo_vs_ok by (simp add: demo_vs_def vs_power_def hm_get_def)

definition demo_signed_pc :: phase_certificate where
  "demo_signed_pc = \<lparr>pc_chain_id = 0, pc_view = 7, pc_block = 5, pc_phase = Generic, pc_signatures = [Some 1, None]\<rparr>"

lemma pc_is_correctly_signed_iff_witness:
  "vs_good demo_vs \<and> pc_is_correctly_signed demo_prims demo_signed_pc demo_vs =
    Inr (length (pc_signatures demo_signed_pc) = vs_len demo_vs
      \<and> slots_valid demo_prims (phase_message demo_prims (pc_chain_id demo_signed_pc) (pc_view demo_signed_pc)
           (pc_block demo_signed_pc) (pc_phase demo_signed_pc)) (pc_signatures demo_signed_pc) demo_vs
      \<and> vs_is_quorum demo_vs (signers demo_vs (pc_signatures demo_signed_pc)))"
  using pc_is_correctly_signed_iff [of demo_vs demo_prims demo_signed_pc] demo_vs_ok by simp

lemma advertise_block_signature_is_timeout_vote_witness:
  "timeout_vote_is_correct demo_prims 3 \<lparr>tv_chain_id = 0, tv_view = 9, tv_signature = 3, tv_highest_tc = None\<rparr>"
  using advertise_block_signature_is_timeout_vote
    [of demo_prims 3 "\<lparr>ab_chain_id = 0, ab_highest_committed_block_height = 9, ab_signature = 3\<rparr>" None]
  by (simp add: demo_prims_def advertise_block_is_correct_def signed_message_is_correct_def)

section \<open>A chain of four blocks\<close>

text \<open>
  Block 1 is committed, blocks 2, 3 and 4 extend it with certificates of consecutive views; block 2
  writes one key of the app state. The certificate for block 4 commits block 2.
\<close>

definition demo_block :: "block_height \<Rightarrow> crypto_hash \<Rightarrow> phase_certificate \<Rightarrow> block" where
  "demo_block h b j = \<lparr>b_height = h, b_hash = b, b_justify = j, b_data_hash = 0, b_data = []\<rparr>"

definition demo_batch :: "prims \<Rightarrow> write_batch" where
  "demo_batch P = wb_set_block P (demo_block 0 1 genesis_pc) (wb_set_block P (demo_block 1 2 (demo_pc 5 1))
     (wb_set_block P (demo_block 2 3 (demo_pc 6 2)) (wb_set_block P (demo_block 3 4 (demo_pc 7 3))
     (wb_set_children P 0 [1] (wb_set_children P 1 [2] (wb_set_children P 2 [3] (wb_set_children P 3 [4]
     (wb_set_pending_app_state_updates P 2 \<lparr>us_inserts = [([7], [8])], us_deletes = []\<rparr>
     (wb_set_highest_committed_block P 1 (wb_set_block_at_height P 0 1 (wb_set_newest_block P 4
     (wb_set_locked_pc P (demo_pc 6 2) (wb_set_highest_pc P (demo_pc 7 3) wb_new)))))))))))))"

definition demo_chain :: kv_store where
  "demo_chain = kv_write (demo_batch demo_prims) Map.empty"

lemmas demo_chain_simps = demo_chain_def demo_batch_def demo_block_def wb_set_block_def Let_def demo_pc_def wb_setter_defs wb_set_block_at_height_eq [OF demo_prims_laws(1)] store_simps
  kv_getter_defs kv_get_req_def kv_get_opt_def data_len_of_def map_ed25519_def is_genesis_pc_def genesis_pc_def

lemma demo_chain_heights:
  "kv_block_height demo_prims demo_chain b = Inr (if b = 1 then Some 0 else if b = 2 then Some 1 else if b = 3 then Some 2
     else if b = 4 then Some 3 else None)"
  by (simp add: demo_chain_simps)

lemma demo_chain_justify:
  "kv_block_justify demo_prims demo_chain b = (if b = 1 then Inr genesis_pc else if b = 2 then Inr (demo_pc 5 1) else if b = 3 then Inr (demo_pc 6 2)
     else if b = 4 then Inr (demo_pc 7 3) else Inl (get_err (ValueExpectedButNotFound (BlockJustifyKey b))))"
  by (simp add: demo_chain_simps)

lemma demo_pc_not_genesis [simp]: "v \<noteq> 0 \<Longrightarrow> \<not> is_genesis_pc (demo_pc v b)"
  by (simp add: is_genesis_pc_def genesis_pc_def demo_pc_def view_init_def)

lemma demo_pc_sel [simp]:
  "pc_view (demo_pc v b) = v" "pc_block (demo_pc v b) = b" "pc_phase (demo_pc v b) = Generic" "pc_chain_id (demo_pc v b) = 0"
  by (simp_all add: demo_pc_def)

lemma demo_chain_next:
  "chain_next demo_prims demo_chain b = (if b = 2 then Some 1 else if b = 3 then Some 2 else if b = 4 then Some 3 else None)"
  by (simp add: chain_next_def demo_chain_justify)

lemma demo_chain_wf: "chain_wf demo_prims demo_chain"
  by (auto simp: chain_wf_def demo_chain_next demo_chain_heights split: if_splits)

lemma demo_chain_reads:
  "kv_highest_committed_block demo_prims demo_chain = Inr (Some 1)" "kv_highest_pc demo_prims demo_chain = Inr (demo_pc 7 3)"
  "kv_locked_pc demo_prims demo_chain = Inr (demo_pc 6 2)" "kv_newest_block demo_prims demo_chain = Inr (Some 4)"
  "kv_children demo_prims demo_chain 1 = Inr [2]" "kv_children demo_prims demo_chain 0 = Inr [1]"
  "kv_validator_set_updates_status demo_prims demo_chain 2 = Inr NoUpdates"
  "kv_block_at_height demo_prims demo_chain 0 = Inr (Some 1)"
  by (simp_all add: demo_chain_simps)

lemma demo_chain_pending:
  "kv_pending_app_state_updates demo_prims demo_chain b = Inr (if b = 2 then Some \<lparr>us_inserts = [([7], [8])], us_deletes = []\<rparr> else None)"
  by (simp add: demo_chain_simps)

lemma demo_chain_committed: "bt_highest_committed_block_height demo_prims demo_chain = Inr (Some 0)"
  by (simp add: bt_highest_committed_block_height_def demo_chain_reads demo_chain_heights)

lemma demo_chain_to_commit: "block_to_commit demo_prims demo_chain (demo_pc 8 4) = Inr (Some 2)"
  by (simp add: block_to_commit_def demo_chain_justify not_committed_yet_def demo_chain_heights demo_chain_committed ok_or_def)

lemma demo_chain_commit: "\<exists>wb'. bt_commit demo_prims demo_chain 2 wb = Inr ([(2, None)], wb')"
proof -
  have "uncommitted_loop demo_prims demo_chain (Some 0) 1 = Some (Inr [])"
    by (subst uncommitted_loop.simps) (simp add: demo_chain_heights)
  then have "uncommitted_loop demo_prims demo_chain (Some 0) 2 = Some (Inr [2])"
    by (subst uncommitted_loop.simps) (simp add: demo_chain_heights demo_chain_next)
  then show ?thesis
    by (simp add: bt_commit_def demo_chain_committed commit_block_def demo_chain_heights delete_siblings_def demo_chain_justify
        demo_chain_reads demo_chain_pending ok_or_def)
qed

lemma demo_chain_update:
  obtains r ev s' where "bt_update demo_prims True (demo_pc 8 4) demo_chain = Inr (r, ev, s')"
proof -
  have lock: "pc_to_lock demo_prims demo_chain (demo_pc 8 4) = Inr (Some (demo_pc 7 3))"
    by (simp add: pc_to_lock_def demo_chain_reads demo_chain_justify) (simp add: demo_pc_def)
  obtain wb' where "bt_commit demo_prims demo_chain 2 (wb_set_locked_pc demo_prims (demo_pc 7 3)
      (wb_set_highest_pc demo_prims (demo_pc 8 4) wb_new)) = Inr ([(2, None)], wb')" using demo_chain_commit by blast
  then have "\<exists>r ev s'. bt_update demo_prims True (demo_pc 8 4) demo_chain = Inr (r, ev, s')"
    by (simp add: bt_update_def demo_chain_reads lock demo_chain_to_commit)
  with that show thesis by blast
qed

lemma bt_update_highest_pc_witness:
  "\<exists>r ev s'. bt_update demo_prims True (demo_pc 8 4) demo_chain = Inr (r, ev, s') \<and> kv_highest_pc demo_prims s' = Inr (demo_pc 8 4)"
proof -
  obtain r ev s' where u: "bt_update demo_prims True (demo_pc 8 4) demo_chain = Inr (r, ev, s')" by (rule demo_chain_update)
  with bt_update_highest_pc [OF u] show ?thesis by (auto simp: demo_chain_reads)
qed

lemma committed_blocks_permanent_witness:
  "\<exists>r ev s'. bt_update demo_prims True (demo_pc 8 4) demo_chain = Inr (r, ev, s') \<and> kv_block_at_height demo_prims s' 0 = Inr (Some 1)"
proof -
  obtain r ev s' where u: "bt_update demo_prims True (demo_pc 8 4) demo_chain = Inr (r, ev, s')" by (rule demo_chain_update)
  with committed_blocks_permanent [OF demo_prims_laws(1) u demo_chain_committed, of 0] show ?thesis by (simp add: demo_chain_reads)
qed

lemma bt_update_commits_witness:
  "\<exists>r ev s'. bt_update demo_prims True (demo_pc 8 4) demo_chain = Inr (r, ev, s') \<and>
     kv_highest_committed_block demo_prims s' = Inr (Some 2) \<and> kv_block_at_height demo_prims s' 1 = Inr (Some 2)"
proof -
  obtain r ev s' where u: "bt_update demo_prims True (demo_pc 8 4) demo_chain = Inr (r, ev, s')" by (rule demo_chain_update)
  from bt_update_commits [OF demo_prims_laws(1) u demo_chain_to_commit] u show ?thesis by (auto simp: demo_chain_heights)
qed

lemma bt_update_locked_pc_witness:
  "\<exists>r ev s'. bt_update demo_prims True (demo_pc 8 4) demo_chain = Inr (r, ev, s') \<and> kv_locked_pc demo_prims s' = Inr (demo_pc 7 3)"
proof -
  obtain r ev s' where u: "bt_update demo_prims True (demo_pc 8 4) demo_chain = Inr (r, ev, s')" by (rule demo_chain_update)
  from bt_update_locked_pc [OF u _ demo_chain_reads(3)] u show ?thesis by (auto simp: demo_chain_justify)
qed

lemma app_view_is_state_after_commit_witness:
  "\<exists>v cb wb. bt_commit demo_prims demo_chain 2 wb_new = Inr (cb, wb) \<and> bt_app_view demo_prims demo_chain (Some 2) = Inr v \<and>
     abv_app_state demo_prims v = kv_committed_app_state demo_prims (kv_write wb demo_chain)"
proof -
  obtain wb where c: "bt_commit demo_prims demo_chain 2 wb_new = Inr ([(2, None)], wb)" using demo_chain_commit by blast
  have "pending_ok demo_prims demo_chain" by (auto simp: pending_ok_def demo_chain_pending us_ok_def hm_ok_def hs_contains_def split: if_splits)
  from app_view_is_state_after_commit [OF demo_chain_wf _ this c] c show ?thesis by (auto simp: demo_chain_heights)
qed

section \<open>A freshly initialized tree\<close>

definition demo_vss :: validator_set_state where
  "demo_vss = \<lparr>committed_vs = demo_vs, previous_vs = demo_vs, vss_update_height = None, vss_update_decided = True\<rparr>"

definition demo_init :: kv_store where
  "demo_init = bt_initialize demo_prims us_new demo_vss Map.empty"

lemma demo_vss_ok:
  "us_ok us_new" "vs_ok (committed_vs demo_vss)" "vs_ok (previous_vs demo_vss)" "vs_keys_parse demo_prims (committed_vs demo_vss)"
  "vs_keys_parse demo_prims (previous_vs demo_vss)"
  by (simp_all add: us_ok_def us_new_def hm_ok_def demo_vss_def demo_vs_ok vs_keys_parse_def demo_prims_def hs_contains_def)

lemmas demo_init_gets = bt_initialize_gets [OF demo_vss_ok, folded demo_init_def]

lemma demo_init_reads:
  "kv_validator_set_state demo_prims demo_init = Inr demo_vss" "kv_highest_pc demo_prims demo_init = Inr genesis_pc"
  "kv_locked_pc demo_prims demo_init = Inr genesis_pc" "kv_highest_tc demo_prims demo_init = Inr None"
  "kv_highest_view_phase_voted demo_prims demo_init = Inr None" "kv_highest_view_entered demo_prims demo_init = Inr 0"
  "kv_highest_committed_block demo_prims demo_init = Inr None" "kv_newest_block demo_prims demo_init = Inr None"
  using demo_init_gets by simp_all

lemma demo_init_block_safe:
  assumes "b = demo_block 0 (block_compute_hash demo_prims 0 genesis_pc 0) genesis_pc"
  shows "block_is_correct demo_prims demo_init b = Inr True" "safe_block demo_prims demo_init 0 b = Inr True"
proof -
  show "block_is_correct demo_prims demo_init b = Inr True"
    by (simp add: assms block_is_correct_def demo_block_def pc_is_correct_def rand_def)
  have "kv_validator_set_updates_status demo_prims demo_init 0 = Inr NoUpdates"
    by (simp add: demo_init_def bt_initialize_def demo_vss_def us_new_def Let_def kv_getter_defs kv_get_req_def kv_get_opt_def
        map_ed25519_def wb_setter_defs store_simps wb_apply_app_state_updates_def)
  then show "safe_block demo_prims demo_init 0 b = Inr True"
    by (simp add: assms safe_block_def safe_pc_def demo_block_def demo_init_reads extends_locked_pc_block_def Let_def
        is_block_justify_def rand_def ror_def phased_def genesis_pc_def is_genesis_pc_def)
qed

lemma block_height_unchecked_witness:
  "safe_block demo_prims demo_init 0 (demo_block 99 (block_compute_hash demo_prims 99 genesis_pc 0) genesis_pc) = Inr True"
  using block_height_unchecked [OF demo_init_block_safe [OF refl], of 99] by (simp add: demo_block_def)

section \<open>Validator sets and collectors\<close>

lemma vs_apply_updates_refines_witness:
  "\<exists>vs'. vs_apply_updates demo_vs \<lparr>us_inserts = [(3, 9)], us_deletes = [1]\<rparr> = Inr vs' \<and> vs_ok vs' \<and> vs_power vs' 1 = None
     \<and> vs_power vs' 3 = Some 9"
proof -
  have "us_ok \<lparr>us_inserts = [(3 :: verifying_key, 9 :: u64)], us_deletes = [1]\<rparr>"
    by (simp add: us_ok_def hm_ok_def hm_contains_key_def hs_contains_def)
  from vs_apply_updates_refines [OF demo_vs_ok(1) this] show ?thesis
    by (auto simp: us_apply_def us_contains_delete_def us_get_insert_def hs_contains_def hm_get_def)
qed

lemma demo_quorum: "vs_is_quorum demo_vs {1, 2}"
proof -
  have "set (vs_validators demo_vs) = {1, 2}" by (simp add: demo_vs_def)
  then have "vs_power_of demo_vs {1, 2} = 4" using vs_power_of_all [OF demo_vs_ok(1)] demo_vs_ok(2) by simp
  with demo_vs_ok vs_quorum_value [of demo_vs] show ?thesis by (auto simp: vs_is_quorum_def)
qed

definition demo_vote :: "256 word \<Rightarrow> phase_vote" where
  "demo_vote k = \<lparr>pv_chain_id = 0, pv_view = 7, pv_block = 5, pv_phase = Generic, pv_signature = ucast k\<rparr>"

lemma demo_vote_ok: "phase_vote_ok demo_prims k (demo_vote k)"
  by (simp add: phase_vote_ok_def phase_vote_is_correct_def signed_message_is_correct_def demo_vote_def demo_prims_def)

lemma demo_vote_sel:
  "pv_chain_id (demo_vote k) = 0" "pv_view (demo_vote k) = 7" "pv_block (demo_vote k) = 5" "pv_phase (demo_vote k) = Generic"
  by (simp_all add: demo_vote_def)

definition demo_votes :: "(verifying_key \<times> phase_vote) list" where
  "demo_votes = [(2, demo_vote 2), (1, demo_vote 1)]"

lemma demo_votes_ok: "(k, v) \<in> set demo_votes \<Longrightarrow> phase_vote_ok demo_prims k v"
  by (auto simp: demo_votes_def demo_vote_ok)

lemma acp_certificates_correct_witness:
  "\<exists>pcs a. collect_run (acp_collect pvc_ops) demo_votes (acp_new pvc_ops 0 7 demo_vss) = Inr (pcs, a) \<and>
    (\<forall>pc \<in> set pcs. pc_is_correctly_signed demo_prims pc demo_vs = Inr True)"
proof -
  have good: "vs_good (committed_vs demo_vss)" "vs_good (previous_vs demo_vss)" by (simp_all add: demo_vss_def demo_vs_ok)
  have "committed_vs demo_vss = demo_vs" "vss_update_decided demo_vss" by (simp_all add: demo_vss_def)
  with acp_certificates_correct [of demo_vss demo_votes demo_prims 0 7, OF good demo_votes_ok] show ?thesis by simp
qed

lemma pvc_quorum_gives_certificate_witness:
  "\<exists>pcs c. collect_run pvc_collect demo_votes (pvc_new 0 7 demo_vs) = Inr (pcs, c) \<and>
    (\<exists>pc \<in> set pcs. pc_for (pvc_new 0 7 demo_vs) (5, Generic) pc)"
proof -
  have "set (vs_validators demo_vs) = {1, 2}" by (simp add: demo_vs_def)
  then have "voters_for demo_votes (pvc_new 0 7 demo_vs) (5, Generic) = {1, 2}"
    unfolding demo_votes_def by (auto simp: voters_for_def pvc_new_def demo_vote_sel)
  with demo_quorum have q: "vs_is_quorum demo_vs (voters_for demo_votes (pvc_new 0 7 demo_vs) (5, Generic))" by simp
  from pvc_quorum_gives_certificate [of demo_vs demo_votes demo_prims 0 7 "(5, Generic)", OF demo_vs_ok(3) demo_votes_ok q]
  show ?thesis .
qed

lemma acp_update_decided_toggles_witness:
  "\<exists>a. acp_update_validator_sets pvc_ops (acp_new pvc_ops 0 7 demo_vss) demo_vss = (True, a) \<and> pvs_collector a \<noteq> None"
  using acp_update_decided_toggles [of demo_vss 0 7] demo_vs_ok by (auto simp: demo_vss_def)

end
