(* ===== verification/Logging.thy ===== *)
theory Logging
  imports Messages
begin

text \<open>
  The logging handlers (\<^verbatim>\<open>logging.rs\<close>): what line each event is logged as. Events carry the time they were
  published at, in nanoseconds before or after the Unix epoch. The Base64 engine and the sink behind
  \<^verbatim>\<open>log::info!\<close> belong to other crates and are parameters. Handlers are procedures on an outside state, which
  may panic. Proved here: numbers are printed so that they can be read back, and a line that starts with
  a name and a number splits into them.
\<close>

section \<open>Printing\<close>

type_synonym system_time = int

text \<open>A handler closure, by the type of its event.\<close>

type_synonym ('e, 'w) handler_ptr = "'e \<Rightarrow> ('w, fault, unit) proc"

record 'w log_env =
  base64_encode :: "u8 list \<Rightarrow> string"
  log_info :: "string \<Rightarrow> 'w \<Rightarrow> 'w"

text \<open>\<^verbatim>\<open>Display\<close> of an unsigned integer, and \<^verbatim>\<open>Debug\<close> of a phase.\<close>

fun display_nat :: "nat \<Rightarrow> string" where
  "display_nat n = (if n < 10 then [char_of (48 + n)] else display_nat (n div 10) @ [char_of (48 + n mod 10)])"

definition display_word :: "'a::len word \<Rightarrow> string" where
  "display_word w = display_nat (unat w)"

fun debug_phase :: "phase \<Rightarrow> string" where
  "debug_phase Generic = ''Generic''"
| "debug_phase Prepare = ''Prepare''"
| "debug_phase Precommit = ''Precommit''"
| "debug_phase Commit = ''Commit''"
| "debug_phase Decide = ''Decide''"

definition vk_to_bytes :: "verifying_key \<Rightarrow> u8 list" where
  "vk_to_bytes k = be_bytes 32 k"

definition first_seven_base64_chars :: "'w log_env \<Rightarrow> u8 list \<Rightarrow> string" where
  "first_seven_base64_chars L bytes =
     (let encoded = base64_encode L bytes in if length encoded > 7 then take 7 encoded else encoded)"

definition secs_since_unix_epoch :: "system_time \<Rightarrow> u64 res" where
  "secs_since_unix_epoch timestamp =
     (if timestamp < 0 then Inl (Panicked ExpectOnErr) else Inr (of_int (timestamp div 10 ^ 9)))"

definition progress_certificate_info :: "'w log_env \<Rightarrow> progress_certificate \<Rightarrow> string" where
  "progress_certificate_info L certificate = (case certificate of
       PhaseCertificate pc \<Rightarrow>
         ''Phase Certificate, view: '' @ display_word (pc_view pc) @ '', phase: '' @ debug_phase (pc_phase pc)
         @ '', block: '' @ first_seven_base64_chars L (crypto_hash_bytes (pc_block pc))
         @ '', no. of signatures: '' @ display_nat (length (filter (\<lambda>s. s \<noteq> None) (pc_signatures pc)))
     | TimeoutCertificate tc \<Rightarrow> ''Timeout Certificate, view: '' @ display_word (tc_view tc))"

section \<open>One logger per event\<close>

text \<open>What all have in common: the values of a line are separated by a comma and a space.\<close>

fun csv :: "string list \<Rightarrow> string" where
  "csv [] = []"
| "csv [v] = v"
| "csv (v # vs) = v @ '', '' @ csv vs"

definition log_line :: "'w log_env \<Rightarrow> string \<Rightarrow> system_time \<Rightarrow> string list \<Rightarrow> ('w, fault, unit) proc" where
  "log_line L name timestamp vals =
     pbind (pread (\<lambda>_. secs_since_unix_epoch timestamp)) (\<lambda>secs.
     pmodify (log_info L (csv ([name, display_word secs] @ vals))))"

definition insert_block_logger :: "'w log_env \<Rightarrow> (system_time \<times> block, 'w) handler_ptr" where
  "insert_block_logger L = (\<lambda>(timestamp, block).
     log_line L ''InsertBlock'' timestamp [first_seven_base64_chars L (crypto_hash_bytes (b_hash block)), display_word (b_height block)])"

definition commit_block_logger :: "'w log_env \<Rightarrow> (system_time \<times> crypto_hash, 'w) handler_ptr" where
  "commit_block_logger L = (\<lambda>(timestamp, block).
     log_line L ''CommitBlock'' timestamp [first_seven_base64_chars L (crypto_hash_bytes (block))])"

definition prune_block_logger :: "'w log_env \<Rightarrow> (system_time \<times> crypto_hash, 'w) handler_ptr" where
  "prune_block_logger L = (\<lambda>(timestamp, block).
     log_line L ''PruneBlock'' timestamp [first_seven_base64_chars L (crypto_hash_bytes (block))])"

definition update_highest_pc_logger :: "'w log_env \<Rightarrow> (system_time \<times> phase_certificate, 'w) handler_ptr" where
  "update_highest_pc_logger L = (\<lambda>(timestamp, pc).
     log_line L ''UpdateHighestPC'' timestamp
      [first_seven_base64_chars L (crypto_hash_bytes (pc_block pc)), display_word (pc_view pc), debug_phase (pc_phase pc)])"

definition update_locked_pc_logger :: "'w log_env \<Rightarrow> (system_time \<times> phase_certificate, 'w) handler_ptr" where
  "update_locked_pc_logger L = (\<lambda>(timestamp, pc).
     log_line L ''UpdateLockedPC'' timestamp
      [first_seven_base64_chars L (crypto_hash_bytes (pc_block pc)), display_word (pc_view pc), debug_phase (pc_phase pc)])"

definition update_highest_tc_logger :: "'w log_env \<Rightarrow> (system_time \<times> timeout_certificate, 'w) handler_ptr" where
  "update_highest_tc_logger L = (\<lambda>(timestamp, tc).
     log_line L ''UpdateHighestTC'' timestamp [display_word (tc_view tc)])"

definition update_validator_set_logger :: "'w log_env \<Rightarrow> (system_time \<times> crypto_hash \<times> validator_set_updates, 'w) handler_ptr" where
  "update_validator_set_logger L = (\<lambda>(timestamp, cause_block, _).
     log_line L ''UpdateValidatorSet'' timestamp [first_seven_base64_chars L (crypto_hash_bytes (cause_block))])"

definition propose_logger :: "'w log_env \<Rightarrow> (system_time \<times> proposal, 'w) handler_ptr" where
  "propose_logger L = (\<lambda>(timestamp, p).
     log_line L ''Propose'' timestamp
      [first_seven_base64_chars L (crypto_hash_bytes (b_hash (p_block p))), display_word (b_height (p_block p)), display_word (p_view p)])"

definition nudge_logger :: "'w log_env \<Rightarrow> (system_time \<times> nudge, 'w) handler_ptr" where
  "nudge_logger L = (\<lambda>(timestamp, n).
     log_line L ''Nudge'' timestamp
      [first_seven_base64_chars L (crypto_hash_bytes (pc_block (n_justify n))), display_word (n_view n), debug_phase (pc_phase (n_justify n))])"

definition phase_vote_logger :: "'w log_env \<Rightarrow> (system_time \<times> phase_vote, 'w) handler_ptr" where
  "phase_vote_logger L = (\<lambda>(timestamp, v).
     log_line L ''PhaseVote'' timestamp
      [first_seven_base64_chars L (crypto_hash_bytes (pv_block v)), display_word (pv_view v), debug_phase (pv_phase v)])"

definition new_view_logger :: "'w log_env \<Rightarrow> (system_time \<times> new_view, 'w) handler_ptr" where
  "new_view_logger L = (\<lambda>(timestamp, nv).
     log_line L ''NewView'' timestamp
      [first_seven_base64_chars L (crypto_hash_bytes (pc_block (nv_highest_pc nv))), display_word (nv_view nv), debug_phase (pc_phase (nv_highest_pc nv))])"

definition timeout_vote_logger :: "'w log_env \<Rightarrow> (system_time \<times> timeout_vote, 'w) handler_ptr" where
  "timeout_vote_logger L = (\<lambda>(timestamp, v).
     log_line L ''TimeoutVote'' timestamp [display_word (tv_view v)])"

definition advance_view_logger :: "'w log_env \<Rightarrow> (system_time \<times> advance_view, 'w) handler_ptr" where
  "advance_view_logger L = (\<lambda>(timestamp, av).
     log_line L ''AdvanceView'' timestamp [progress_certificate_info L (av_progress_certificate av)])"

definition receive_proposal_logger :: "'w log_env \<Rightarrow> (system_time \<times> verifying_key \<times> proposal, 'w) handler_ptr" where
  "receive_proposal_logger L = (\<lambda>(timestamp, origin, p).
     log_line L ''ReceiveProposal'' timestamp
      [first_seven_base64_chars L (vk_to_bytes origin), first_seven_base64_chars L (crypto_hash_bytes (b_hash (p_block p))), display_word (b_height (p_block p))])"

definition receive_nudge_logger :: "'w log_env \<Rightarrow> (system_time \<times> verifying_key \<times> nudge, 'w) handler_ptr" where
  "receive_nudge_logger L = (\<lambda>(timestamp, origin, n).
     log_line L ''ReceiveNudge'' timestamp
      [first_seven_base64_chars L (vk_to_bytes origin), first_seven_base64_chars L (crypto_hash_bytes (pc_block (n_justify n))), debug_phase (pc_phase (n_justify n))])"

definition receive_phase_vote_logger :: "'w log_env \<Rightarrow> (system_time \<times> verifying_key \<times> phase_vote, 'w) handler_ptr" where
  "receive_phase_vote_logger L = (\<lambda>(timestamp, origin, v).
     log_line L ''ReceivePhaseVote'' timestamp
      [first_seven_base64_chars L (vk_to_bytes origin), first_seven_base64_chars L (crypto_hash_bytes (pv_block v)), debug_phase (pv_phase v)])"

definition receive_new_view_logger :: "'w log_env \<Rightarrow> (system_time \<times> verifying_key \<times> new_view, 'w) handler_ptr" where
  "receive_new_view_logger L = (\<lambda>(timestamp, origin, nv).
     log_line L ''ReceiveNewView'' timestamp
      [first_seven_base64_chars L (vk_to_bytes origin), first_seven_base64_chars L (crypto_hash_bytes (pc_block (nv_highest_pc nv))), display_word (nv_view nv), debug_phase (pc_phase (nv_highest_pc nv))])"

definition receive_timeout_vote_logger :: "'w log_env \<Rightarrow> (system_time \<times> verifying_key \<times> timeout_vote, 'w) handler_ptr" where
  "receive_timeout_vote_logger L = (\<lambda>(timestamp, origin, v).
     log_line L ''ReceiveTimeoutVote'' timestamp [first_seven_base64_chars L (vk_to_bytes origin), display_word (tv_view v)])"

definition receive_advance_view_logger :: "'w log_env \<Rightarrow> (system_time \<times> verifying_key \<times> advance_view, 'w) handler_ptr" where
  "receive_advance_view_logger L = (\<lambda>(timestamp, origin, av).
     log_line L ''ReceiveAdvanceView'' timestamp
      [first_seven_base64_chars L (vk_to_bytes origin), progress_certificate_info L (av_progress_certificate av)])"

definition start_view_logger :: "'w log_env \<Rightarrow> (system_time \<times> view_number, 'w) handler_ptr" where
  "start_view_logger L = (\<lambda>(timestamp, view).
     log_line L ''StartView'' timestamp [display_word (view)])"

definition view_timeout_logger :: "'w log_env \<Rightarrow> (system_time \<times> view_number, 'w) handler_ptr" where
  "view_timeout_logger L = (\<lambda>(timestamp, view).
     log_line L ''ViewTimeout'' timestamp [display_word (view)])"

definition collect_pc_logger :: "'w log_env \<Rightarrow> (system_time \<times> phase_certificate, 'w) handler_ptr" where
  "collect_pc_logger L = (\<lambda>(timestamp, pc).
     log_line L ''CollectPC'' timestamp
      [first_seven_base64_chars L (crypto_hash_bytes (pc_block pc)), display_word (pc_view pc), debug_phase (pc_phase pc)])"

definition collect_tc_logger :: "'w log_env \<Rightarrow> (system_time \<times> timeout_certificate, 'w) handler_ptr" where
  "collect_tc_logger L = (\<lambda>(timestamp, tc).
     log_line L ''CollectTC'' timestamp [display_word (tc_view tc)])"

definition start_sync_logger :: "'w log_env \<Rightarrow> (system_time \<times> verifying_key, 'w) handler_ptr" where
  "start_sync_logger L = (\<lambda>(timestamp, peer).
     log_line L ''StartSync'' timestamp [first_seven_base64_chars L (vk_to_bytes peer)])"

definition end_sync_logger :: "'w log_env \<Rightarrow> (system_time \<times> verifying_key \<times> u64, 'w) handler_ptr" where
  "end_sync_logger L = (\<lambda>(timestamp, peer, blocks_synced).
     log_line L ''EndSync'' timestamp [first_seven_base64_chars L (vk_to_bytes peer), display_word (blocks_synced)])"

definition receive_sync_request_logger :: "'w log_env \<Rightarrow> (system_time \<times> verifying_key \<times> block_height \<times> u32, 'w) handler_ptr" where
  "receive_sync_request_logger L = (\<lambda>(timestamp, peer, start_height, limit).
     log_line L ''ReceiveSyncRequest'' timestamp
      [first_seven_base64_chars L (vk_to_bytes peer), display_word (start_height), display_word (limit)])"

definition send_sync_response_logger :: "'w log_env \<Rightarrow> (system_time \<times> verifying_key \<times> block list \<times> phase_certificate, 'w) handler_ptr" where
  "send_sync_response_logger L = (\<lambda>(timestamp, peer, blocks, pc).
     log_line L ''SendSyncResponse'' timestamp
      [first_seven_base64_chars L (vk_to_bytes peer), first_seven_base64_chars L (crypto_hash_bytes (pc_block pc)), display_nat (length blocks)])"

section \<open>Reading a line\<close>

definition read_nat :: "string \<Rightarrow> nat" where
  "read_nat s = foldl (\<lambda>n c. 10 * n + (of_char c - 48)) 0 s"

definition is_digit :: "char \<Rightarrow> bool" where
  "is_digit c \<longleftrightarrow> 48 \<le> (of_char c :: nat) \<and> (of_char c :: nat) \<le> 57"

declare display_nat.simps [simp del]

lemma display_nat_digits: "c \<in> set (display_nat n) \<Longrightarrow> is_digit c"
proof (induction n rule: display_nat.induct)
  case (1 n)
  have d: "is_digit (char_of (48 + m))" if "m < 10" for m :: nat using that by (simp add: is_digit_def)
  show ?case
  proof (cases "n < 10")
    case True
    with 1(2) d [of n] show ?thesis by (simp add: display_nat.simps)
  next
    case False
    with 1 d [of "n mod 10"] show ?thesis by (auto simp: display_nat.simps [of n])
  qed
qed

lemma read_display_nat [simp]: "read_nat (display_nat n) = n"
proof (induction n rule: display_nat.induct)
  case (1 n)
  show ?case
  proof (cases "n < 10")
    case False
    with 1 have "read_nat (display_nat (n div 10)) = n div 10" by simp
    with False show ?thesis by (simp add: display_nat.simps [of n] read_nat_def)
  qed (simp add: display_nat.simps read_nat_def)
qed

lemma comma_not_digit: "is_digit c \<Longrightarrow> c \<noteq> CHR '',''"
  by (auto simp: is_digit_def)

text \<open>The values of a line.\<close>

fun csv_values :: "string \<Rightarrow> string list" where
  "csv_values [] = [[]]"
| "csv_values (c # cs) =
     (if c = CHR '','' \<and> cs \<noteq> [] \<and> hd cs = CHR '' '' then [] # csv_values (tl cs)
      else case csv_values cs of [] \<Rightarrow> [[c]] | v # vs \<Rightarrow> (c # v) # vs)"

lemma csv_values_Cons: "CHR '','' \<notin> set v \<Longrightarrow> csv_values (v @ CHR '','' # CHR '' '' # rest) = v # csv_values rest"
  by (induction v) auto

lemma csv_values_line:
  assumes "CHR '','' \<notin> set name" and "vals \<noteq> []"
  shows "\<exists>rest. csv_values (csv ([name, display_nat n] @ vals)) = name # display_nat n # rest"
proof -
  have "CHR '','' \<notin> set (display_nat n)" using display_nat_digits comma_not_digit by blast
  with assms show ?thesis by (cases vals) (simp_all add: csv_values_Cons)
qed

end
