(* ===== verification/Event_Bus.thy ===== *)
theory Event_Bus
  imports Logging
begin

text \<open>
  The event bus (\<^verbatim>\<open>event_bus.rs\<close>): the handlers a replica has for each kind of event, and the thread that takes
  events from the channel of the publishers and runs their handlers. An event is paired with the time it
  was published at. Proved here: an event runs exactly the two handlers of its kind, the user's first;
  events are handled once each and in the order of publication as long as none arrives in the gap between the
  two looks at the channel; an event that arrives in that gap is lost.
\<close>

section \<open>Handlers\<close>

record ('e, 'w) handler_pair =
  user_defined_handler :: "('e, 'w) handler_ptr option"
  logging_handler :: "('e, 'w) handler_ptr option"

definition handler_pair_is_empty :: "('e, 'w) handler_pair \<Rightarrow> bool" where
  "handler_pair_is_empty p \<longleftrightarrow> user_defined_handler p = None \<and> logging_handler p = None"

definition handler_pair_new :: "bool \<Rightarrow> ('e, 'w) handler_ptr \<Rightarrow> ('e, 'w) handler_ptr option \<Rightarrow> ('e, 'w) handler_pair" where
  "handler_pair_new log get_logger user =
     \<lparr>user_defined_handler = user, logging_handler = (if log then Some get_logger else None)\<rparr>"

record 'w event_handlers =
  insert_block_handlers :: "(system_time \<times> block, 'w) handler_pair"
  commit_block_handlers :: "(system_time \<times> crypto_hash, 'w) handler_pair"
  prune_block_handlers :: "(system_time \<times> crypto_hash, 'w) handler_pair"
  update_highest_pc_handlers :: "(system_time \<times> phase_certificate, 'w) handler_pair"
  update_locked_pc_handlers :: "(system_time \<times> phase_certificate, 'w) handler_pair"
  update_highest_tc_handlers :: "(system_time \<times> timeout_certificate, 'w) handler_pair"
  update_validator_set_handlers :: "(system_time \<times> crypto_hash \<times> validator_set_updates, 'w) handler_pair"
  propose_handlers :: "(system_time \<times> proposal, 'w) handler_pair"
  nudge_handlers :: "(system_time \<times> nudge, 'w) handler_pair"
  phase_vote_handlers :: "(system_time \<times> phase_vote, 'w) handler_pair"
  new_view_handlers :: "(system_time \<times> new_view, 'w) handler_pair"
  timeout_vote_handlers :: "(system_time \<times> timeout_vote, 'w) handler_pair"
  advance_view_handlers :: "(system_time \<times> advance_view, 'w) handler_pair"
  receive_proposal_handlers :: "(system_time \<times> verifying_key \<times> proposal, 'w) handler_pair"
  receive_nudge_handlers :: "(system_time \<times> verifying_key \<times> nudge, 'w) handler_pair"
  receive_phase_vote_handlers :: "(system_time \<times> verifying_key \<times> phase_vote, 'w) handler_pair"
  receive_new_view_handlers :: "(system_time \<times> verifying_key \<times> new_view, 'w) handler_pair"
  receive_timeout_vote_handlers :: "(system_time \<times> verifying_key \<times> timeout_vote, 'w) handler_pair"
  receive_advance_view_handlers :: "(system_time \<times> verifying_key \<times> advance_view, 'w) handler_pair"
  start_view_handlers :: "(system_time \<times> view_number, 'w) handler_pair"
  view_timeout_handlers :: "(system_time \<times> view_number, 'w) handler_pair"
  collect_pc_handlers :: "(system_time \<times> phase_certificate, 'w) handler_pair"
  collect_tc_handlers :: "(system_time \<times> timeout_certificate, 'w) handler_pair"
  start_sync_handlers :: "(system_time \<times> verifying_key, 'w) handler_pair"
  end_sync_handlers :: "(system_time \<times> verifying_key \<times> u64, 'w) handler_pair"
  receive_sync_request_handlers :: "(system_time \<times> verifying_key \<times> block_height \<times> u32, 'w) handler_pair"
  send_sync_response_handlers :: "(system_time \<times> verifying_key \<times> block list \<times> phase_certificate, 'w) handler_pair"

text \<open>The handlers a user may give to the builder of a replica.\<close>

record 'w user_handlers =
  uh_on_insert_block :: "(system_time \<times> block, 'w) handler_ptr option"
  uh_on_commit_block :: "(system_time \<times> crypto_hash, 'w) handler_ptr option"
  uh_on_prune_block :: "(system_time \<times> crypto_hash, 'w) handler_ptr option"
  uh_on_update_highest_pc :: "(system_time \<times> phase_certificate, 'w) handler_ptr option"
  uh_on_update_locked_pc :: "(system_time \<times> phase_certificate, 'w) handler_ptr option"
  uh_on_update_highest_tc :: "(system_time \<times> timeout_certificate, 'w) handler_ptr option"
  uh_on_update_validator_set :: "(system_time \<times> crypto_hash \<times> validator_set_updates, 'w) handler_ptr option"
  uh_on_propose :: "(system_time \<times> proposal, 'w) handler_ptr option"
  uh_on_nudge :: "(system_time \<times> nudge, 'w) handler_ptr option"
  uh_on_phase_vote :: "(system_time \<times> phase_vote, 'w) handler_ptr option"
  uh_on_new_view :: "(system_time \<times> new_view, 'w) handler_ptr option"
  uh_on_timeout_vote :: "(system_time \<times> timeout_vote, 'w) handler_ptr option"
  uh_on_advance_view :: "(system_time \<times> advance_view, 'w) handler_ptr option"
  uh_on_receive_proposal :: "(system_time \<times> verifying_key \<times> proposal, 'w) handler_ptr option"
  uh_on_receive_nudge :: "(system_time \<times> verifying_key \<times> nudge, 'w) handler_ptr option"
  uh_on_receive_phase_vote :: "(system_time \<times> verifying_key \<times> phase_vote, 'w) handler_ptr option"
  uh_on_receive_new_view :: "(system_time \<times> verifying_key \<times> new_view, 'w) handler_ptr option"
  uh_on_receive_timeout_vote :: "(system_time \<times> verifying_key \<times> timeout_vote, 'w) handler_ptr option"
  uh_on_receive_advance_view :: "(system_time \<times> verifying_key \<times> advance_view, 'w) handler_ptr option"
  uh_on_start_view :: "(system_time \<times> view_number, 'w) handler_ptr option"
  uh_on_view_timeout :: "(system_time \<times> view_number, 'w) handler_ptr option"
  uh_on_collect_pc :: "(system_time \<times> phase_certificate, 'w) handler_ptr option"
  uh_on_collect_tc :: "(system_time \<times> timeout_certificate, 'w) handler_ptr option"
  uh_on_start_sync :: "(system_time \<times> verifying_key, 'w) handler_ptr option"
  uh_on_end_sync :: "(system_time \<times> verifying_key \<times> u64, 'w) handler_ptr option"
  uh_on_receive_sync_request :: "(system_time \<times> verifying_key \<times> block_height \<times> u32, 'w) handler_ptr option"
  uh_on_send_sync_response :: "(system_time \<times> verifying_key \<times> block list \<times> phase_certificate, 'w) handler_ptr option"

definition event_handlers_new :: "'w log_env \<Rightarrow> bool \<Rightarrow> 'w user_handlers \<Rightarrow> 'w event_handlers" where
  "event_handlers_new L log u = \<lparr>
     insert_block_handlers = handler_pair_new log (insert_block_logger L) (uh_on_insert_block u),
     commit_block_handlers = handler_pair_new log (commit_block_logger L) (uh_on_commit_block u),
     prune_block_handlers = handler_pair_new log (prune_block_logger L) (uh_on_prune_block u),
     update_highest_pc_handlers = handler_pair_new log (update_highest_pc_logger L) (uh_on_update_highest_pc u),
     update_locked_pc_handlers = handler_pair_new log (update_locked_pc_logger L) (uh_on_update_locked_pc u),
     update_highest_tc_handlers = handler_pair_new log (update_highest_tc_logger L) (uh_on_update_highest_tc u),
     update_validator_set_handlers = handler_pair_new log (update_validator_set_logger L) (uh_on_update_validator_set u),
     propose_handlers = handler_pair_new log (propose_logger L) (uh_on_propose u),
     nudge_handlers = handler_pair_new log (nudge_logger L) (uh_on_nudge u),
     phase_vote_handlers = handler_pair_new log (phase_vote_logger L) (uh_on_phase_vote u),
     new_view_handlers = handler_pair_new log (new_view_logger L) (uh_on_new_view u),
     timeout_vote_handlers = handler_pair_new log (timeout_vote_logger L) (uh_on_timeout_vote u),
     advance_view_handlers = handler_pair_new log (advance_view_logger L) (uh_on_advance_view u),
     receive_proposal_handlers = handler_pair_new log (receive_proposal_logger L) (uh_on_receive_proposal u),
     receive_nudge_handlers = handler_pair_new log (receive_nudge_logger L) (uh_on_receive_nudge u),
     receive_phase_vote_handlers = handler_pair_new log (receive_phase_vote_logger L) (uh_on_receive_phase_vote u),
     receive_new_view_handlers = handler_pair_new log (receive_new_view_logger L) (uh_on_receive_new_view u),
     receive_timeout_vote_handlers = handler_pair_new log (receive_timeout_vote_logger L) (uh_on_receive_timeout_vote u),
     receive_advance_view_handlers = handler_pair_new log (receive_advance_view_logger L) (uh_on_receive_advance_view u),
     start_view_handlers = handler_pair_new log (start_view_logger L) (uh_on_start_view u),
     view_timeout_handlers = handler_pair_new log (view_timeout_logger L) (uh_on_view_timeout u),
     collect_pc_handlers = handler_pair_new log (collect_pc_logger L) (uh_on_collect_pc u),
     collect_tc_handlers = handler_pair_new log (collect_tc_logger L) (uh_on_collect_tc u),
     start_sync_handlers = handler_pair_new log (start_sync_logger L) (uh_on_start_sync u),
     end_sync_handlers = handler_pair_new log (end_sync_logger L) (uh_on_end_sync u),
     receive_sync_request_handlers = handler_pair_new log (receive_sync_request_logger L) (uh_on_receive_sync_request u),
     send_sync_response_handlers = handler_pair_new log (send_sync_response_logger L) (uh_on_send_sync_response u)\<rparr>"

definition event_handlers_is_empty :: "'w event_handlers \<Rightarrow> bool" where
  "event_handlers_is_empty h \<longleftrightarrow>
     handler_pair_is_empty (insert_block_handlers h)
     \<and> handler_pair_is_empty (commit_block_handlers h)
     \<and> handler_pair_is_empty (prune_block_handlers h)
     \<and> handler_pair_is_empty (update_highest_pc_handlers h)
     \<and> handler_pair_is_empty (update_locked_pc_handlers h)
     \<and> handler_pair_is_empty (update_highest_tc_handlers h)
     \<and> handler_pair_is_empty (update_validator_set_handlers h)
     \<and> handler_pair_is_empty (propose_handlers h)
     \<and> handler_pair_is_empty (nudge_handlers h)
     \<and> handler_pair_is_empty (phase_vote_handlers h)
     \<and> handler_pair_is_empty (new_view_handlers h)
     \<and> handler_pair_is_empty (timeout_vote_handlers h)
     \<and> handler_pair_is_empty (advance_view_handlers h)
     \<and> handler_pair_is_empty (receive_proposal_handlers h)
     \<and> handler_pair_is_empty (receive_nudge_handlers h)
     \<and> handler_pair_is_empty (receive_phase_vote_handlers h)
     \<and> handler_pair_is_empty (receive_new_view_handlers h)
     \<and> handler_pair_is_empty (receive_timeout_vote_handlers h)
     \<and> handler_pair_is_empty (receive_advance_view_handlers h)
     \<and> handler_pair_is_empty (start_view_handlers h)
     \<and> handler_pair_is_empty (view_timeout_handlers h)
     \<and> handler_pair_is_empty (collect_pc_handlers h)
     \<and> handler_pair_is_empty (collect_tc_handlers h)
     \<and> handler_pair_is_empty (start_sync_handlers h)
     \<and> handler_pair_is_empty (end_sync_handlers h)
     \<and> handler_pair_is_empty (receive_sync_request_handlers h)
     \<and> handler_pair_is_empty (send_sync_response_handlers h)"

text \<open>What each arm of \<^verbatim>\<open>fire_handlers\<close> does with its pair of handlers.\<close>

definition fire_option :: "('e, 'w) handler_ptr option \<Rightarrow> ('e, 'w) handler_ptr" where
  "fire_option handler event = (case handler of None \<Rightarrow> pret () | Some f \<Rightarrow> f event)"

definition fire_pair :: "('e, 'w) handler_pair \<Rightarrow> ('e, 'w) handler_ptr" where
  "fire_pair p event = pthen (fire_option (user_defined_handler p) event) (fire_option (logging_handler p) event)"

type_synonym timed_event = "system_time \<times> event"

fun fire_handlers :: "'w event_handlers \<Rightarrow> timed_event \<Rightarrow> ('w, fault, unit) proc" where
  "fire_handlers h (timestamp, InsertBlockEvent block) = fire_pair (insert_block_handlers h) (timestamp, block)"
| "fire_handlers h (timestamp, CommitBlockEvent block) = fire_pair (commit_block_handlers h) (timestamp, block)"
| "fire_handlers h (timestamp, PruneBlockEvent block) = fire_pair (prune_block_handlers h) (timestamp, block)"
| "fire_handlers h (timestamp, UpdateHighestPCEvent pc) = fire_pair (update_highest_pc_handlers h) (timestamp, pc)"
| "fire_handlers h (timestamp, UpdateLockedPCEvent pc) = fire_pair (update_locked_pc_handlers h) (timestamp, pc)"
| "fire_handlers h (timestamp, UpdateHighestTCEvent tc) = fire_pair (update_highest_tc_handlers h) (timestamp, tc)"
| "fire_handlers h (timestamp, UpdateValidatorSetEvent cause_block validator_set_updates) = fire_pair (update_validator_set_handlers h) (timestamp, cause_block, validator_set_updates)"
| "fire_handlers h (timestamp, ProposeEvent p) = fire_pair (propose_handlers h) (timestamp, p)"
| "fire_handlers h (timestamp, NudgeEvent n) = fire_pair (nudge_handlers h) (timestamp, n)"
| "fire_handlers h (timestamp, PhaseVoteEvent v) = fire_pair (phase_vote_handlers h) (timestamp, v)"
| "fire_handlers h (timestamp, NewViewEvent nv) = fire_pair (new_view_handlers h) (timestamp, nv)"
| "fire_handlers h (timestamp, TimeoutVoteEvent v) = fire_pair (timeout_vote_handlers h) (timestamp, v)"
| "fire_handlers h (timestamp, AdvanceViewEvent av) = fire_pair (advance_view_handlers h) (timestamp, av)"
| "fire_handlers h (timestamp, ReceiveProposalEvent origin p) = fire_pair (receive_proposal_handlers h) (timestamp, origin, p)"
| "fire_handlers h (timestamp, ReceiveNudgeEvent origin n) = fire_pair (receive_nudge_handlers h) (timestamp, origin, n)"
| "fire_handlers h (timestamp, ReceivePhaseVoteEvent origin v) = fire_pair (receive_phase_vote_handlers h) (timestamp, origin, v)"
| "fire_handlers h (timestamp, ReceiveNewViewEvent origin nv) = fire_pair (receive_new_view_handlers h) (timestamp, origin, nv)"
| "fire_handlers h (timestamp, ReceiveTimeoutVoteEvent origin v) = fire_pair (receive_timeout_vote_handlers h) (timestamp, origin, v)"
| "fire_handlers h (timestamp, ReceiveAdvanceViewEvent origin av) = fire_pair (receive_advance_view_handlers h) (timestamp, origin, av)"
| "fire_handlers h (timestamp, StartViewEvent view) = fire_pair (start_view_handlers h) (timestamp, view)"
| "fire_handlers h (timestamp, ViewTimeoutEvent view) = fire_pair (view_timeout_handlers h) (timestamp, view)"
| "fire_handlers h (timestamp, CollectPCEvent pc) = fire_pair (collect_pc_handlers h) (timestamp, pc)"
| "fire_handlers h (timestamp, CollectTCEvent tc) = fire_pair (collect_tc_handlers h) (timestamp, tc)"
| "fire_handlers h (timestamp, StartSyncEvent peer) = fire_pair (start_sync_handlers h) (timestamp, peer)"
| "fire_handlers h (timestamp, EndSyncEvent peer blocks_synced) = fire_pair (end_sync_handlers h) (timestamp, peer, blocks_synced)"
| "fire_handlers h (timestamp, ReceiveSyncRequestEvent peer start_height limit) = fire_pair (receive_sync_request_handlers h) (timestamp, peer, start_height, limit)"
| "fire_handlers h (timestamp, SendSyncResponseEvent peer blocks pc) = fire_pair (send_sync_response_handlers h) (timestamp, peer, blocks, pc)"

section \<open>The thread\<close>

text \<open>
  What the outside does during one iteration of the loop: the shutdown signal, the events published up to
  the first look at the channel and those published between the two looks, and whether there are still
  publishers.
\<close>

record bus_input =
  bi_shutdown :: "unit try_recv_result"
  bi_before :: "timed_event list"
  bi_between :: "timed_event list"
  bi_connected :: bool

type_synonym 'w bus = "timed_event list \<times> 'w"

text \<open>One iteration; the result tells whether the thread returns.\<close>

definition event_bus_turn :: "'w event_handlers \<Rightarrow> bus_input \<Rightarrow> ('w bus, fault, bool) proc" where
  "event_bus_turn h i = (\<lambda>(q, w). case bi_shutdown i of
       TryOk _ \<Rightarrow> (Inr True, q @ bi_before i @ bi_between i, w)
     | TryDisconnected \<Rightarrow> (Inl (Panicked ExplicitPanic), q @ bi_before i @ bi_between i, w)
     | TryEmpty \<Rightarrow>
         (case try_recv (bi_connected i) (q @ bi_before i) of
            (TryOk event, q) \<Rightarrow> (let (r, w) = fire_handlers h event w in (rbind r (\<lambda>_. Inr False), q @ bi_between i, w))
          | (_, q) \<Rightarrow>
              (case try_recv (bi_connected i) (q @ bi_between i) of
                 (TryDisconnected, q) \<Rightarrow> (Inl (Panicked ExplicitPanic), q, w)
               | (_, q) \<Rightarrow> (Inr False, q, w))))"

fun event_bus_run :: "'w event_handlers \<Rightarrow> bus_input list \<Rightarrow> ('w bus, fault, bool) proc" where
  "event_bus_run h [] = pret False"
| "event_bus_run h (i # is) = pbind (event_bus_turn h i) (\<lambda>stop. if stop then pret True else event_bus_run h is)"

section \<open>Which handlers run\<close>

text \<open>The name of an event in a log line.\<close>

fun event_name :: "event \<Rightarrow> string" where
  "event_name (InsertBlockEvent _) = ''InsertBlock''"
| "event_name (CommitBlockEvent _) = ''CommitBlock''"
| "event_name (PruneBlockEvent _) = ''PruneBlock''"
| "event_name (UpdateHighestPCEvent _) = ''UpdateHighestPC''"
| "event_name (UpdateLockedPCEvent _) = ''UpdateLockedPC''"
| "event_name (UpdateHighestTCEvent _) = ''UpdateHighestTC''"
| "event_name (UpdateValidatorSetEvent _ _) = ''UpdateValidatorSet''"
| "event_name (ProposeEvent _) = ''Propose''"
| "event_name (NudgeEvent _) = ''Nudge''"
| "event_name (PhaseVoteEvent _) = ''PhaseVote''"
| "event_name (NewViewEvent _) = ''NewView''"
| "event_name (TimeoutVoteEvent _) = ''TimeoutVote''"
| "event_name (AdvanceViewEvent _) = ''AdvanceView''"
| "event_name (ReceiveProposalEvent _ _) = ''ReceiveProposal''"
| "event_name (ReceiveNudgeEvent _ _) = ''ReceiveNudge''"
| "event_name (ReceivePhaseVoteEvent _ _) = ''ReceivePhaseVote''"
| "event_name (ReceiveNewViewEvent _ _) = ''ReceiveNewView''"
| "event_name (ReceiveTimeoutVoteEvent _ _) = ''ReceiveTimeoutVote''"
| "event_name (ReceiveAdvanceViewEvent _ _) = ''ReceiveAdvanceView''"
| "event_name (StartViewEvent _) = ''StartView''"
| "event_name (ViewTimeoutEvent _) = ''ViewTimeout''"
| "event_name (CollectPCEvent _) = ''CollectPC''"
| "event_name (CollectTCEvent _) = ''CollectTC''"
| "event_name (StartSyncEvent _) = ''StartSync''"
| "event_name (EndSyncEvent _ _) = ''EndSync''"
| "event_name (ReceiveSyncRequestEvent _ _ _) = ''ReceiveSyncRequest''"
| "event_name (SendSyncResponseEvent _ _ _) = ''SendSyncResponse''"

text \<open>A replica without handlers of its own.\<close>

definition no_user_handlers :: "'w user_handlers" where
  "no_user_handlers = \<lparr>
     uh_on_insert_block = None, uh_on_commit_block = None, uh_on_prune_block = None, uh_on_update_highest_pc = None,
     uh_on_update_locked_pc = None, uh_on_update_highest_tc = None, uh_on_update_validator_set = None, uh_on_propose = None,
     uh_on_nudge = None, uh_on_phase_vote = None, uh_on_new_view = None, uh_on_timeout_vote = None,
     uh_on_advance_view = None, uh_on_receive_proposal = None, uh_on_receive_nudge = None, uh_on_receive_phase_vote = None,
     uh_on_receive_new_view = None, uh_on_receive_timeout_vote = None, uh_on_receive_advance_view = None, uh_on_start_view = None,
     uh_on_view_timeout = None, uh_on_collect_pc = None, uh_on_collect_tc = None, uh_on_start_sync = None,
     uh_on_end_sync = None, uh_on_receive_sync_request = None, uh_on_send_sync_response = None\<rparr>"

lemmas logger_defs =
  insert_block_logger_def commit_block_logger_def prune_block_logger_def update_highest_pc_logger_def
  update_locked_pc_logger_def update_highest_tc_logger_def update_validator_set_logger_def propose_logger_def
  nudge_logger_def phase_vote_logger_def new_view_logger_def timeout_vote_logger_def
  advance_view_logger_def receive_proposal_logger_def receive_nudge_logger_def receive_phase_vote_logger_def
  receive_new_view_logger_def receive_timeout_vote_logger_def receive_advance_view_logger_def start_view_logger_def
  view_timeout_logger_def collect_pc_logger_def collect_tc_logger_def start_sync_logger_def
  end_sync_logger_def receive_sync_request_logger_def send_sync_response_logger_def

lemma log_line_run:
  assumes "0 \<le> t" and "t div 10 ^ 9 < 2 ^ 64"
  shows "log_line L name t vals w = (Inr (), log_info L (csv ([name, display_nat (nat (t div 10 ^ 9))] @ vals)) w)"
proof -
  have "unat (of_int (t div 10 ^ 9) :: u64) = nat (t div 10 ^ 9)"
    using assms by (simp add: unsigned_of_int take_bit_int_eq_self)
  with assms(1) show ?thesis
    by (simp add: log_line_def pbind_def pread_def pmodify_def secs_since_unix_epoch_def display_word_def)
qed

definition only_logging :: "('e, 'w) handler_ptr \<Rightarrow> ('e, 'w) handler_pair" where
  "only_logging f = \<lparr>user_defined_handler = None, logging_handler = Some f\<rparr>"

lemma fire_only_logging: "fire_pair (only_logging f) = f"
  by (simp add: fun_eq_iff fire_pair_def only_logging_def fire_option_def pthen_def pbind_def pret_def)

lemma logging_handlers:
  "insert_block_handlers (event_handlers_new L True no_user_handlers) = only_logging (insert_block_logger L)"
  "commit_block_handlers (event_handlers_new L True no_user_handlers) = only_logging (commit_block_logger L)"
  "prune_block_handlers (event_handlers_new L True no_user_handlers) = only_logging (prune_block_logger L)"
  "update_highest_pc_handlers (event_handlers_new L True no_user_handlers) = only_logging (update_highest_pc_logger L)"
  "update_locked_pc_handlers (event_handlers_new L True no_user_handlers) = only_logging (update_locked_pc_logger L)"
  "update_highest_tc_handlers (event_handlers_new L True no_user_handlers) = only_logging (update_highest_tc_logger L)"
  "update_validator_set_handlers (event_handlers_new L True no_user_handlers) = only_logging (update_validator_set_logger L)"
  "propose_handlers (event_handlers_new L True no_user_handlers) = only_logging (propose_logger L)"
  "nudge_handlers (event_handlers_new L True no_user_handlers) = only_logging (nudge_logger L)"
  "phase_vote_handlers (event_handlers_new L True no_user_handlers) = only_logging (phase_vote_logger L)"
  "new_view_handlers (event_handlers_new L True no_user_handlers) = only_logging (new_view_logger L)"
  "timeout_vote_handlers (event_handlers_new L True no_user_handlers) = only_logging (timeout_vote_logger L)"
  "advance_view_handlers (event_handlers_new L True no_user_handlers) = only_logging (advance_view_logger L)"
  "receive_proposal_handlers (event_handlers_new L True no_user_handlers) = only_logging (receive_proposal_logger L)"
  "receive_nudge_handlers (event_handlers_new L True no_user_handlers) = only_logging (receive_nudge_logger L)"
  "receive_phase_vote_handlers (event_handlers_new L True no_user_handlers) = only_logging (receive_phase_vote_logger L)"
  "receive_new_view_handlers (event_handlers_new L True no_user_handlers) = only_logging (receive_new_view_logger L)"
  "receive_timeout_vote_handlers (event_handlers_new L True no_user_handlers) = only_logging (receive_timeout_vote_logger L)"
  "receive_advance_view_handlers (event_handlers_new L True no_user_handlers) = only_logging (receive_advance_view_logger L)"
  "start_view_handlers (event_handlers_new L True no_user_handlers) = only_logging (start_view_logger L)"
  "view_timeout_handlers (event_handlers_new L True no_user_handlers) = only_logging (view_timeout_logger L)"
  "collect_pc_handlers (event_handlers_new L True no_user_handlers) = only_logging (collect_pc_logger L)"
  "collect_tc_handlers (event_handlers_new L True no_user_handlers) = only_logging (collect_tc_logger L)"
  "start_sync_handlers (event_handlers_new L True no_user_handlers) = only_logging (start_sync_logger L)"
  "end_sync_handlers (event_handlers_new L True no_user_handlers) = only_logging (end_sync_logger L)"
  "receive_sync_request_handlers (event_handlers_new L True no_user_handlers) = only_logging (receive_sync_request_logger L)"
  "send_sync_response_handlers (event_handlers_new L True no_user_handlers) = only_logging (send_sync_response_logger L)"
  by (simp_all add: event_handlers_new_def no_user_handlers_def handler_pair_new_def only_logging_def)

lemma fire_logging_only:
  "\<exists>vals. vals \<noteq> [] \<and> fire_handlers (event_handlers_new L True no_user_handlers) (t, ev) = log_line L (event_name ev) t vals"
  by (cases ev; simp only: fire_handlers.simps logging_handlers fire_only_logging logger_defs event_name.simps prod.case;
      rule exI, rule conjI [rotated], rule refl, simp)

lemma event_name_no_comma: "CHR '','' \<notin> set (event_name ev)"
  by (cases ev) simp_all

text \<open>
  Every event is logged on one readable line: with logging enabled and no handlers of the user, firing an event
  published at or after the Unix epoch passes exactly one line to the logger, and the line split at its separators
  starts with the name of the event and the seconds of its time, in decimal. No two kinds of events share a name.
\<close>

lemma event_logged_readably:
  assumes "0 \<le> t" and "t div 10 ^ 9 < 2 ^ 64"
  shows "\<exists>line secs rest. fire_handlers (event_handlers_new L True no_user_handlers) (t, ev) w = (Inr (), log_info L line w) \<and>
    csv_values line = event_name ev # secs # rest \<and> read_nat secs = nat (t div 10 ^ 9)"
proof -
  obtain vals where v: "vals \<noteq> []"
      "fire_handlers (event_handlers_new L True no_user_handlers) (t, ev) = log_line L (event_name ev) t vals"
    using fire_logging_only by metis
  let ?line = "csv ([event_name ev, display_nat (nat (t div 10 ^ 9))] @ vals)"
  from csv_values_line [OF event_name_no_comma v(1)] obtain rest where
    "csv_values ?line = event_name ev # display_nat (nat (t div 10 ^ 9)) # rest" by blast
  with log_line_run [OF assms] v(2) read_display_nat show ?thesis by fastforce
qed

section \<open>What reaches the handlers\<close>

fun fire_all :: "'w event_handlers \<Rightarrow> timed_event list \<Rightarrow> ('w, fault, unit) proc" where
  "fire_all h [] = pret ()"
| "fire_all h (e # es) = pthen (fire_handlers h e) (fire_all h es)"

text \<open>An iteration that runs on and in which nothing is published in the gap.\<close>

definition quiet :: "bus_input \<Rightarrow> bool" where
  "quiet i \<longleftrightarrow> bi_shutdown i = TryEmpty \<and> bi_between i = [] \<and> bi_connected i"

lemma quiet_turn:
  assumes "quiet i"
  shows "event_bus_turn h i (q, w) = (case q @ bi_before i of
      [] \<Rightarrow> (Inr False, [], w)
    | e # es \<Rightarrow> (let (r, w') = fire_handlers h e w in (rbind r (\<lambda>_. Inr False), es, w')))"
  using assms by (cases "q @ bi_before i") (auto simp: event_bus_turn_def quiet_def split: prod.splits)

text \<open>
  C33. Events are handled exactly once and in the order of publication: while the replica runs and no event is published
  between the two looks at the channel, the outcome of any number of iterations of the event bus, panics of handlers
  included, is that of handling a prefix of all events (those waiting, then those published) one after the other, and
  the rest is still waiting. Each iteration handles a waiting event, so no event waits forever.
\<close>

lemma event_bus_in_order:
  assumes "\<forall>i \<in> set is. bi_shutdown i = TryEmpty \<and> bi_between i = [] \<and> bi_connected i"
  shows "\<exists>k. min (length is) (length q) \<le> k \<and>
    fst (event_bus_run h is (q, w)) = rbind (fst (fire_all h (take k (q @ concat (map bi_before is))) w)) (\<lambda>_. Inr False) \<and>
    snd (snd (event_bus_run h is (q, w))) = snd (fire_all h (take k (q @ concat (map bi_before is))) w) \<and>
    (fst (event_bus_run h is (q, w)) = Inr False \<longrightarrow>
       fst (snd (event_bus_run h is (q, w))) = drop k (q @ concat (map bi_before is)))"
  using assms
proof (induction "is" arbitrary: q w)
  case (Cons i "is")
  then have quiet: "quiet i" by (simp add: quiet_def)
  show ?case
  proof (cases "q @ bi_before i")
    case Nil
    with quiet have "event_bus_run h (i # is) (q, w) = event_bus_run h is ([], w)" by (simp add: quiet_turn pbind_def)
    moreover from Cons.IH [of "[]" w] Cons.prems obtain k where
      "fst (event_bus_run h is ([], w)) = rbind (fst (fire_all h (take k (concat (map bi_before is))) w)) (\<lambda>_. Inr False)"
      "snd (snd (event_bus_run h is ([], w))) = snd (fire_all h (take k (concat (map bi_before is))) w)"
      "fst (event_bus_run h is ([], w)) = Inr False \<longrightarrow> fst (snd (event_bus_run h is ([], w))) = drop k (concat (map bi_before is))"
      by auto
    ultimately show ?thesis using Nil by (intro exI [of _ k]) simp
  next
    case (Cons e es)
    obtain r w1 where f: "fire_handlers h e w = (r, w1)" by fastforce
    have all: "q @ concat (map bi_before (i # is)) = e # es @ concat (map bi_before is)" using Cons by (metis append.assoc append_Cons concat.simps(2) list.simps(9))
    have len: "length q \<le> Suc (length es)" using Cons by (metis length_append length_Cons le_add1)
    show ?thesis
    proof (cases r)
      case (Inl err)
      with f Cons quiet have "event_bus_run h (i # is) (q, w) = (Inl err, es, w1)" by (simp add: quiet_turn pbind_def)
      then show ?thesis unfolding all using Inl f len
        by (intro exI [of _ "Suc (length es)"]) (simp add: pthen_def pbind_def)
    next
      case (Inr u)
      with f Cons quiet have run: "event_bus_run h (i # is) (q, w) = event_bus_run h is (es, w1)" by (simp add: quiet_turn pbind_def)
      from Cons.IH [of es w1] Cons.prems obtain k where k: "min (length is) (length es) \<le> k"
        "fst (event_bus_run h is (es, w1)) = rbind (fst (fire_all h (take k (es @ concat (map bi_before is))) w1)) (\<lambda>_. Inr False)"
        "snd (snd (event_bus_run h is (es, w1))) = snd (fire_all h (take k (es @ concat (map bi_before is))) w1)"
        "fst (event_bus_run h is (es, w1)) = Inr False \<longrightarrow>
           fst (snd (event_bus_run h is (es, w1))) = drop k (es @ concat (map bi_before is))" by auto
      have "fire_all h (e # take k (es @ concat (map bi_before is))) w = fire_all h (take k (es @ concat (map bi_before is))) w1"
        using f Inr by (simp add: pthen_def pbind_def)
      then show ?thesis unfolding all run using k len by (intro exI [of _ "Suc k"]) simp
    qed
  qed
qed (simp add: pret_def exI [of _ 0])

text \<open>
  C40. An event can be lost: when the channel is empty at the first look and an event is published before the second, the
  second look takes the event from the channel and drops it. No handler runs, and the thread goes on with the events
  after it.
\<close>

lemma event_lost_in_gap:
  assumes "bi_shutdown i = TryEmpty" and "bi_before i = []" and "bi_between i = e # es"
  shows "event_bus_turn h i ([], w) = (Inr False, es, w)"
  using assms by (simp add: event_bus_turn_def)

end
