(* ===== verification/Replica.thy ===== *)
theory Replica
  imports Algorithm Event_Bus
begin

text \<open>
  A whole replica (\<^verbatim>\<open>replica.rs\<close>): its configuration, how \<^verbatim>\<open>ReplicaSpec::start\<close> puts the threads together, and
  how dropping the handle stops them. Proved here: initializing a store and starting on it gives a state
  from which all properties of the algorithm thread hold, events are published exactly when there is a
  thread to handle them, and dropping stops every thread, the poller last.
\<close>

section \<open>Configuration\<close>

record configuration =
  me :: signing_key
  cfg_chain_id :: chain_id
  block_sync_request_limit :: u32
  block_sync_server_advertise_time :: duration
  block_sync_response_timeout :: duration
  block_sync_blacklist_expiry_time :: duration
  block_sync_trigger_min_view_difference :: u64
  block_sync_trigger_timeout :: duration
  progress_msg_buffer_capacity :: buffer_size
  cfg_epoch_length :: epoch_length
  cfg_max_view_time :: duration
  log_events :: bool

text \<open>
  \<^verbatim>\<open>Configuration::into\<close>: the parts for HotStuff, the pacemaker and the block sync client are together in one
  record, with the capacity of the message buffer and whether there is an event publisher.
\<close>

definition configuration_into :: "configuration \<Rightarrow> bool \<Rightarrow> config" where
  "configuration_into c publisher = \<lparr>cf_chain_id = cfg_chain_id c, cf_keypair = me c, cf_epoch_length = cfg_epoch_length c,
     cf_max_view_time = cfg_max_view_time c, cf_request_limit = block_sync_request_limit c,
     cf_response_timeout = block_sync_response_timeout c, cf_blacklist_expiry_time = block_sync_blacklist_expiry_time c,
     cf_trigger_min_view_difference = block_sync_trigger_min_view_difference c, cf_trigger_timeout = block_sync_trigger_timeout c,
     cf_buffer_capacity = progress_msg_buffer_capacity c, cf_publisher = publisher\<rparr>"

section \<open>Starting\<close>

record ('a, 'w) replica =
  rp_init_validator_set :: validator_set
  rp_poller :: poller_channels
  rp_block_sync_server :: block_sync_server
  rp_algorithm :: "'a algorithm"
  rp_event_bus :: "'w event_handlers option"

definition replica_initialize :: "prims \<Rightarrow> app_state_updates \<Rightarrow> validator_set_state \<Rightarrow> kv_store \<Rightarrow> kv_store" where
  "replica_initialize P initial_app_state initial_validator_set_state kv_store =
     bt_initialize P initial_app_state initial_validator_set_state kv_store"

text \<open>
  \<^verbatim>\<open>ReplicaSpec::start\<close>, with the clock readings of the server, the pacemaker and the block sync client, and the log
  of effects of earlier lives of the replica.
\<close>

definition replica_start ::
  "prims \<Rightarrow> 'w log_env \<Rightarrow> configuration \<Rightarrow> 'w user_handlers \<Rightarrow> (nat \<Rightarrow> instant) \<Rightarrow> effect list \<Rightarrow> kv_store \<Rightarrow> 'a
     \<Rightarrow> ('a, 'w) replica res" where
  "replica_start P L c user now out s app =
     rbind (expect (kv_committed_validator_set P s)) (\<lambda>vs.
     let handlers = event_handlers_new L (log_events c) user;
         publisher = \<not> event_handlers_is_empty handlers;
         server = server_new (cfg_chain_id c) (me c) (block_sync_request_limit c) (block_sync_server_advertise_time c) (now 0) publisher in
     rbind (algorithm_new P (configuration_into c publisher) (now 1) (now 2) out s app) (\<lambda>algorithm.
     Inr \<lparr>rp_init_validator_set = vs,
          rp_poller = \<lparr>to_progress_msg_receiver = [], to_sync_request_receiver = [], to_sync_response_receiver = []\<rparr>,
          rp_block_sync_server = server, rp_algorithm = algorithm,
          rp_event_bus = (if \<not> event_handlers_is_empty handlers then Some handlers else None)\<rparr>))"

section \<open>Stopping\<close>

datatype thread = EventBusThread | AlgorithmThread | BlockSyncServerThread | PollerThread

text \<open>
  Shutting down one thread: the signal cannot be sent to a thread that has ended, and \<^verbatim>\<open>unwrap\<close> of that error panics.
  The threads that have been stopped are listed in the order they were joined in.
\<close>

definition stop_thread :: "(thread \<Rightarrow> bool) \<Rightarrow> thread \<Rightarrow> (thread list, fault, unit) proc" where
  "stop_thread ended t = (\<lambda>stopped. if ended t then (Inl (Panicked UnwrapOnErr), stopped) else (Inr (), stopped @ [t]))"

definition replica_drop :: "('a, 'w) replica \<Rightarrow> (thread \<Rightarrow> bool) \<Rightarrow> (thread list, fault, unit) proc" where
  "replica_drop r ended =
     pthen (pwhen (rp_event_bus r \<noteq> None) (stop_thread ended EventBusThread))
     (pthen (stop_thread ended AlgorithmThread)
     (pthen (stop_thread ended BlockSyncServerThread)
     (stop_thread ended PollerThread)))"

section \<open>The loops of the threads\<close>

text \<open>
  One iteration of the algorithm thread and of the server thread with the check of the shutdown signal; the result
  tells whether the thread returns.
\<close>

definition algorithm_turn :: "prims \<Rightarrow> 'a app_ops \<Rightarrow> sizes \<Rightarrow> unit try_recv_result \<Rightarrow> turn \<Rightarrow> ('a, bool) alg_handler" where
  "algorithm_turn P app S shutdown t = (case shutdown of
       TryOk _ \<Rightarrow> pret True
     | TryDisconnected \<Rightarrow> pfail (Panicked ExplicitPanic)
     | TryEmpty \<Rightarrow> pthen (execute_turn P app S t) (pret False))"

definition server_turn ::
  "prims \<Rightarrow> kv_store \<Rightarrow> (nat \<Rightarrow> instant) \<Rightarrow> unit try_recv_result \<Rightarrow> (verifying_key \<times> block_sync_request) try_recv_result
     \<Rightarrow> (block_sync_server, fault, bool) proc" where
  "server_turn P s now shutdown request = (case shutdown of
       TryOk _ \<Rightarrow> pret True
     | TryDisconnected \<Rightarrow> pfail (Panicked UnreachableReached)
     | TryEmpty \<Rightarrow>
         pthen (server_step P s now (case recv_request request of GotRequest origin r \<Rightarrow> Some (origin, r) | _ \<Rightarrow> None)) (pret False))"

section \<open>A started replica\<close>

lemma epoch_end_zero: "0 < len \<Longrightarrow> epoch_end len 0 = 0"
  by (simp add: epoch_end_def)

lemma algorithm_new_initialized:
  assumes "us_ok u" and "vs_ok (committed_vs vss)" and "vs_ok (previous_vs vss)"
    and "vs_keys_parse P (committed_vs vss)" and "vs_keys_parse P (previous_vs vss)" and "cf_epoch_length cf \<noteq> 0"
    and clock: "clock_in_range now1 (cf_epoch_length cf) (cf_max_view_time cf)"
  shows "\<exists>a. algorithm_new P cf now1 now2 out (bt_initialize P u vss Map.empty) x = Inr a"
proof -
  note reads = bt_initialize_gets [OF assms(1-5)]
  have hv: "bt_highest_view_with_progress P (bt_initialize P u vss Map.empty) = Inr 0"
    using reads by (simp add: bt_highest_view_with_progress_def view_init_def genesis_pc_def)
  have "epoch_end (unat (cf_epoch_length cf)) (unat (0 :: view_number)) < 2 ^ 64"
    using assms(6) epoch_end_zero [of "unat (cf_epoch_length cf)"] by (simp add: unat_gt_0)
  from pacemaker_new_ok [OF assms(6) this clock] obtain pk where
    "pacemaker_new now1 (cf_chain_id cf) (cf_keypair cf) (cf_epoch_length cf) (cf_max_view_time cf) 0 vss = Inr pk" by blast
  with hv reads show ?thesis by (simp add: algorithm_new_def initial_view_def expect_def)
qed

text \<open>
  Initializing and starting work together: on a store initialized with well-formed validator sets, and with a positive
  epoch length, \<^verbatim>\<open>ReplicaSpec::start\<close> succeeds. The network is told the committed validator set, the algorithm starts
  in a state that counts as reachable, so everything proved of reachable states holds of the replica, and the algorithm
  and the server publish events exactly if there is an event bus thread to take them, which is the case exactly if
  some handler is defined.
\<close>

lemma replica_start_reachable:
  assumes "us_ok u" and "vs_ok (committed_vs vss)" and "vs_ok (previous_vs vss)"
    and "vs_keys_parse P (committed_vs vss)" and "vs_keys_parse P (previous_vs vss)" and "cfg_epoch_length c \<noteq> 0"
    and clock: "clock_in_range (now 1) (cfg_epoch_length c) (cfg_max_view_time c)"
  shows "\<exists>r. replica_start P L c user now [] (replica_initialize P u vss Map.empty) x = Inr r \<and>
    rp_init_validator_set r = committed_vs vss \<and>
    reachable P app S (configuration_into c (rp_event_bus r \<noteq> None)) (rp_algorithm r) \<and>
    nd_publisher (al_node (rp_algorithm r)) = (rp_event_bus r \<noteq> None) \<and>
    sv_publisher (rp_block_sync_server r) = (rp_event_bus r \<noteq> None) \<and>
    (rp_event_bus r = None \<longleftrightarrow> event_handlers_is_empty (event_handlers_new L (log_events c) user))"
proof -
  let ?s = "bt_initialize P u vss Map.empty" and ?h = "event_handlers_new L (log_events c) user"
  let ?cf = "configuration_into c (\<not> event_handlers_is_empty ?h)"
  have vs: "kv_committed_validator_set P ?s = Inr (committed_vs vss)"
    using bt_initialize_gets [OF assms(1-5)] by (auto simp: kv_validator_set_state_def rbind_eq_Inr_iff)
  have "cf_epoch_length ?cf \<noteq> 0" "clock_in_range (now 1) (cf_epoch_length ?cf) (cf_max_view_time ?cf)"
    using assms(6) clock by (simp_all add: configuration_into_def)
  from algorithm_new_initialized [OF assms(1-5) this, of "now 2" "[]" x] obtain a where a: "algorithm_new P ?cf (now 1) (now 2) [] ?s x = Inr a" by blast
  moreover have "nd_publisher (al_node a) = (\<not> event_handlers_is_empty ?h)"
    using a by (auto simp: algorithm_new_def rbind_eq_Inr_iff configuration_into_def)
  ultimately show ?thesis using reachable.start [OF _ assms(1) a, of app S] assms(2-5) vs
    by (cases "event_handlers_is_empty ?h") (simp_all add: replica_start_def replica_initialize_def expect_def Let_def server_new_def vss_ok_def)
qed

lemma event_handlers_empty_iff:
  "event_handlers_is_empty (event_handlers_new L False no_user_handlers)" "\<not> event_handlers_is_empty (event_handlers_new L True user)"
  by (simp_all add: event_handlers_is_empty_def event_handlers_new_def handler_pair_is_empty_def handler_pair_new_def no_user_handlers_def)

text \<open>Dropping a replica whose threads are all alive stops all of them, the poller after the threads that receive from it.\<close>

lemma replica_drop_stops_all:
  "replica_drop r (\<lambda>_. False) [] =
     (Inr (), (if rp_event_bus r = None then [] else [EventBusThread]) @ [AlgorithmThread, BlockSyncServerThread, PollerThread])"
  by (simp add: replica_drop_def stop_thread_def pthen_def pbind_def pwhen_def pret_def)

text \<open>A thread that has panicked makes the drop panic too, and the threads after it are not stopped.\<close>

lemma replica_drop_after_panic:
  "rp_event_bus r = None \<Longrightarrow> ended AlgorithmThread \<Longrightarrow> replica_drop r ended [] = (Inl (Panicked UnwrapOnErr), [])"
  by (simp add: replica_drop_def stop_thread_def pthen_def pbind_def pwhen_def pret_def)

end
