(* ===== verification/Accessors.thy ===== *)
theory Accessors
  imports Block_Tree
begin

text \<open>
  The accessors of the block tree: the handle of the algorithm thread (\<^verbatim>\<open>block_tree/accessors/internal.rs\<close>), whose state is
  the key-value store itself, the snapshots that the camera takes for users and for the sync server
  (\<^verbatim>\<open>accessors/public.rs\<close>), and the view for applications (\<^verbatim>\<open>accessors/app.rs\<close>). A locale states what every
  one of them promises on blocks, and a block that any of them returns is consistent with what the
  single getters of any of them return.
\<close>

section \<open>The handle of the algorithm thread\<close>

definition bt_block :: "prims \<Rightarrow> kv_store \<Rightarrow> crypto_hash \<Rightarrow> block option res" where
  "bt_block P s b = kv_block P s b"

definition bt_block_height :: "prims \<Rightarrow> kv_store \<Rightarrow> crypto_hash \<Rightarrow> block_height option res" where
  "bt_block_height P s b = kv_block_height P s b"

definition bt_block_data_hash :: "prims \<Rightarrow> kv_store \<Rightarrow> crypto_hash \<Rightarrow> crypto_hash option res" where
  "bt_block_data_hash P s b = kv_block_data_hash P s b"

definition bt_block_justify :: "prims \<Rightarrow> kv_store \<Rightarrow> crypto_hash \<Rightarrow> phase_certificate res" where
  "bt_block_justify P s b = kv_block_justify P s b"

definition bt_block_data_len :: "prims \<Rightarrow> kv_store \<Rightarrow> crypto_hash \<Rightarrow> u32 option res" where
  "bt_block_data_len P s b = kv_block_data_len P s b"

definition bt_block_data :: "prims \<Rightarrow> kv_store \<Rightarrow> crypto_hash \<Rightarrow> data option res" where
  "bt_block_data P s b = kv_block_data P s b"

definition bt_block_datum :: "prims \<Rightarrow> kv_store \<Rightarrow> crypto_hash \<Rightarrow> u32 \<Rightarrow> datum option" where
  "bt_block_datum P s b i = kv_block_datum P s b i"

definition bt_block_at_height :: "prims \<Rightarrow> kv_store \<Rightarrow> block_height \<Rightarrow> crypto_hash option res" where
  "bt_block_at_height P s height = kv_block_at_height P s height"

definition bt_children :: "prims \<Rightarrow> kv_store \<Rightarrow> crypto_hash \<Rightarrow> children_list res" where
  "bt_children P s b = kv_children P s b"

definition bt_committed_app_state :: "prims \<Rightarrow> kv_store \<Rightarrow> u8 list \<Rightarrow> u8 list option" where
  "bt_committed_app_state P s k = kv_committed_app_state P s k"

definition bt_pending_app_state_updates :: "prims \<Rightarrow> kv_store \<Rightarrow> crypto_hash \<Rightarrow> app_state_updates option res" where
  "bt_pending_app_state_updates P s b = kv_pending_app_state_updates P s b"

definition bt_committed_validator_set :: "prims \<Rightarrow> kv_store \<Rightarrow> validator_set res" where
  "bt_committed_validator_set P s = kv_committed_validator_set P s"

definition bt_validator_set_updates_status :: "prims \<Rightarrow> kv_store \<Rightarrow> crypto_hash \<Rightarrow> vsu_status res" where
  "bt_validator_set_updates_status P s b = kv_validator_set_updates_status P s b"

definition bt_locked_pc :: "prims \<Rightarrow> kv_store \<Rightarrow> phase_certificate res" where
  "bt_locked_pc P s = kv_locked_pc P s"

definition bt_highest_view_entered :: "prims \<Rightarrow> kv_store \<Rightarrow> view_number res" where
  "bt_highest_view_entered P s = kv_highest_view_entered P s"

definition bt_highest_pc :: "prims \<Rightarrow> kv_store \<Rightarrow> phase_certificate res" where
  "bt_highest_pc P s = kv_highest_pc P s"

definition bt_highest_committed_block :: "prims \<Rightarrow> kv_store \<Rightarrow> crypto_hash option res" where
  "bt_highest_committed_block P s = kv_highest_committed_block P s"

definition bt_highest_tc :: "prims \<Rightarrow> kv_store \<Rightarrow> timeout_certificate option res" where
  "bt_highest_tc P s = kv_highest_tc P s"

definition bt_validator_set_state :: "prims \<Rightarrow> kv_store \<Rightarrow> validator_set_state res" where
  "bt_validator_set_state P s = kv_validator_set_state P s"

definition bt_highest_view_voted :: "prims \<Rightarrow> kv_store \<Rightarrow> view_number option res" where
  "bt_highest_view_voted P s = kv_highest_view_phase_voted P s"

section \<open>Snapshots\<close>

record block_tree_snapshot =
  bts_kv :: kv_store

record block_tree_camera =
  btc_kv :: kv_store

text \<open>\<^verbatim>\<open>KVStore::snapshot\<close> yields the store as it is at the time of the call.\<close>

definition camera_snapshot :: "block_tree_camera \<Rightarrow> block_tree_snapshot" where
  "camera_snapshot c = \<lparr>bts_kv = btc_kv c\<rparr>"

definition bt_snapshot :: "kv_store \<Rightarrow> block_tree_snapshot" where
  "bt_snapshot s = \<lparr>bts_kv = s\<rparr>"

definition snap_block :: "prims \<Rightarrow> block_tree_snapshot \<Rightarrow> crypto_hash \<Rightarrow> block option res" where
  "snap_block P t b = kv_block P (bts_kv t) b"

definition snap_block_height :: "prims \<Rightarrow> block_tree_snapshot \<Rightarrow> crypto_hash \<Rightarrow> block_height option res" where
  "snap_block_height P t b = kv_block_height P (bts_kv t) b"

definition snap_block_data_hash :: "prims \<Rightarrow> block_tree_snapshot \<Rightarrow> crypto_hash \<Rightarrow> crypto_hash option res" where
  "snap_block_data_hash P t b = kv_block_data_hash P (bts_kv t) b"

definition snap_block_justify :: "prims \<Rightarrow> block_tree_snapshot \<Rightarrow> crypto_hash \<Rightarrow> phase_certificate res" where
  "snap_block_justify P t b = kv_block_justify P (bts_kv t) b"

definition snap_block_data_len :: "prims \<Rightarrow> block_tree_snapshot \<Rightarrow> crypto_hash \<Rightarrow> u32 option res" where
  "snap_block_data_len P t b = kv_block_data_len P (bts_kv t) b"

definition snap_block_data :: "prims \<Rightarrow> block_tree_snapshot \<Rightarrow> crypto_hash \<Rightarrow> data option res" where
  "snap_block_data P t b = kv_block_data P (bts_kv t) b"

definition snap_block_datum :: "prims \<Rightarrow> block_tree_snapshot \<Rightarrow> crypto_hash \<Rightarrow> u32 \<Rightarrow> datum option" where
  "snap_block_datum P t b i = kv_block_datum P (bts_kv t) b i"

definition snap_block_at_height :: "prims \<Rightarrow> block_tree_snapshot \<Rightarrow> block_height \<Rightarrow> crypto_hash option res" where
  "snap_block_at_height P t height = kv_block_at_height P (bts_kv t) height"

definition snap_children :: "prims \<Rightarrow> block_tree_snapshot \<Rightarrow> crypto_hash \<Rightarrow> children_list res" where
  "snap_children P t b = kv_children P (bts_kv t) b"

definition snap_committed_app_state :: "prims \<Rightarrow> block_tree_snapshot \<Rightarrow> u8 list \<Rightarrow> u8 list option" where
  "snap_committed_app_state P t k = kv_committed_app_state P (bts_kv t) k"

definition snap_pending_app_state_updates :: "prims \<Rightarrow> block_tree_snapshot \<Rightarrow> crypto_hash \<Rightarrow> app_state_updates option res" where
  "snap_pending_app_state_updates P t b = kv_pending_app_state_updates P (bts_kv t) b"

definition snap_committed_validator_set :: "prims \<Rightarrow> block_tree_snapshot \<Rightarrow> validator_set res" where
  "snap_committed_validator_set P t = kv_committed_validator_set P (bts_kv t)"

definition snap_validator_set_updates_status :: "prims \<Rightarrow> block_tree_snapshot \<Rightarrow> crypto_hash \<Rightarrow> vsu_status res" where
  "snap_validator_set_updates_status P t b = kv_validator_set_updates_status P (bts_kv t) b"

definition snap_locked_pc :: "prims \<Rightarrow> block_tree_snapshot \<Rightarrow> phase_certificate res" where
  "snap_locked_pc P t = kv_locked_pc P (bts_kv t)"

definition snap_highest_view_entered :: "prims \<Rightarrow> block_tree_snapshot \<Rightarrow> view_number res" where
  "snap_highest_view_entered P t = kv_highest_view_entered P (bts_kv t)"

definition snap_highest_pc :: "prims \<Rightarrow> block_tree_snapshot \<Rightarrow> phase_certificate res" where
  "snap_highest_pc P t = kv_highest_pc P (bts_kv t)"

definition snap_highest_committed_block :: "prims \<Rightarrow> block_tree_snapshot \<Rightarrow> crypto_hash option res" where
  "snap_highest_committed_block P t = kv_highest_committed_block P (bts_kv t)"

definition snap_newest_block :: "prims \<Rightarrow> block_tree_snapshot \<Rightarrow> crypto_hash option res" where
  "snap_newest_block P t = kv_newest_block P (bts_kv t)"

definition snap_highest_tc :: "prims \<Rightarrow> block_tree_snapshot \<Rightarrow> timeout_certificate option res" where
  "snap_highest_tc P t = kv_highest_tc P (bts_kv t)"

definition snap_previous_validator_set :: "prims \<Rightarrow> block_tree_snapshot \<Rightarrow> validator_set res" where
  "snap_previous_validator_set P t = kv_previous_validator_set P (bts_kv t)"

definition snap_validator_set_update_block_height :: "prims \<Rightarrow> block_tree_snapshot \<Rightarrow> block_height option res" where
  "snap_validator_set_update_block_height P t = kv_validator_set_update_block_height P (bts_kv t)"

definition snap_validator_set_update_complete :: "prims \<Rightarrow> block_tree_snapshot \<Rightarrow> bool res" where
  "snap_validator_set_update_complete P t = kv_validator_set_update_complete P (bts_kv t)"

definition snap_validator_set_state :: "prims \<Rightarrow> block_tree_snapshot \<Rightarrow> validator_set_state res" where
  "snap_validator_set_state P t = kv_validator_set_state P (bts_kv t)"

definition snap_highest_view_voted :: "prims \<Rightarrow> block_tree_snapshot \<Rightarrow> view_number option res" where
  "snap_highest_view_voted P t = kv_highest_view_phase_voted P (bts_kv t)"

definition snap_highest_committed_block_height :: "prims \<Rightarrow> block_tree_snapshot \<Rightarrow> block_height option res" where
  "snap_highest_committed_block_height P t =
     rbind (snap_highest_committed_block P t) (\<lambda>highest_committed_block. case highest_committed_block of
         Some block \<Rightarrow> snap_block_height P t block
       | None \<Rightarrow> Inr None)"

section \<open>The view for applications\<close>

definition abv_block :: "prims \<Rightarrow> app_block_tree_view \<Rightarrow> crypto_hash \<Rightarrow> block option res" where
  "abv_block P v b = bt_block P (abv_block_tree v) b"

definition abv_block_height :: "prims \<Rightarrow> app_block_tree_view \<Rightarrow> crypto_hash \<Rightarrow> block_height option res" where
  "abv_block_height P v b = bt_block_height P (abv_block_tree v) b"

definition abv_block_justify :: "prims \<Rightarrow> app_block_tree_view \<Rightarrow> crypto_hash \<Rightarrow> phase_certificate res" where
  "abv_block_justify P v b = bt_block_justify P (abv_block_tree v) b"

definition abv_block_data_hash :: "prims \<Rightarrow> app_block_tree_view \<Rightarrow> crypto_hash \<Rightarrow> crypto_hash option res" where
  "abv_block_data_hash P v b = bt_block_data_hash P (abv_block_tree v) b"

definition abv_block_data_len :: "prims \<Rightarrow> app_block_tree_view \<Rightarrow> crypto_hash \<Rightarrow> u32 option res" where
  "abv_block_data_len P v b = bt_block_data_len P (abv_block_tree v) b"

definition abv_block_data :: "prims \<Rightarrow> app_block_tree_view \<Rightarrow> crypto_hash \<Rightarrow> data option res" where
  "abv_block_data P v b = bt_block_data P (abv_block_tree v) b"

definition abv_block_datum :: "prims \<Rightarrow> app_block_tree_view \<Rightarrow> crypto_hash \<Rightarrow> u32 \<Rightarrow> datum option" where
  "abv_block_datum P v b i = bt_block_datum P (abv_block_tree v) b i"

definition abv_block_at_height :: "prims \<Rightarrow> app_block_tree_view \<Rightarrow> block_height \<Rightarrow> crypto_hash option res" where
  "abv_block_at_height P v height = bt_block_at_height P (abv_block_tree v) height"

definition abv_validator_set :: "prims \<Rightarrow> app_block_tree_view \<Rightarrow> validator_set res" where
  "abv_validator_set P v = bt_committed_validator_set P (abv_block_tree v)"

section \<open>What all of them promise\<close>

text \<open>
  The contract of an accessor of type \<open>'t\<close>: a block is assembled from the single getters, it is found if it has a height, and only
  then.
\<close>

locale block_reader =
  fixes rd_block :: "'t \<Rightarrow> crypto_hash \<Rightarrow> block option res" and rd_height :: "'t \<Rightarrow> crypto_hash \<Rightarrow> block_height option res"
    and rd_justify :: "'t \<Rightarrow> crypto_hash \<Rightarrow> phase_certificate res" and rd_data_hash :: "'t \<Rightarrow> crypto_hash \<Rightarrow> crypto_hash option res"
    and rd_data :: "'t \<Rightarrow> crypto_hash \<Rightarrow> data option res"
  assumes absent: "rd_height t b = Inr None \<Longrightarrow> rd_block t b = Inr None"
    and assembled: "rd_block t b = Inr (Some blk) \<Longrightarrow> b_hash blk = b \<and> rd_height t b = Inr (Some (b_height blk)) \<and>
      rd_justify t b = Inr (b_justify blk) \<and> rd_data_hash t b = Inr (Some (b_data_hash blk)) \<and> rd_data t b = Inr (Some (b_data blk))"
    and complete: "rd_height t b = Inr (Some h) \<Longrightarrow> rd_justify t b = Inr j \<Longrightarrow> rd_data_hash t b = Inr (Some d) \<Longrightarrow>
      rd_data t b = Inr (Some xs) \<Longrightarrow> rd_block t b \<noteq> Inr None"
begin

lemma found_iff:
  assumes "rd_height t b = Inr hb" and "rd_justify t b = Inr j" and "rd_data_hash t b = Inr (Some d)" and "rd_data t b = Inr (Some xs)"
    and "rd_block t b = Inr x"
  shows "x = None \<longleftrightarrow> hb = None"
  using absent [of t b] complete [OF _ assms(2-4)] assms(1,5) by (cases hb) auto

lemma same_block:
  assumes "rd_block t b = Inr (Some blk)" and "rd_block t b' = Inr (Some blk)"
  shows "b = b'"
  using assembled [OF assms(1)] assembled [OF assms(2)] by simp

end

lemma kv_block_contract:
  "kv_block_height P s b = Inr None \<Longrightarrow> kv_block P s b = Inr None"
  "kv_block P s b = Inr (Some blk) \<Longrightarrow> b_hash blk = b \<and> kv_block_height P s b = Inr (Some (b_height blk)) \<and>
     kv_block_justify P s b = Inr (b_justify blk) \<and> kv_block_data_hash P s b = Inr (Some (b_data_hash blk)) \<and>
     kv_block_data P s b = Inr (Some (b_data blk))"
  "kv_block_height P s b = Inr (Some h) \<Longrightarrow> kv_block_justify P s b = Inr j \<Longrightarrow> kv_block_data_hash P s b = Inr (Some d) \<Longrightarrow>
     kv_block_data P s b = Inr (Some xs) \<Longrightarrow> kv_block P s b \<noteq> Inr None"
  by (auto simp: kv_block_def rbind_eq_Inr_iff ok_or_def split: option.splits)

lemmas accessor_defs = bt_block_def bt_block_height_def bt_block_justify_def bt_block_data_hash_def bt_block_data_def
  snap_block_def snap_block_height_def snap_block_justify_def snap_block_data_hash_def snap_block_data_def
  abv_block_def abv_block_height_def abv_block_justify_def abv_block_data_hash_def abv_block_data_def

interpretation tree_reader: block_reader "bt_block P" "bt_block_height P" "bt_block_justify P" "bt_block_data_hash P" "bt_block_data P" for P
  by unfold_locales (simp_all add: accessor_defs kv_block_contract)

interpretation snapshot_reader: block_reader "snap_block P" "snap_block_height P" "snap_block_justify P" "snap_block_data_hash P" "snap_block_data P" for P
  by unfold_locales (simp_all add: accessor_defs kv_block_contract)

interpretation view_reader: block_reader "abv_block P" "abv_block_height P" "abv_block_justify P" "abv_block_data_hash P" "abv_block_data P" for P
  by unfold_locales (simp_all add: accessor_defs kv_block_contract)

end
