(* ===== verification/App_View.thy ===== *)
theory App_View
  imports Accessors
begin

text \<open>
  What applications see while the replica commits. Committing deletes the branches that fork off the committed chain;
  on a tree whose children lists agree with the justify links it never deletes a block of the branch it
  commits, and the app state shown for a block does not depend on how much of its branch has been committed.
\<close>

section \<open>Links of the tree\<close>

definition parent_link :: "prims \<Rightarrow> kv_store \<Rightarrow> crypto_hash \<Rightarrow> crypto_hash \<Rightarrow> bool" where
  "parent_link P s x y \<longleftrightarrow> (\<exists>j. kv_block_justify P s x = Inr j \<and> pc_block j = y)"

text \<open>
  The links of a tree: heights fall along them, a block is listed as a child only of the block its justify is for, and
  nothing is stored under the hash that stands for the genesis block.
\<close>

definition tree_wf :: "prims \<Rightarrow> kv_store \<Rightarrow> bool" where
  "tree_wf P s \<longleftrightarrow> chain_wf P s \<and> (\<forall>y. \<not> parent_link P s (pc_block genesis_pc) y) \<and>
     (\<forall>p cs r. kv_children P s p = Inr cs \<longrightarrow> r \<in> set cs \<longrightarrow> parent_link P s r p)"

lemma chain_next_link: "chain_next P s x = Some y \<Longrightarrow> parent_link P s x y"
  by (auto simp: chain_next_def parent_link_def res_ok_def split: sum.splits if_splits)

lemma parent_link_fun: "parent_link P s x y \<Longrightarrow> parent_link P s x z \<Longrightarrow> y = z"
  by (auto simp: parent_link_def)

lemma parent_link_cases:
  assumes "tree_wf P s" and "parent_link P s x y"
  obtains "y = pc_block genesis_pc" "\<And>z. \<not> parent_link P s y z" | hx hy where
    "kv_block_height P s x = Inr (Some hx)" "kv_block_height P s y = Inr (Some hy)" "hy < hx"
proof -
  from assms(2) obtain j where j: "kv_block_justify P s x = Inr j" "pc_block j = y" by (auto simp: parent_link_def)
  show thesis
  proof (cases "is_genesis_pc j")
    case True
    with j assms(1) show thesis by (intro that(1)) (auto simp: is_genesis_pc_def tree_wf_def)
  next
    case False
    with j have "chain_next P s x = Some y" by (simp add: chain_next_def)
    with assms(1) show thesis unfolding tree_wf_def chain_wf_def by (metis that(2))
  qed
qed

lemma links_fall:
  assumes "tree_wf P s" and "(parent_link P s)\<^sup>*\<^sup>* p e" and "parent_link P s e q"
  shows "p = e \<or> (\<exists>hp he. kv_block_height P s p = Inr (Some hp) \<and> kv_block_height P s e = Inr (Some he) \<and> he < hp)"
  using assms(2)
proof (induction rule: converse_rtranclp_induct)
  case (step p z)
  from step.hyps(2) have stop: "(\<And>y. \<not> parent_link P s z y) \<Longrightarrow> False"
    using assms(3) by (auto elim: converse_rtranclpE)
  from assms(1) step.hyps(1) show ?case
  proof (cases rule: parent_link_cases)
    case (2 hp hz)
    with step.IH show ?thesis by (auto intro: less_trans)
  qed (use stop in blast)
qed simp

lemma links_acyclic:
  assumes "tree_wf P s" and "(parent_link P s)\<^sup>*\<^sup>* p e" and "parent_link P s e p"
  shows False
  using assms(1,3)
proof (cases rule: parent_link_cases)
  case 1
  from assms(2) show False
  proof (cases rule: converse_rtranclpE)
    case base
    with 1(2) assms(3) show False by blast
  next
    case (step z)
    with 1(2) show False by blast
  qed
next
  case (2 he hp)
  from links_fall [OF assms] show False
  proof (elim disjE exE conjE)
    assume "p = e"
    with 2 show False by simp
  next
    fix hp' he' assume "kv_block_height P s p = Inr (Some hp')" "kv_block_height P s e = Inr (Some he')" "he' < hp'"
    with 2 show False by simp
  qed
qed

lemma links_linear:
  assumes "(parent_link P s)\<^sup>*\<^sup>* x a" and "(parent_link P s)\<^sup>*\<^sup>* x b"
  shows "(parent_link P s)\<^sup>*\<^sup>* a b \<or> (parent_link P s)\<^sup>*\<^sup>* b a"
  using assms
proof (induction rule: converse_rtranclp_induct)
  case (step x z)
  show ?case
  proof (cases "x = b")
    case True
    with step.hyps show ?thesis by (meson converse_rtranclp_into_rtranclp)
  next
    case False
    with step.prems obtain z' where "parent_link P s x z'" "(parent_link P s)\<^sup>*\<^sup>* z' b" by (auto elim: converse_rtranclpE)
    with step.hyps(1) step.IH show ?thesis by (auto dest: parent_link_fun)
  qed
qed simp

text \<open>An initialized tree is one, and inserting a new block keeps it one.\<close>

lemma bt_initialize_tree_wf: "tree_wf P (bt_initialize P u vss Map.empty)"
proof -
  let ?w = "wb_apply_app_state_updates P u wb_new"
  have old: "kv_write ?w Map.empty (path_bytes P p) = None" if "\<And>k. p \<noteq> PAppState k" for p
    using wb_apply_app_state_updates_frame [OF that] by (simp add: store_simps)
  have "bt_initialize P u vss Map.empty (path_bytes P p) = None" if "of_block p \<noteq> None" "\<not> is_datum p" for p
    using that by (cases p; cases "vss_update_height vss") (simp_all add: bt_initialize_def Let_def wb_setter_defs store_simps old)
  then have "kv_block_justify P (bt_initialize P u vss Map.empty) x \<noteq> Inr j" "kv_children P (bt_initialize P u vss Map.empty) x \<noteq> Inr cs" for x j cs
    by (simp_all add: kv_block_justify_def kv_children_def kv_get_req_def ok_or_def)
  then show ?thesis by (auto simp: tree_wf_def chain_wf_def chain_next_def parent_link_def res_ok_def split: sum.splits)
qed

lemma bt_insert_children:
  "kv_children P (bt_insert P b au vu s) x =
     (if x = pc_block (b_justify b) then Inr ((case kv_children P s x of Inr cs \<Rightarrow> cs | Inl _ \<Rightarrow> []) @ [b_hash b]) else kv_children P s x)"
  by (auto simp: kv_children_def kv_get_req_def bt_insert_path set_block_frame store_simps)

lemma bt_insert_keeps_tree_wf:
  assumes "tree_wf P s" and new: "kv_block_height P s (b_hash b) = Inr None" "\<And>j. kv_block_justify P s (b_hash b) \<noteq> Inr j"
    and "b_hash b \<noteq> pc_block genesis_pc"
    and "is_genesis_pc (b_justify b) \<or> (\<exists>hp. kv_block_height P s (pc_block (b_justify b)) = Inr (Some hp) \<and> hp < b_height b)"
  shows "tree_wf P (bt_insert P b au vu s)"
proof -
  have "chain_wf P (bt_insert P b au vu s)"
    using insert_chain_wf [OF _ new(1) assms(5)] assms(1) by (simp add: tree_wf_def)
  moreover have link: "parent_link P (bt_insert P b au vu s) x y = (if x = b_hash b then y = pc_block (b_justify b) else parent_link P s x y)" for x y
    by (auto simp: parent_link_def bt_insert_justify)
  have "\<not> parent_link P s (b_hash b) y" for y using new(2) by (auto simp: parent_link_def)
  then have "r \<noteq> b_hash b \<and> parent_link P s r p" if "kv_children P s p = Inr cs" "r \<in> set cs" for p cs r
    using assms(1) that unfolding tree_wf_def by metis
  then have "parent_link P (bt_insert P b au vu s) r p" if "kv_children P (bt_insert P b au vu s) p = Inr cs" "r \<in> set cs" for p cs r
    using that by (auto simp: link bt_insert_children split: if_splits sum.splits)
  ultimately show ?thesis using assms(1,4) by (auto simp: tree_wf_def link)
qed

text \<open>A branch contains only descendants of its root, so none of the blocks on a branch through a sibling of the root.\<close>

lemma branch_descendants:
  assumes "tree_wf P s"
  shows "branch_loop P s stack = Some bs \<Longrightarrow> y \<in> set bs \<Longrightarrow> \<exists>r \<in> set stack. (parent_link P s)\<^sup>*\<^sup>* y r"
proof (induction bs arbitrary: stack)
  case (Cons b bs)
  from Cons.prems(1) obtain rest where stack: "stack = b # rest"
    and loop: "branch_loop P s (rev (case kv_children P s b of Inr cs \<Rightarrow> cs | Inl _ \<Rightarrow> []) @ rest) = Some bs"
    by (subst (asm) branch_loop.simps) (auto simp: bind_eq_Some_conv split: list.splits)
  show ?case
  proof (cases "y = b")
    case False
    with Cons.prems(2) Cons.IH [OF loop] obtain r where
      r: "r \<in> set (case kv_children P s b of Inr cs \<Rightarrow> cs | Inl _ \<Rightarrow> []) \<union> set rest" "(parent_link P s)\<^sup>*\<^sup>* y r" by auto
    from assms r(1) have "parent_link P s r b \<or> r \<in> set rest" by (cases "kv_children P s b") (auto simp: tree_wf_def)
    with r(2) show ?thesis by (auto simp: stack intro: rtranclp.rtrancl_into_rtrancl)
  qed (auto simp: stack)
qed simp

lemma sibling_branch:
  assumes "tree_wf P s" and "(parent_link P s)\<^sup>*\<^sup>* x e" and "parent_link P s e p" and "parent_link P s r p" and "r \<noteq> e"
    and "blocks_in_branch P s r = Some bs"
  shows "x \<notin> set bs"
proof
  assume "x \<in> set bs"
  with branch_descendants [OF assms(1)] assms(6) have x: "(parent_link P s)\<^sup>*\<^sup>* x r" by (fastforce simp: blocks_in_branch_def)
  have "False" if "(parent_link P s)\<^sup>*\<^sup>* a b" "parent_link P s a p" "parent_link P s b p" "a \<noteq> b" for a b
  proof -
    from that(1,4) obtain z where "parent_link P s a z" "(parent_link P s)\<^sup>*\<^sup>* z b" by (auto elim: converse_rtranclpE)
    with that(2,3) links_acyclic [OF assms(1)] parent_link_fun show False by metis
  qed
  with links_linear [OF assms(2) x] assms(3-5) show False by blast
qed

section \<open>What a commit keeps of the branch it commits\<close>

fun branch_path :: "kv_path \<Rightarrow> bool" where
  "branch_path (PBlockHeight _) = True" | "branch_path (PBlockJustify _) = True" | "branch_path (PPendingAppState _) = True"
| "branch_path _ = False"

lemma branch_path_simps:
  "branch_path p \<Longrightarrow> \<not> is_datum p" "branch_path p \<Longrightarrow> p \<noteq> PAppState k" "branch_path p \<Longrightarrow> p \<noteq> PBlockAtHeight h"
  "branch_path p \<Longrightarrow> p \<noteq> PChildren y" "branch_path p \<Longrightarrow> p \<noteq> PStatus y" "branch_path p \<Longrightarrow> p \<noteq> PCommittedValidatorSet"
  "branch_path p \<Longrightarrow> p \<noteq> PPreviousValidatorSet" "branch_path p \<Longrightarrow> p \<noteq> PUpdateHeight" "branch_path p \<Longrightarrow> p \<noteq> PUpdateDecided"
  "branch_path p \<Longrightarrow> p \<noteq> PHighestCommittedBlock"
  by (auto elim: branch_path.elims)

lemma delete_siblings_branch:
  assumes "tree_wf P s" and "delete_siblings P s e wb = Inr wb'" and "branch_path p" and "of_block p = Some x"
    and "(parent_link P s)\<^sup>*\<^sup>* x e"
  shows "wb_frame P p wb wb'"
proof -
  from assms(2) obtain pc cs wb1 where pc: "kv_block_justify P s e = Inr pc" and cs: "kv_children P s (pc_block pc) = Inr cs"
    and r: "rfold (delete_branch P s) (filter (\<lambda>sib. sib \<noteq> e) cs) wb = Inr wb1" "wb_set_children P (pc_block pc) [e] wb1 = wb'"
    by (auto simp: delete_siblings_def rbind_eq_Inr_iff Let_def)
  have "wb_frame P p a a'" if "sib \<in> set cs" "sib \<noteq> e" "delete_branch P s sib a = Inr a'" for sib a a'
  proof (rule delete_branch_frame [OF that(3) branch_path_simps(1) [OF assms(3)]])
    fix bs y assume bs: "blocks_in_branch P s sib = Some bs" and y: "of_block p = Some y"
    have "parent_link P s e (pc_block pc)" "parent_link P s sib (pc_block pc)"
      using assms(1) pc cs that(1) by (auto simp: parent_link_def [of _ _ e] tree_wf_def)
    from sibling_branch [OF assms(1,5) this that(2) bs] y assms(4) show "y \<notin> set bs" by simp
  qed
  then have "wb_frame P p wb wb1"
    by (intro rfold_invariant [OF r(1), of "wb_frame P p wb"]) (auto intro: wb_frame_trans)
  then show ?thesis
    using branch_path_simps(1,4) [OF assms(3)] by (auto simp: wb_set_children_def intro!: wb_frame_set simp flip: r(2))
qed

lemma commit_block_branch:
  assumes "tree_wf P s" and "commit_block P s block e (cb, wb) = Inr (cb', wb')" and "branch_path p" and "of_block p = Some x"
    and "(parent_link P s)\<^sup>*\<^sup>* x e" and "p \<noteq> PPendingAppState e"
  shows "wb_frame P p wb wb'"
  using assms(2)
proof (cases rule: commit_block_cases)
  case (1 h wb1 pending status wb2 wb3)
  note p = branch_path_simps [OF assms(3)]
  have "wb_frame P p wb (wb_set_block_at_height P h e wb)" using p(3) by (intro wb_frame_block_at_height wb_frame_refl) auto
  then have "wb_frame P p wb wb1" using delete_siblings_branch [OF assms(1) 1(2) assms(3-5)] wb_frame_trans by blast
  then have "wb_frame P p wb wb2"
    using p(1,2) assms(6) by (auto simp: 1(5) wb_setter_defs intro!: wb_frame_intros split: option.splits)
  then have "wb_frame P p wb wb3"
    using 1(7,8) p by (cases status) (auto simp: wb_setter_defs intro!: wb_frame_intros)
  then show ?thesis using p by (auto simp: 1(6) wb_setter_defs intro!: wb_frame_intros)
qed

lemma commit_branch:
  assumes "tree_wf P s" and "rfold (commit_block P s block) es (cb, wb) = Inr (cb', wb')" and "branch_path p" and "of_block p = Some x"
    and "\<And>e. e \<in> set es \<Longrightarrow> (parent_link P s)\<^sup>*\<^sup>* x e \<and> p \<noteq> PPendingAppState e"
  shows "wb_frame P p wb wb'"
proof -
  have "(\<lambda>(_, w). wb_frame P p wb w) (cb', wb')"
    by (rule rfold_invariant [OF assms(2)])
       (use assms(5) commit_block_branch [OF assms(1) _ assms(3,4)] in \<open>force split: prod.splits intro: wb_frame_trans\<close>)+
  then show ?thesis by simp
qed

section \<open>The view of a branch that is partly committed\<close>

abbreviation chain_path :: "prims \<Rightarrow> kv_store \<Rightarrow> crypto_hash \<Rightarrow> crypto_hash \<Rightarrow> bool" where
  "chain_path P s \<equiv> (\<lambda>x y. chain_next P s x = Some y)\<^sup>*\<^sup>*"

lemma chain_path_links: "chain_path P s x y \<Longrightarrow> (parent_link P s)\<^sup>*\<^sup>* x y"
  by (induction rule: rtranclp_induct) (auto intro: rtranclp.rtrancl_into_rtrancl chain_next_link)

lemma chain_path_heights:
  assumes "chain_wf P s" and "chain_path P s x y" and "kv_block_height P s y = Inr (Some hy)"
  shows "\<exists>hx. kv_block_height P s x = Inr (Some hx) \<and> hy \<le> hx"
  using assms(2)
proof (induction rule: converse_rtranclp_induct)
  case (step x z)
  from step.IH obtain hz where hz: "kv_block_height P s z = Inr (Some hz)" "hy \<le> hz" by blast
  from assms(1) step.hyps(1) obtain hx hz' where "kv_block_height P s x = Inr (Some hx)" "kv_block_height P s z = Inr (Some hz')" "hz' < hx"
    unfolding chain_wf_def by blast
  with hz show ?case by auto
qed (use assms(3) in simp)

lemma uncommitted_path:
  assumes "uncommitted_loop P s mh c = Some (Inr l)" and "e \<in> set l"
  shows "chain_path P s c e"
  using assms
proof (induction l arbitrary: c)
  case (Cons y l)
  from uncommitted_loop_unfold [OF Cons.prems(1)] have y: "y = c" by auto
  show ?case
  proof (cases "e = y")
    case False
    with Cons.prems(2) have e: "e \<in> set l" by simp
    with uncommitted_loop_unfold [OF Cons.prems(1)] obtain p where
      "chain_next P s c = Some p" "uncommitted_loop P s mh p = Some (Inr l)" by auto
    with Cons.IH e show ?thesis by (meson converse_rtranclp_into_rtranclp)
  qed (simp add: y)
qed simp

text \<open>Walks in two stores that agree on the blocks of a branch, of which the second has committed the blocks up to \<open>c\<close>.\<close>

lemma walks_split:
  assumes "chain_wf P s" and lc: "uncommitted_loop P s mh c = Some (Inr lc)" "lc \<noteq> []" and hc: "kv_block_height P s c = Inr (Some hc)"
    and same: "\<And>x. chain_path P s x c \<Longrightarrow> kv_block_height P t x = kv_block_height P s x \<and> chain_next P t x = chain_next P s x"
    and "chain_path P s b c"
  shows "\<exists>l. uncommitted_loop P s mh b = Some (Inr (l @ lc)) \<and> app_view_loop P t (Some hc) (Some b) (Some b) = Some l \<and>
    (\<forall>x \<in> set l. chain_path P s x c \<and> (\<exists>hx. kv_block_height P s x = Inr (Some hx) \<and> hc < hx))"
  using assms(6)
proof (induction rule: converse_rtranclp_induct)
  case base
  have "next_height P t (Some c) = Some (Some (hc, chain_next P t c))"
    using same [of c] hc by (subst next_height.simps) simp
  then have "app_view_loop P t (Some hc) (Some c) (Some c) = Some []" by (subst app_view_loop.simps) simp
  with lc(1) show ?case by (intro exI [of _ "[]"]) simp
next
  case (step b z)
  from step.IH obtain l where l: "uncommitted_loop P s mh z = Some (Inr (l @ lc))" "app_view_loop P t (Some hc) (Some z) (Some z) = Some l"
    "\<forall>x \<in> set l. chain_path P s x c \<and> (\<exists>hx. kv_block_height P s x = Inr (Some hx) \<and> hc < hx)" by blast
  from chain_path_heights [OF assms(1) step.hyps(2) hc] obtain hz where hz: "kv_block_height P s z = Inr (Some hz)" "hc \<le> hz" by blast
  from assms(1) step.hyps(1) hz(1) obtain hb where hb: "kv_block_height P s b = Inr (Some hb)" "hz < hb" unfolding chain_wf_def by fastforce
  have path: "chain_path P s b c" using step.hyps by (rule converse_rtranclp_into_rtranclp)
  have above: "h < hb" if "mh = Some h" for h
  proof -
    have "h < hc" using uncommitted_loop_unfold [OF lc(1)] lc(2) hc that by auto
    with hz(2) hb(2) show ?thesis by simp
  qed
  have "uncommitted_loop P s mh b = Some (Inr ((b # l) @ lc))"
    using hb above step.hyps(1) l(1) by (subst uncommitted_loop.simps) (auto split: option.splits)
  moreover have "next_height P t (Some b) = Some (Some (hb, Some z))"
    using same [OF path] hb(1) step.hyps(1) by (subst next_height.simps) simp
  then have "app_view_loop P t (Some hc) (Some b) (Some b) = Some (b # l)"
    using same [OF path] step.hyps(1) l(2) hz(2) hb(2) by (subst app_view_loop.simps) auto
  moreover have "hc < hb" using hz(2) hb(2) by simp
  ultimately show ?case using l(3) path hb(1) by (intro exI [of _ "b # l"]) simp
qed

lemma map_filter_same: "(\<And>x. x \<in> set xs \<Longrightarrow> f x = g x) \<Longrightarrow> List.map_filter f xs = List.map_filter g xs"
  by (induction xs) (auto simp: List.map_filter_simps split: option.splits)

lemma map_filter_append: "List.map_filter f (xs @ ys) = List.map_filter f xs @ List.map_filter f ys"
  by (simp add: map_filter_def)

text \<open>
  C10. What an application sees does not depend on how much has been committed. On a tree whose links and children lists agree,
  if a block \<open>c\<close> is committed together with its uncommitted ancestors, then before and after the view for every
  block \<open>b\<close> on a branch through \<open>c\<close> can be made, and both views show the same app state, key for key, although the
  updates of the committed blocks have moved from the pending ones to the committed state. The index of committed
  blocks that the same view offers does depend on it: only the later view is sure to show \<open>c\<close> at its height.
\<close>

lemma app_view_stable_under_commit:
  assumes wf: "tree_wf P s" and ok: "pending_ok P s" "borsh_ints P" and bc: "chain_path P s b c"
    and commit: "bt_commit P s c wb_new = Inr (cb, wb)" and cb: "cb \<noteq> []"
  shows "\<exists>v v' hc. bt_app_view P s (Some b) = Inr v \<and> bt_app_view P (kv_write wb s) (Some b) = Inr v' \<and>
    abv_app_state P v' = abv_app_state P v \<and> kv_block_height P s c = Inr (Some hc) \<and> abv_block_at_height P v' hc = Inr (Some c)"
proof -
  let ?t = "kv_write wb s" and ?p = "\<lambda>s b. res_ok (kv_pending_app_state_updates P s b)"
  have cwf: "chain_wf P s" using wf by (simp add: tree_wf_def)
  from commit obtain mh lc where mh: "bt_highest_committed_block_height P s = Inr mh"
    and lc: "uncommitted_loop P s mh c = Some (Inr lc)" and f: "rfold (commit_block P s c) (rev lc) ([], wb_new) = Inr (cb, wb)"
    by (auto simp: bt_commit_def rbind_eq_Inr_iff returns_def split: option.splits)
  have "lc \<noteq> []" using commit_blocks(1) [OF f ok(1)] cb by auto
  then obtain lc' where lc': "lc = c # lc'" using uncommitted_loop_unfold [OF lc] by auto
  obtain acc where last: "commit_block P s c c acc = Inr (cb, wb)" using f by (auto simp: lc' rbind_eq_Inr_iff)
  with commit_block_at_height [of P s c c "fst acc" "snd acc" cb wb s, OF _ ok(2)] obtain hc where
    hc: "kv_block_height P s c = Inr (Some hc)" "?t (path_bytes P (PBlockAtHeight hc)) = Some (VHash c)" by auto
  have keep: "?t (path_bytes P p) = s (path_bytes P p)"
    if "chain_path P s x c" "branch_path p" "of_block p = Some x" "\<And>e. e \<in> set lc \<Longrightarrow> p \<noteq> PPendingAppState e" for x p
  proof -
    have "(parent_link P s)\<^sup>*\<^sup>* x e" if "e \<in> set lc" for e
      using chain_path_links [OF rtranclp_trans [OF \<open>chain_path P s x c\<close> uncommitted_path [OF lc that]]] .
    with commit_branch [OF wf f that(2,3)] that(4) show ?thesis by (auto simp: wb_frame_def store_simps)
  qed
  have same: "kv_block_height P ?t x = kv_block_height P s x \<and> chain_next P ?t x = chain_next P s x" if "chain_path P s x c" for x
    using keep [OF that, of "PBlockHeight x"] keep [OF that, of "PBlockJustify x"]
    by (simp add: chain_next_def kv_block_height_def kv_block_justify_def kv_get_opt_def kv_get_req_def)
  from walks_split [OF cwf lc \<open>lc \<noteq> []\<close> hc(1) same bc] obtain l where
    l: "uncommitted_loop P s mh b = Some (Inr (l @ lc))" "app_view_loop P ?t (Some hc) (Some b) (Some b) = Some l"
    "\<forall>x \<in> set l. chain_path P s x c \<and> (\<exists>hx. kv_block_height P s x = Inr (Some hx) \<and> hc < hx)" by blast
  have pend: "?p ?t x = ?p s x" if "x \<in> set l" for x
  proof -
    have "x \<noteq> e" if "e \<in> set lc" for e
      using chain_path_heights [OF cwf uncommitted_path [OF lc that]] l(3) \<open>x \<in> set l\<close> hc(1) by (auto simp: not_le)
    with keep [of x "PPendingAppState x"] l(3) that show ?thesis by (auto simp: kv_pending_app_state_updates_def kv_get_opt_def)
  qed
  have view: "bt_app_view P s (Some b) = Inr \<lparr>abv_block_tree = s, abv_pending = List.map_filter (?p s) (l @ lc)\<rparr>"
    using chain_path_heights [OF cwf bc hc(1)] walks_agree [OF cwf, of b _ mh] l(1) mh by (auto simp: bt_app_view_def returns_def)
  have "bt_highest_committed_block_height P ?t = Inr (Some hc)"
    using commit_block_highest [of P s c c "fst acc" "snd acc" cb wb s] last same [of c] hc(1)
    by (auto simp: bt_highest_committed_block_height_def kv_highest_committed_block_def kv_get_opt_def)
  then have view': "bt_app_view P ?t (Some b) = Inr \<lparr>abv_block_tree = ?t, abv_pending = List.map_filter (?p s) l\<rparr>"
    using l(2) map_filter_same [of l "?p ?t" "?p s"] pend by (simp add: bt_app_view_def returns_def)
  have "kv_committed_app_state P ?t = fold (apply_pending P s) (rev lc) (kv_committed_app_state P s)"
    using commit_blocks(2) [OF f ok(1), of s] by (simp add: store_simps)
  moreover have "fold (\<lambda>u m. case u of None \<Rightarrow> m | Some u \<Rightarrow> us_apply u m) (rev (List.map_filter (?p s) lc)) m = fold (apply_pending P s) (rev lc) m" for m
    using commit_blocks(3) [OF f ok(1)] by (intro fold_pending) simp
  ultimately have "abv_app_state P \<lparr>abv_block_tree = ?t, abv_pending = List.map_filter (?p s) l\<rparr> =
      abv_app_state P \<lparr>abv_block_tree = s, abv_pending = List.map_filter (?p s) (l @ lc)\<rparr>"
    by (simp add: abv_app_state_fold map_filter_append)
  moreover have "kv_block_at_height P ?t hc = Inr (Some c)" using hc(2) by (simp add: kv_block_at_height_def kv_get_opt_def)
  ultimately show ?thesis using view view' hc(1) by (auto simp: abv_block_at_height_def bt_block_at_height_def)
qed

end
