(* ===== verification/Batch_Writes.thy ===== *)
theory Batch_Writes
  imports Block_Tree
begin

text \<open>
  Which writes a batch can hold. The locale lists the kinds of writes that pruning and committing make; a
  property of single writes that holds for them holds for every write of every batch of
  \<^verbatim>\<open>commit\<close>. The theories on the types of stored values and on agreement use it with their own properties.
\<close>

definition writes_ok :: "(kv_op \<Rightarrow> bool) \<Rightarrow> write_batch \<Rightarrow> bool" where
  "writes_ok ok wb \<longleftrightarrow> (\<forall>op \<in> set wb. ok op)"

lemma writes_ok_new [simp]: "writes_ok ok wb_new"
  by (simp add: writes_ok_def wb_new_def)

lemma writes_ok_set [simp]: "writes_ok ok (wb_set P p v wb) \<longleftrightarrow> writes_ok ok wb \<and> ok (KSet (path_bytes P p) v)"
  by (auto simp: writes_ok_def wb_set_def)

lemma writes_ok_delete [simp]: "writes_ok ok (wb_delete P p wb) \<longleftrightarrow> writes_ok ok wb \<and> ok (KDelete (path_bytes P p))"
  by (auto simp: writes_ok_def wb_delete_def)

lemma writes_ok_fold:
  "writes_ok ok wb \<Longrightarrow> (\<And>x wb. x \<in> set xs \<Longrightarrow> writes_ok ok wb \<Longrightarrow> writes_ok ok (f x wb)) \<Longrightarrow> writes_ok ok (fold f xs wb)"
  by (induction xs arbitrary: wb) auto

text \<open>Writing such a batch keeps what every such write keeps.\<close>

lemma writes_ok_kept:
  assumes "writes_ok ok wb" and "I s" and "\<And>op s. ok op \<Longrightarrow> I s \<Longrightarrow> I (kv_apply op s)"
  shows "I (kv_write wb s)"
  using assms(1,2) by (induction wb arbitrary: s) (auto simp: writes_ok_def kv_write_def assms(3))

lemma writes_ok_set_block:
  assumes "writes_ok ok wb" and "ok (KSet (path_bytes P (PBlockHeight (b_hash b))) (VU64 (b_height b)))"
    and "ok (KSet (path_bytes P (PBlockJustify (b_hash b))) (VPc (b_justify b)))"
    and "ok (KSet (path_bytes P (PBlockDataHash (b_hash b))) (VHash (b_data_hash b)))"
    and "ok (KSet (path_bytes P (PBlockDataLen (b_hash b))) (VU32 (data_len_of (b_data b))))"
    and "\<And>i d. ok (KSet (path_bytes P (PBlockDatum (b_hash b) i)) (VBytes d))"
  shows "writes_ok ok (wb_set_block P b wb)"
  unfolding wb_set_block_def Let_def by (rule writes_ok_fold) (use assms in \<open>auto split: prod.splits\<close>)

locale commit_writes =
  fixes P :: prims and s :: kv_store and ok :: "kv_op \<Rightarrow> bool"
  assumes ok_prune: "of_block p \<noteq> None \<Longrightarrow> ok (KDelete (path_bytes P p))"
    and ok_children: "ok (KSet (path_bytes P (PChildren b)) (VChildren cs))"
    and ok_at_height: "ok (KSet (vconcat [1] (try_to_vec P (BU64 h))) (VHash b))"
    and ok_app_set: "ok (KSet (path_bytes P (PAppState k)) (VBytes v))"
    and ok_app_delete: "ok (KDelete (path_bytes P (PAppState k)))"
    and ok_committed: "ok (KSet (path_bytes P PHighestCommittedBlock) (VHash b))"
    and ok_update: "kv_validator_set_updates_status P s b = Inr (Pending u) \<Longrightarrow> kv_committed_validator_set P s = Inr previous \<Longrightarrow>
      vs_apply_updates previous u = Inr committed \<Longrightarrow>
      ok (KSet (path_bytes P PCommittedValidatorSet) (VValidatorSet (vs_to_bytes committed))) \<and>
      ok (KSet (path_bytes P PPreviousValidatorSet) (VValidatorSet (vs_to_bytes previous))) \<and>
      ok (KSet (path_bytes P PUpdateHeight) (VU64 h)) \<and> ok (KSet (path_bytes P PUpdateDecided) (VBool False)) \<and>
      ok (KSet (path_bytes P (PStatus block)) (VStatus CommittedBytes))"
begin

lemma delete_block_data_ok: "writes_ok ok wb \<Longrightarrow> writes_ok ok (delete_block_data P s b wb)"
  unfolding delete_block_data_def Let_def wb_setter_defs wb_delete_block_def
  by (auto intro!: writes_ok_fold ok_prune split: sum.splits option.splits)

lemma delete_branch_ok: "delete_branch P s root wb = Inr wb' \<Longrightarrow> writes_ok ok wb \<Longrightarrow> writes_ok ok wb'"
  by (auto simp: delete_branch_def rbind_eq_Inr_iff intro!: writes_ok_fold delete_block_data_ok)

lemma delete_siblings_ok:
  assumes "delete_siblings P s b wb = Inr wb'" and "writes_ok ok wb"
  shows "writes_ok ok wb'"
proof -
  from assms(1) obtain pc :: phase_certificate and cs wb1 where
    r: "rfold (delete_branch P s) (filter (\<lambda>sib. sib \<noteq> b) cs) wb = Inr wb1" "wb_set_children P (pc_block pc) [b] wb1 = wb'"
    by (simp add: delete_siblings_def rbind_eq_Inr_iff Let_def) blast
  have "writes_ok ok wb1" using r(1) assms(2) by (rule rfold_invariant) (auto intro: delete_branch_ok)
  then show ?thesis unfolding r(2) [symmetric] by (simp add: wb_setter_defs ok_children)
qed

lemma app_updates_ok: "writes_ok ok wb \<Longrightarrow> writes_ok ok (wb_apply_app_state_updates P u wb)"
  unfolding wb_apply_app_state_updates_def wb_setter_defs
  by (auto intro!: writes_ok_fold simp: ok_app_set ok_app_delete)

lemma commit_block_ok:
  assumes "commit_block P s block b (cb, wb) = Inr (cb', wb')" and "writes_ok ok wb"
  shows "writes_ok ok wb'"
  using assms(1)
proof (cases rule: commit_block_cases)
  case (1 h wb1 pending status wb2 wb3)
  have "writes_ok ok (wb_set_block_at_height P h b wb)"
    using assms(2) ok_at_height by (simp add: writes_ok_def wb_set_block_at_height_def)
  with 1(2) have "writes_ok ok wb1" by (rule delete_siblings_ok)
  then have 2: "writes_ok ok wb2"
    by (auto simp: 1(5) wb_setter_defs intro!: app_updates_ok ok_prune split: option.splits)
  have "writes_ok ok wb3"
  proof (cases status)
    case (Pending u)
    with 1(8) [OF Pending] 1(4) ok_update 2 show ?thesis by (auto simp: wb_setter_defs)
  qed (use 1(7) 2 in auto)
  then show ?thesis by (simp add: 1(6) wb_setter_defs ok_committed)
qed

lemma commit_ok:
  assumes "bt_commit P s block wb = Inr (cb, wb')" and "writes_ok ok wb"
  shows "writes_ok ok wb'"
proof -
  from assms(1) obtain l where f: "rfold (commit_block P s block) l ([], wb) = Inr (cb, wb')"
    by (auto simp: bt_commit_def rbind_eq_Inr_iff)
  have "(\<lambda>(_, w). writes_ok ok w) (cb, wb')"
    by (rule rfold_invariant [OF f]) (use assms(2) commit_block_ok in \<open>fastforce split: prod.splits\<close>)+
  then show ?thesis by simp
qed

text \<open>An update writes, besides, certificates to the highest and the locked PC, and ends a validator set update on a \<^verbatim>\<open>Decide\<close>.\<close>

lemma update_ok:
  assumes "bt_update P pub justify s = Inr (r, ev, s')"
    and "ok (KSet (path_bytes P PHighestPC) (VPc justify))"
    and "\<And>pc. pc_to_lock P s justify = Inr (Some pc) \<Longrightarrow> ok (KSet (path_bytes P PLockedPC) (VPc pc))"
    and "pc_phase justify = Decide \<Longrightarrow> ok (KSet (path_bytes P PUpdateDecided) (VBool True))"
  obtains wb where "s' = kv_write wb s" "writes_ok ok wb"
  using assms(1)
proof (cases rule: bt_update_cases)
  case (1 highest_pc to_lock to_commit cb wb0 wb1)
  have "writes_ok ok wb0" using assms(2,3) 1(2) by (auto simp: 1(4) wb_setter_defs split: option.splits)
  then have "writes_ok ok wb1" using 1(5) commit_ok by (cases to_commit) auto
  with assms(4) have "writes_ok ok (if pc_phase justify = Decide then wb_set_validator_set_update_decided P True wb1 else wb1)"
    by (simp add: wb_setter_defs)
  with 1(7) show thesis by (rule that)
qed

end

end
