(* ===== verification/Store_Typing.thy ===== *)
theory Store_Typing
  imports Algorithm Batch_Writes
begin

text \<open>
  What the key-value store holds: under every key of the layout, a value of the type that the
  getter of that key decodes, and the variables that the getters expect to be there. Every write
  of the block tree keeps this, so in every reachable state the state variables can be read and a stopped replica can be
  started again. That the statuses of validator set updates also decode is in the theory \<open>Store_History\<close>.
\<close>

section \<open>Types of the stored values\<close>

text \<open>A stored validator set is one that \<^verbatim>\<open>ValidatorSet\<close> can represent.\<close>

definition vs_bytes_ok :: "prims \<Rightarrow> validator_set_bytes \<Rightarrow> bool" where
  "vs_bytes_ok P b \<longleftrightarrow> (\<exists>vs. vs_ok vs \<and> vs_keys_parse P vs \<and> b = vs_to_bytes vs)"

fun fits :: "prims \<Rightarrow> kv_path \<Rightarrow> kv_val \<Rightarrow> bool" where
  "fits P (PBlockHeight _) v = (as_u64 v \<noteq> None)"
| "fits P (PBlockJustify _) v = (as_pc v \<noteq> None)"
| "fits P (PBlockDataHash _) v = (as_hash v \<noteq> None)"
| "fits P (PBlockDataLen _) v = (as_u32 v \<noteq> None)"
| "fits P (PBlockDatum _ _) v = (as_bytes v \<noteq> None)"
| "fits P (PBlockAtHeight _) v = (as_hash v \<noteq> None)"
| "fits P (PChildren _) v = (as_children v \<noteq> None)"
| "fits P (PAppState _) v = (as_bytes v \<noteq> None)"
| "fits P (PPendingAppState _) v = (as_app_updates v \<noteq> None)"
| "fits P PCommittedValidatorSet v = (case as_validator_set v of None \<Rightarrow> False | Some b \<Rightarrow> vs_bytes_ok P b)"
| "fits P (PStatus _) v = (as_status v \<noteq> None)"
| "fits P PLockedPC v = (as_pc v \<noteq> None)"
| "fits P PHighestViewEntered v = (as_u64 v \<noteq> None)"
| "fits P PHighestPC v = (as_pc v \<noteq> None)"
| "fits P PHighestCommittedBlock v = (as_hash v \<noteq> None)"
| "fits P PNewestBlock v = (as_hash v \<noteq> None)"
| "fits P PHighestTC v = (as_tc v \<noteq> None)"
| "fits P PPreviousValidatorSet v = (case as_validator_set v of None \<Rightarrow> False | Some b \<Rightarrow> vs_bytes_ok P b)"
| "fits P PUpdateHeight v = (as_u64 v \<noteq> None)"
| "fits P PUpdateDecided v = (as_bool v \<noteq> None)"
| "fits P PHighestViewPhaseVoted v = (as_u64 v \<noteq> None)"

text \<open>The variables that are set at initialization and never deleted.\<close>

definition required :: "kv_path set" where
  "required = {PCommittedValidatorSet, PPreviousValidatorSet, PUpdateDecided, PLockedPC, PHighestViewEntered, PHighestPC}"

definition typed :: "prims \<Rightarrow> kv_store \<Rightarrow> bool" where
  "typed P s \<longleftrightarrow> (\<forall>p v. s (path_bytes P p) = Some v \<longrightarrow> fits P p v)"

definition well_typed :: "prims \<Rightarrow> kv_store \<Rightarrow> bool" where
  "well_typed P s \<longleftrightarrow> typed P s \<and> (\<forall>p \<in> required. s (path_bytes P p) \<noteq> None)"

text \<open>A batch is well typed if each of its writes fits its key and no required variable is deleted.\<close>

fun op_ok :: "prims \<Rightarrow> kv_op \<Rightarrow> bool" where
  "op_ok P (KSet k v) \<longleftrightarrow> (\<forall>p. path_bytes P p = k \<longrightarrow> fits P p v)"
| "op_ok P (KDelete k) \<longleftrightarrow> (\<forall>p \<in> required. path_bytes P p \<noteq> k)"

lemma well_typed_op: "op_ok P op \<Longrightarrow> well_typed P s \<Longrightarrow> well_typed P (kv_apply op s)"
  by (cases op) (auto simp: well_typed_def typed_def)

lemma typed_op: "op_ok P op \<Longrightarrow> typed P s \<Longrightarrow> typed P (kv_apply op s)"
  by (cases op) (auto simp: typed_def)

lemma well_typed_write: "writes_ok (op_ok P) wb \<Longrightarrow> well_typed P s \<Longrightarrow> well_typed P (kv_write wb s)"
  by (erule writes_ok_kept) (auto intro: well_typed_op)

lemma typed_write: "writes_ok (op_ok P) wb \<Longrightarrow> typed P s \<Longrightarrow> typed P (kv_write wb s)"
  by (erule writes_ok_kept) (auto intro: typed_op)

section \<open>Writes that fit\<close>

lemma fits_datum: "is_datum p \<Longrightarrow> is_datum q \<Longrightarrow> fits P p v = fits P q v"
  by (cases p; cases q) auto

lemma fits_same_key: "path_bytes P p = path_bytes P q \<Longrightarrow> fits P p v = fits P q v"
  by (metis path_bytes_inject fits_datum)

lemma op_ok_set: "fits P p v \<Longrightarrow> op_ok P (KSet (path_bytes P p) v)"
  unfolding op_ok.simps using fits_same_key by blast

lemma op_ok_delete:
  assumes "p \<notin> required"
  shows "op_ok P (KDelete (path_bytes P p))"
proof -
  have "\<not> is_datum q" if "q \<in> required" for q using that by (auto simp: required_def)
  with assms show ?thesis by (auto simp: path_bytes_inject)
qed

lemma op_ok_at_height: "op_ok P (KSet (vconcat [1] xs) (VHash b))"
proof -
  have "fits P p (VHash b)" if "path_bytes P p = 1 # xs" for p
    using that by (cases p) (auto simp: path_bytes.simps vconcat_def block_prefix_def)
  then show ?thesis by (simp add: vconcat_def)
qed

lemma app_updates_typed: "writes_ok (op_ok P) wb \<Longrightarrow> writes_ok (op_ok P) (wb_apply_app_state_updates P u wb)"
  unfolding wb_apply_app_state_updates_def wb_setter_defs
  by (auto intro!: writes_ok_fold simp: required_def op_ok_set op_ok_delete simp del: op_ok.simps)

section \<open>Validator sets in the store\<close>

text \<open>Applying parsed updates to a well-formed validator set gives one again.\<close>

lemma vs_put_keys: "vs_put vs k p = Inr vs' \<Longrightarrow> set (vs_validators vs') \<subseteq> insert k (set (vs_validators vs))"
  by (auto simp: vs_put_def rbind_eq_Inr_iff split: if_splits sum.splits)

lemma vs_remove_keys: "set (vs_validators (snd (vs_remove vs k))) \<subseteq> set (vs_validators vs)"
  by (auto simp: vs_remove_def vec_remove_def dest: in_set_takeD in_set_dropD split: sum.splits)

lemma vs_apply_updates_keeps:
  assumes "vs_apply_updates vs u = Inr vs'" and "vs_ok vs" and "vs_keys_parse P vs"
    and "\<forall>k \<in> fst ` set (us_inserts u). vk_from_bytes P k = Some k"
  shows "vs_ok vs' \<and> vs_keys_parse P vs'"
proof -
  let ?I = "\<lambda>vs. vs_ok vs \<and> vs_keys_parse P vs"
  from assms(1) obtain vs1 where f: "rfold (\<lambda>(peer, new_power) vs. vs_put vs peer new_power) (us_inserts u) vs = Inr vs1"
    and vs': "vs' = fold (\<lambda>peer vs. snd (vs_remove vs peer)) (us_deletes u) vs1"
    by (auto simp: vs_apply_updates_def rbind_eq_Inr_iff)
  have step: "?I b" if "x \<in> set (us_inserts u)" "(case x of (k, p) \<Rightarrow> \<lambda>vs. vs_put vs k p) a = Inr b" "?I a" for x a b
  proof -
    obtain k p where x: "x = (k, p)" by (cases x)
    with that(1) assms(4) have k: "vk_from_bytes P k = Some k" by force
    from that(2) x have put: "vs_put a k p = Inr b" by simp
    with vs_put_ok [of a k p] that(3) have "vs_ok b" by simp
    moreover have "vk_from_bytes P y = Some y" if "y \<in> set (vs_validators b)" for y
    proof -
      have "y = k \<or> y \<in> set (vs_validators a)" using vs_put_keys [OF put] that by blast
      with k \<open>?I a\<close> show ?thesis by (auto simp: vs_keys_parse_def)
    qed
    ultimately show ?thesis by (simp add: vs_keys_parse_def)
  qed
  have I: "?I vs1" by (rule rfold_invariant [OF f, where I = ?I, OF _ step]) (use assms(2,3) in simp_all)
  have "?I (fold (\<lambda>peer vs. snd (vs_remove vs peer)) ks a)" if "?I a" for ks a
    using that
  proof (induction ks arbitrary: a)
    case (Cons k ks)
    have "?I (snd (vs_remove a k))"
      using vs_remove_ok(1) [of a k] vs_remove_keys [of a k] Cons.prems unfolding vs_keys_parse_def by blast
    with Cons.IH show ?case by simp
  qed simp
  with I show ?thesis by (simp add: vs')
qed

text \<open>Updates that were read from the store have keys that parse, since parsing is exact.\<close>

lemma hm_insert_keys: "fst ` set (hm_insert m k v) \<subseteq> insert k (fst ` set m)"
  by (induction m) (auto simp: hm_insert_def)

lemma vsu_try_from_keys:
  assumes "vk_parse_exact P" and "vsu_try_from P b = Inr u"
  shows "\<forall>k \<in> fst ` set (us_inserts u). vk_from_bytes P k = Some k"
proof -
  from assms(2) obtain ins where ins: "rmap (\<lambda>(b, p). rbind (vsu_parse_key P b) (\<lambda>k. Inr (k, p))) (us_inserts b) = Inr ins"
    and u: "us_inserts u = fold (\<lambda>(k, p) m. hm_insert m k p) ins []"
    by (auto simp: vsu_try_from_def rbind_eq_Inr_iff)
  have parse: "vk_from_bytes P k = Some k" if "vsu_parse_key P x = Inr k" for x k
    using that assms(1) by (cases "vk_from_bytes P x") (auto simp: vsu_parse_key_def vk_parse_exact_def)
  have "\<forall>k \<in> fst ` set ys. vk_from_bytes P k = Some k"
    if "rmap (\<lambda>(b, p). rbind (vsu_parse_key P b) (\<lambda>k. Inr (k, p))) xs = Inr ys" for xs ys
    using that by (induction xs arbitrary: ys) (use parse in \<open>fastforce simp: rbind_eq_Inr_iff\<close>)+
  with ins have ok: "\<forall>k \<in> fst ` set ins. vk_from_bytes P k = Some k" by blast
  have "fst ` set (fold (\<lambda>(k, p) m. hm_insert m k p) xs m) \<subseteq> fst ` set xs \<union> fst ` set m" for xs :: "(verifying_key \<times> power) list" and m
  proof (induction xs arbitrary: m)
    case (Cons x xs)
    from Cons.IH [of "hm_insert m (fst x) (snd x)"] hm_insert_keys [of m "fst x" "snd x"] show ?case by (cases x) auto
  qed simp
  from this [of ins "[]"] have "fst ` set (us_inserts u) \<subseteq> fst ` set ins" by (simp add: u)
  with ok show ?thesis by blast
qed

lemma stored_validator_set:
  assumes "typed P s" and "kv_committed_validator_set P s = Inr vs"
  shows "vs_ok vs \<and> vs_keys_parse P vs"
proof -
  from assms(2) obtain v b where v: "s (path_bytes P PCommittedValidatorSet) = Some v" "as_validator_set v = Some b"
    and vs: "map_ed25519 (vs_try_from P b) CommittedValidatorSetKey = Inr vs"
    by (auto simp: kv_committed_validator_set_def kv_get_req_def rbind_eq_Inr_iff ok_or_def split: option.splits)
  from assms(1) v(1) have "fits P PCommittedValidatorSet v" unfolding typed_def by blast
  with v(2) obtain vs' where "vs_ok vs'" "vs_keys_parse P vs'" "b = vs_to_bytes vs'" by (auto simp: vs_bytes_ok_def)
  with vs show ?thesis by (simp add: map_ed25519_def vs_try_from_to_bytes)
qed

lemma pending_updates_keys:
  assumes "kv_validator_set_updates_status P s b = Inr (Pending u)" and "vk_parse_exact P"
  shows "\<forall>k \<in> fst ` set (us_inserts u). vk_from_bytes P k = Some k"
proof -
  from assms(1) obtain st where "vsu_status_try_from P st = Inr (Pending u)"
    by (auto simp: kv_validator_set_updates_status_def rbind_eq_Inr_iff map_ed25519_def ok_or_def res_ok_def
        split: option.splits sum.splits)
  then obtain x where "vsu_try_from P x = Inr u" by (cases st) (auto simp: rbind_eq_Inr_iff)
  with assms(2) show ?thesis by (rule vsu_try_from_keys)
qed

lemma committed_update_fits:
  assumes "kv_validator_set_updates_status P s b = Inr (Pending u)" and "kv_committed_validator_set P s = Inr previous"
    and "vs_apply_updates previous u = Inr committed" and "typed P s" and "vk_parse_exact P"
  shows "vs_bytes_ok P (vs_to_bytes previous) \<and> vs_bytes_ok P (vs_to_bytes committed)"
  using stored_validator_set [OF assms(4,2)] vs_apply_updates_keeps [OF assms(3)] pending_updates_keys [OF assms(1,5)]
  by (auto simp: vs_bytes_ok_def)

interpretation typing: commit_writes P s "\<lambda>op. typed P s \<longrightarrow> vk_parse_exact P \<longrightarrow> op_ok P op" for P s
proof
  show "typed P s \<longrightarrow> vk_parse_exact P \<longrightarrow> op_ok P (KDelete (path_bytes P p))" if "of_block p \<noteq> None" for p
    using that by (intro impI op_ok_delete) (auto simp: required_def)
  fix b u previous committed h block
  assume "kv_validator_set_updates_status P s b = Inr (Pending u)" "kv_committed_validator_set P s = Inr previous"
    "vs_apply_updates previous u = Inr committed"
  from committed_update_fits [OF this]
  show "(typed P s \<longrightarrow> vk_parse_exact P \<longrightarrow> op_ok P (KSet (path_bytes P PCommittedValidatorSet) (VValidatorSet (vs_to_bytes committed)))) \<and>
    (typed P s \<longrightarrow> vk_parse_exact P \<longrightarrow> op_ok P (KSet (path_bytes P PPreviousValidatorSet) (VValidatorSet (vs_to_bytes previous)))) \<and>
    (typed P s \<longrightarrow> vk_parse_exact P \<longrightarrow> op_ok P (KSet (path_bytes P PUpdateHeight) (VU64 h))) \<and>
    (typed P s \<longrightarrow> vk_parse_exact P \<longrightarrow> op_ok P (KSet (path_bytes P PUpdateDecided) (VBool False))) \<and>
    (typed P s \<longrightarrow> vk_parse_exact P \<longrightarrow> op_ok P (KSet (path_bytes P (PStatus block)) (VStatus CommittedBytes)))"
    by (simp add: op_ok_set del: op_ok.simps)
qed (simp_all add: op_ok_set op_ok_delete op_ok_at_height required_def del: op_ok.simps)

lemma well_typed_update:
  assumes "bt_update P pub justify s = Inr (r, ev, s')" and "well_typed P s" and "vk_parse_exact P"
  shows "well_typed P s'"
proof -
  from assms(2) have "typed P s" by (simp add: well_typed_def)
  obtain wb where "s' = kv_write wb s" "writes_ok (\<lambda>op. typed P s \<longrightarrow> vk_parse_exact P \<longrightarrow> op_ok P op) wb"
    by (rule typing.update_ok [OF assms(1)]) (simp_all add: op_ok_set del: op_ok.simps)
  with assms(2,3) \<open>typed P s\<close> show ?thesis by (simp add: well_typed_write)
qed

lemma well_typed_insert: "well_typed P s \<Longrightarrow> well_typed P (bt_insert P b au vu s)"
  unfolding bt_insert_def Let_def wb_setter_defs
  by (intro well_typed_write) (auto intro!: writes_ok_set_block simp: op_ok_set simp del: op_ok.simps split: option.splits)

lemma well_typed_initialize:
  assumes "vss_ok P vss"
  shows "well_typed P (bt_initialize P u vss Map.empty)"
proof -
  let ?s = "bt_initialize P u vss Map.empty"
  have "vs_bytes_ok P (vs_to_bytes (committed_vs vss))" "vs_bytes_ok P (vs_to_bytes (previous_vs vss))"
    using assms by (auto simp: vss_ok_def vs_bytes_ok_def)
  then have "typed P ?s" unfolding bt_initialize_def Let_def
    by (intro typed_write) (auto simp: typed_def wb_setter_defs op_ok_set simp del: op_ok.simps intro!: app_updates_typed split: option.splits)
  moreover have "?s (path_bytes P p) \<noteq> None" if "p \<in> required" for p
    using that unfolding required_def by (elim insertE) (auto simp: bt_initialize_def Let_def wb_setter_defs store_simps split: option.splits)
  ultimately show ?thesis by (simp add: well_typed_def)
qed

section \<open>Every turn keeps the store well typed\<close>

definition typed_rel :: "prims \<Rightarrow> 'a node \<Rightarrow> 'a node \<Rightarrow> bool" where
  "typed_rel P n n' \<longleftrightarrow> (vk_parse_exact P \<longrightarrow> well_typed P (nd_store n) \<longrightarrow> well_typed P (nd_store n'))"

interpretation types: pacemaker_rel P "typed_rel P" for P
  by unfold_locales
     (auto simp: typed_rel_def bt_setter_defs wb_setter_defs well_typed_insert op_ok_set simp del: op_ok.simps
       intro: well_typed_update intro!: well_typed_write)

lemma well_typed_reachable: "reachable P app S cf a \<Longrightarrow> vk_parse_exact P \<Longrightarrow> well_typed P (nd_store (al_node a))"
proof (induction rule: reachable.induct)
  case (start vss u now1 now2 x a)
  then show ?case by (simp add: algorithm_new_node well_typed_initialize)
next
  case (turn a t r a')
  from keepsD [OF types.keeps_execute_turn [of P app S t], of a] turn show ?case by (simp add: typed_rel_def)
qed (simp add: algorithm_new_node)

section \<open>What can be read\<close>

lemma typed_opt:
  assumes "typed P s" and "\<And>v. fits P p v \<Longrightarrow> f v \<noteq> None"
  shows "\<exists>x. kv_get_opt s (path_bytes P p) f k = Inr x"
  using assms unfolding typed_def kv_get_opt_def by (cases "s (path_bytes P p)") (fastforce simp: ok_or_def)+

lemma typed_req:
  assumes "typed P s" and "\<And>v. fits P p v \<Longrightarrow> f v \<noteq> None"
  shows "kv_get_req s (path_bytes P p) f k =
    (case s (path_bytes P p) of None \<Rightarrow> Inl (get_err (ValueExpectedButNotFound k)) | Some v \<Rightarrow> Inr (the (f v)))"
  using assms unfolding typed_def kv_get_req_def by (cases "s (path_bytes P p)") (fastforce simp: ok_or_def)+

lemma well_typed_req:
  assumes "well_typed P s" and "p \<in> required" and "\<And>v. fits P p v \<Longrightarrow> f v \<noteq> None"
  shows "\<exists>x. kv_get_req s (path_bytes P p) f k = Inr x"
  using assms typed_req [of P s p f k] unfolding well_typed_def by (cases "s (path_bytes P p)") auto

lemma well_typed_validator_set:
  assumes "well_typed P s" and "p \<in> {PCommittedValidatorSet, PPreviousValidatorSet}"
  shows "\<exists>vs. rbind (kv_get_req s (path_bytes P p) as_validator_set k) (\<lambda>b. map_ed25519 (vs_try_from P b) k) = Inr vs \<and>
    vs_ok vs \<and> vs_keys_parse P vs"
proof -
  from assms obtain v where v: "s (path_bytes P p) = Some v" "fits P p v"
    unfolding well_typed_def typed_def required_def by blast
  with assms(2) obtain vs where "as_validator_set v = Some (vs_to_bytes vs)" "vs_ok vs" "vs_keys_parse P vs"
    by (auto simp: vs_bytes_ok_def split: option.splits)
  with v(1) show ?thesis by (simp add: kv_get_req_def map_ed25519_def vs_try_from_to_bytes)
qed

lemma well_typed_vss:
  assumes "well_typed P s"
  shows "\<exists>vss. kv_validator_set_state P s = Inr vss \<and> vss_ok P vss"
proof -
  obtain c where c: "kv_committed_validator_set P s = Inr c" "vs_ok c" "vs_keys_parse P c"
    using well_typed_validator_set [OF assms, of PCommittedValidatorSet CommittedValidatorSetKey] by (auto simp: kv_committed_validator_set_def)
  obtain p where p: "kv_previous_validator_set P s = Inr p" "vs_ok p" "vs_keys_parse P p"
    using well_typed_validator_set [OF assms, of PPreviousValidatorSet CommittedValidatorSetKey] by (auto simp: kv_previous_validator_set_def)
  obtain h where h: "kv_validator_set_update_block_height P s = Inr h"
    using assms typed_opt [of P s PUpdateHeight as_u64] by (auto simp: well_typed_def kv_validator_set_update_block_height_def)
  obtain d where d: "kv_validator_set_update_complete P s = Inr d"
    using well_typed_req [OF assms, of PUpdateDecided as_bool] by (auto simp: required_def kv_validator_set_update_complete_def)
  from c p h d show ?thesis by (simp add: kv_validator_set_state_def vss_ok_def)
qed

definition undecodable :: "'a res \<Rightarrow> bool" where
  "undecodable r \<longleftrightarrow> (\<exists>k. r = Inl (get_err (DeserializeValueError k)))"

lemma required_reads:
  assumes "well_typed P s"
  shows "\<exists>pc. kv_highest_pc P s = Inr pc" "\<exists>pc. kv_locked_pc P s = Inr pc" "\<exists>v. kv_highest_view_entered P s = Inr v"
  unfolding kv_highest_pc_def kv_locked_pc_def kv_highest_view_entered_def
  by (rule well_typed_req [OF assms]; simp add: required_def)+

lemma optional_reads:
  assumes "typed P s"
  shows "\<exists>b. kv_highest_committed_block P s = Inr b" "\<exists>b. kv_newest_block P s = Inr b" "\<exists>tc. kv_highest_tc P s = Inr tc"
    "\<exists>v. kv_highest_view_phase_voted P s = Inr v" "\<exists>h. kv_block_height P s b = Inr h" "\<exists>h. kv_block_data_hash P s b = Inr h"
    "\<exists>l. kv_block_data_len P s b = Inr l" "\<exists>u. kv_pending_app_state_updates P s b = Inr u" "\<exists>b. kv_block_at_height P s h = Inr b"
  unfolding kv_getter_defs by (rule typed_opt [OF assms]; simp)+

lemma well_typed_progress:
  assumes "well_typed P s"
  shows "\<exists>v. bt_highest_view_with_progress P s = Inr v"
proof -
  from required_reads [OF assms] obtain e pc where "kv_highest_view_entered P s = Inr e" "kv_highest_pc P s = Inr pc" by blast
  moreover from optional_reads(3) [of P s] assms obtain tc where "kv_highest_tc P s = Inr tc" by (auto simp: well_typed_def)
  ultimately show ?thesis by (simp add: bt_highest_view_with_progress_def)
qed

lemma block_reads:
  assumes "typed P s"
  shows "\<not> undecodable (kv_block_justify P s b)" "\<not> undecodable (kv_children P s b)"
  using typed_req [OF assms, of "PBlockJustify b" as_pc "BlockJustifyKey b"] typed_req [OF assms, of "PChildren b" as_children "BlockChildrenKey b"]
  by (simp_all add: kv_block_justify_def kv_children_def undecodable_def get_err_def split: option.splits)

section \<open>Starting again\<close>

text \<open>The views that a replica knows to have made progress in, as its block tree records them.\<close>

definition progress_views :: "prims \<Rightarrow> kv_store \<Rightarrow> view_number set" where
  "progress_views P s = {v. kv_highest_view_entered P s = Inr v \<or> (\<exists>pc. kv_highest_pc P s = Inr pc \<and> v = pc_view pc) \<or>
     (\<exists>tc. kv_highest_tc P s = Inr (Some tc) \<and> v = tc_view tc)}"

lemma progress_max:
  assumes "bt_highest_view_with_progress P s = Inr w"
  shows "w \<in> progress_views P s" "\<And>v. v \<in> progress_views P s \<Longrightarrow> v \<le> w"
proof -
  from assms obtain e pc tc where r: "kv_highest_view_entered P s = Inr e" "kv_highest_pc P s = Inr pc" "kv_highest_tc P s = Inr tc"
    and w: "w = max e (max (pc_view pc) (case tc of None \<Rightarrow> view_init | Some tc \<Rightarrow> tc_view tc))"
    by (auto simp: bt_highest_view_with_progress_def rbind_eq_Inr_iff)
  have views: "progress_views P s = {e, pc_view pc} \<union> (case tc of None \<Rightarrow> {} | Some tc \<Rightarrow> {tc_view tc})"
    by (auto simp: progress_views_def r split: option.splits)
  show "w \<in> progress_views P s" by (cases tc) (auto simp: views w max_def view_init_def)
  show "v \<le> w" if "v \<in> progress_views P s" for v using that by (cases tc) (auto simp: views w view_init_def le_max_iff_disj)
qed

text \<open>
  C7. A stopped replica can always be started again: on the block tree of any reachable state, also one left by a panic,
  \<^verbatim>\<open>Algorithm::new\<close> succeeds, as long as the epoch length is positive, the epoch after each view of progress ends within the
  range of view numbers and the clock is not within an epoch of its last instant. The views of progress are the highest view
  entered and the views of the highest PC and of the highest TC. If the replica has made progress in view 0 only, it starts in
  view 0 again; otherwise it starts in the view right after the highest of them, above all of them.
\<close>

lemma restart_succeeds:
  assumes "reachable P app S cf a" and "vk_parse_exact P" and "cf_epoch_length cf \<noteq> 0"
    and "\<And>v. v \<in> progress_views P (nd_store (al_node a)) \<Longrightarrow> epoch_end (unat (cf_epoch_length cf)) (unat v + 1) < 2 ^ 64"
    and "clock_in_range now1 (cf_epoch_length cf) (cf_max_view_time cf)"
  shows "\<exists>a' v. algorithm_new P cf now1 now2 out (nd_store (al_node a)) x = Inr a' \<and>
    pk_ok (nd_pacemaker (al_node a')) \<and> v = vi_view (pk_view_info (nd_pacemaker (al_node a'))) \<and>
    progress_views P (nd_store (al_node a)) \<noteq> {} \<and>
    (if progress_views P (nd_store (al_node a)) = {0} then v = 0
     else (\<forall>w \<in> progress_views P (nd_store (al_node a)). w < v) \<and> v - 1 \<in> progress_views P (nd_store (al_node a)))"
proof -
  let ?s = "nd_store (al_node a)" and ?len = "unat (cf_epoch_length cf)"
  have w: "well_typed P ?s" by (rule well_typed_reachable [OF assms(1,2)])
  have len: "0 < ?len" using assms(3) by (simp add: unat_gt_0)
  obtain vss where vss: "kv_validator_set_state P ?s = Inr vss" using well_typed_vss [OF w] by blast
  obtain v where v: "bt_highest_view_with_progress P ?s = Inr v" using well_typed_progress [OF w] by blast
  note mx = progress_max [OF v]
  have e: "epoch_end ?len (unat v + 1) < 2 ^ 64" by (rule assms(4) [OF mx(1)])
  with epoch_end_ge [OF len, of "unat v + 1"] have u: "unat (v + 1) = unat v + 1" by (simp add: unat_word_ariths)
  have start: "epoch_end ?len (unat (initial_view v)) < 2 ^ 64"
  proof (cases "v = 0")
    case True
    with len show ?thesis by (simp add: initial_view_def epoch_end_def)
  next
    case False
    with e u show ?thesis by (simp add: initial_view_def)
  qed
  obtain pk where pk:
    "pacemaker_new now1 (cf_chain_id cf) (cf_keypair cf) (cf_epoch_length cf) (cf_max_view_time cf) (initial_view v) vss = Inr pk"
    "pk_ok pk" "vi_view (pk_view_info pk) = initial_view v"
    by (rule pacemaker_new_ok [OF assms(3) start assms(5)])
  have first: "if progress_views P ?s = {0} then initial_view v = 0
     else (\<forall>w \<in> progress_views P ?s. w < initial_view v) \<and> initial_view v - 1 \<in> progress_views P ?s"
  proof (cases "v = 0")
    case True
    with mx have "progress_views P ?s = {0}" by force
    with True show ?thesis by (simp add: initial_view_def)
  next
    case False
    with mx(1) have "progress_views P ?s \<noteq> {0}" by auto
    moreover have "w < v + 1" if "w \<le> v" for w using that u by (simp add: word_less_nat_alt word_le_nat_alt)
    ultimately show ?thesis using False mx by (simp add: initial_view_def)
  qed
  have "\<exists>a'. algorithm_new P cf now1 now2 out ?s x = Inr a' \<and> nd_pacemaker (al_node a') = pk"
    by (simp add: algorithm_new_def expect_def v vss pk(1))
  then obtain a' where "algorithm_new P cf now1 now2 out ?s x = Inr a'" "nd_pacemaker (al_node a') = pk" by blast
  moreover have "progress_views P ?s \<noteq> {}" using mx(1) by blast
  ultimately show ?thesis using pk(2,3) first by metis
qed

end
