(* ===== verification/Tree_Invariant.thy ===== *)
theory Tree_Invariant
  imports App_View Store_Typing
begin

text \<open>
  The invariant of the block tree. Every stored block has all its links: a height, a justify, a stored parent of smaller
  height, and an entry in the children list of its parent; children lists contain nothing else. On such a
  tree every walk ends and an update never fails, and inserting and updating keep the tree such a tree, pruning included.
  What the code does not check is the height of an inserted block: that it is above the parent's height is a
  hypothesis on the block.
\<close>

section \<open>The invariant\<close>

definition tree_ok :: "prims \<Rightarrow> kv_store \<Rightarrow> bool" where
  "tree_ok P s \<longleftrightarrow> well_typed P s \<and> tree_wf P s \<and>
     (\<forall>b h. kv_block_height P s b = Inr (Some h) \<longrightarrow> (\<exists>j. kv_block_justify P s b = Inr j)) \<and>
     (\<forall>b j. kv_block_justify P s b = Inr j \<longrightarrow> (\<exists>h. kv_block_height P s b = Inr (Some h)) \<and>
        (\<exists>len. kv_block_data_len P s b = Inr (Some len)) \<and> (\<exists>cs. kv_children P s (pc_block j) = Inr cs \<and> b \<in> set cs)) \<and>
     (\<forall>b. \<exists>st. kv_validator_set_updates_status P s b = Inr st \<and> (\<forall>u. st = Pending u \<longrightarrow> us_ok u)) \<and>
     (\<forall>c. kv_highest_committed_block P s = Inr (Some c) \<longrightarrow> (\<exists>h. kv_block_height P s c = Inr (Some h)))"

definition stored :: "prims \<Rightarrow> kv_store \<Rightarrow> crypto_hash \<Rightarrow> bool" where
  "stored P s b \<longleftrightarrow> (\<exists>h. kv_block_height P s b = Inr (Some h))"

lemma tree_okD:
  assumes "tree_ok P s"
  shows "well_typed P s" "tree_wf P s" "chain_wf P s" "typed P s"
    "kv_highest_committed_block P s = Inr (Some c) \<Longrightarrow> stored P s c"
    "\<exists>st. kv_validator_set_updates_status P s b = Inr st \<and> (\<forall>u. st = Pending u \<longrightarrow> us_ok u)"
  using assms by (simp_all add: tree_ok_def tree_wf_def stored_def well_typed_def)

lemma stored_justify: "tree_ok P s \<Longrightarrow> stored P s b \<longleftrightarrow> (\<exists>j. kv_block_justify P s b = Inr j)"
  unfolding tree_ok_def stored_def by blast

lemma stored_links:
  assumes "tree_ok P s" and "stored P s b"
  obtains h j cs where "kv_block_height P s b = Inr (Some h)" "kv_block_justify P s b = Inr j"
    "kv_children P s (pc_block j) = Inr cs" "b \<in> set cs"
  using assms unfolding tree_ok_def stored_def by metis

lemma stored_data_len: "tree_ok P s \<Longrightarrow> stored P s b \<Longrightarrow> \<exists>len. kv_block_data_len P s b = Inr (Some len)"
  unfolding tree_ok_def stored_def by metis

lemma stored_parent:
  assumes "tree_ok P s" and "kv_block_justify P s b = Inr j" and "\<not> is_genesis_pc j"
  shows "stored P s (pc_block j)"
proof -
  have "chain_next P s b = Some (pc_block j)" using assms(2,3) by (simp add: chain_next_def)
  with tree_okD(3) [OF assms(1)] show ?thesis unfolding chain_wf_def stored_def by blast
qed

lemma stored_child:
  assumes "tree_ok P s" and "kv_children P s p = Inr cs" and "r \<in> set cs"
  shows "stored P s r" "parent_link P s r p"
proof -
  show l: "parent_link P s r p" using tree_okD(2) [OF assms(1)] assms(2,3) by (simp add: tree_wf_def)
  then show "stored P s r" using stored_justify [OF assms(1)] by (auto simp: parent_link_def)
qed

section \<open>Branches end\<close>

lemma branch_append:
  "branch_loop P s xs = Some bs \<Longrightarrow> branch_loop P s ys = Some cs \<Longrightarrow> branch_loop P s (xs @ ys) = Some (bs @ cs)"
proof (induction bs arbitrary: xs)
  case Nil
  from Nil.prems(1) have "xs = []" by (subst (asm) branch_loop.simps) (auto simp: bind_eq_Some_conv split: list.splits)
  with Nil.prems(2) show ?case by simp
next
  case (Cons b bs)
  from Cons.prems(1) obtain rest where xs: "xs = b # rest"
    and loop: "branch_loop P s (rev (case kv_children P s b of Inr cs \<Rightarrow> cs | Inl _ \<Rightarrow> []) @ rest) = Some bs"
    by (subst (asm) branch_loop.simps) (auto simp: bind_eq_Some_conv split: list.splits)
  from Cons.IH [OF loop Cons.prems(2)] show ?case unfolding xs by (subst branch_loop.simps) simp
qed

lemma branch_each:
  assumes "\<forall>r \<in> set xs. \<exists>bs. branch_loop P s [r] = Some bs"
  shows "\<exists>bs. branch_loop P s xs = Some bs"
  using assms
proof (induction xs)
  case Nil
  show ?case by (subst branch_loop.simps) simp
next
  case (Cons x xs)
  then obtain bs cs where "branch_loop P s [x] = Some bs" "branch_loop P s xs = Some cs" by auto
  from branch_append [OF this] show ?case by auto
qed

lemma branch_total:
  assumes "tree_ok P s"
  shows "kv_block_height P s b = Inr (Some h) \<Longrightarrow> \<exists>bs. branch_loop P s [b] = Some bs"
proof (induction "2 ^ 64 - unat h" arbitrary: b h rule: less_induct)
  case less
  let ?cs = "case kv_children P s b of Inr cs \<Rightarrow> cs | Inl _ \<Rightarrow> []"
  from less.prems have b: "stored P s b" by (auto simp: stored_def)
  then obtain y where y: "parent_link P s b y" using stored_justify [OF assms] by (auto simp: parent_link_def)
  have "\<exists>bs. branch_loop P s [r] = Some bs" if "r \<in> set ?cs" for r
  proof -
    from that obtain cs where cs: "kv_children P s b = Inr cs" "r \<in> set cs" by (cases "kv_children P s b") auto
    from tree_okD(2) [OF assms] stored_child(2) [OF assms cs] obtain hr where hr: "kv_block_height P s r = Inr (Some hr)" "h < hr"
      by (rule parent_link_cases) (use y less.prems in auto)
    have "2 ^ 64 - unat hr < 2 ^ 64 - unat h" using hr(2) unsigned_less [of hr, where ?'a = nat] by (simp add: word_less_nat_alt)
    from less.hyps [OF this hr(1)] show ?thesis .
  qed
  then have "\<exists>bs. branch_loop P s (rev ?cs) = Some bs" by (intro branch_each) simp
  then show ?case by (subst branch_loop.simps) auto
qed

text \<open>A branch contains its root, with every block the blocks listed as its children, and nothing else.\<close>

lemma branch_closed:
  "branch_loop P s stack = Some bs \<Longrightarrow> set stack \<subseteq> set bs \<and> (\<forall>y \<in> set bs. \<forall>cs. kv_children P s y = Inr cs \<longrightarrow> set cs \<subseteq> set bs)"
proof (induction bs arbitrary: stack)
  case Nil
  then show ?case by (subst (asm) branch_loop.simps) (auto simp: bind_eq_Some_conv split: list.splits)
next
  case (Cons b bs)
  from Cons.prems obtain rest where stack: "stack = b # rest"
    and loop: "branch_loop P s (rev (case kv_children P s b of Inr cs \<Rightarrow> cs | Inl _ \<Rightarrow> []) @ rest) = Some bs"
    by (subst (asm) branch_loop.simps) (auto simp: bind_eq_Some_conv split: list.splits)
  from Cons.IH [OF loop] have IH: "set rest \<subseteq> set bs" "\<forall>y \<in> set bs. \<forall>cs. kv_children P s y = Inr cs \<longrightarrow> set cs \<subseteq> set bs"
    "\<And>cs. kv_children P s b = Inr cs \<Longrightarrow> set cs \<subseteq> set bs" by auto
  show ?case unfolding stack set_simps using IH by blast
qed

lemma branch_stored:
  assumes "tree_ok P s"
  shows "branch_loop P s stack = Some bs \<Longrightarrow> (\<And>x. x \<in> set stack \<Longrightarrow> stored P s x) \<Longrightarrow> y \<in> set bs \<Longrightarrow>
    stored P s y \<and> (y \<in> set stack \<or> (\<exists>z \<in> set bs. parent_link P s y z))"
proof (induction bs arbitrary: stack)
  case (Cons b bs)
  let ?cs = "case kv_children P s b of Inr cs \<Rightarrow> cs | Inl _ \<Rightarrow> []"
  from Cons.prems(1) obtain rest where stack: "stack = b # rest" and loop: "branch_loop P s (rev ?cs @ rest) = Some bs"
    by (subst (asm) branch_loop.simps) (auto simp: bind_eq_Some_conv split: list.splits)
  have ch: "stored P s r \<and> parent_link P s r b" if "r \<in> set ?cs" for r
    using that stored_child [OF assms] by (cases "kv_children P s b") auto
  show ?case
  proof (cases "y = b")
    case True
    with Cons.prems(2) stack show ?thesis by simp
  next
    case False
    with Cons.prems(3) have y: "y \<in> set bs" by simp
    have "x \<in> set (rev ?cs @ rest) \<Longrightarrow> stored P s x" for x using ch Cons.prems(2) stack by auto
    from Cons.IH [OF loop this y] ch stack show ?thesis by auto
  qed
qed (auto)

section \<open>What pruning deletes\<close>

text \<open>The blocks on the branches that start at a sibling of \<open>e\<close>.\<close>

definition sibling_blocks :: "prims \<Rightarrow> kv_store \<Rightarrow> crypto_hash \<Rightarrow> crypto_hash set" where
  "sibling_blocks P s e = {x. \<exists>p cs r bs. parent_link P s e p \<and> kv_children P s p = Inr cs \<and> r \<in> set cs \<and> r \<noteq> e \<and>
     blocks_in_branch P s r = Some bs \<and> x \<in> set bs}"

lemma line_not_pruned:
  assumes "tree_ok P s" and "(parent_link P s)\<^sup>*\<^sup>* x e \<or> (parent_link P s)\<^sup>*\<^sup>* e x"
  shows "x \<notin> sibling_blocks P s e"
proof
  assume "x \<in> sibling_blocks P s e"
  then obtain p cs r bs where e: "parent_link P s e p" "kv_children P s p = Inr cs" "r \<in> set cs" "r \<noteq> e"
    and bs: "blocks_in_branch P s r = Some bs" "x \<in> set bs" by (auto simp: sibling_blocks_def)
  note wf = tree_okD(2) [OF assms(1)] and r = stored_child(2) [OF assms(1) e(2,3)]
  from assms(2) show False
  proof
    assume "(parent_link P s)\<^sup>*\<^sup>* x e"
    from sibling_branch [OF wf this e(1) r e(4) bs(1)] bs(2) show False by simp
  next
    assume x: "(parent_link P s)\<^sup>*\<^sup>* e x"
    show False
    proof (cases "e = x")
      case True
      with sibling_branch [OF wf _ e(1) r e(4) bs(1), of x] bs(2) show False by simp
    next
      case False
      with x e(1) have "(parent_link P s)\<^sup>*\<^sup>* p x" by (auto elim: converse_rtranclpE dest: parent_link_fun)
      moreover have "(parent_link P s)\<^sup>*\<^sup>* x r"
        using branch_descendants [OF wf, of "[r]" bs x] bs by (simp add: blocks_in_branch_def)
      ultimately show False using links_acyclic [OF wf _ r] by (meson rtranclp_trans)
    qed
  qed
qed

lemma pruned_child:
  assumes "tree_ok P s" and "p \<in> sibling_blocks P s e" and "kv_children P s p = Inr cs" and "b \<in> set cs"
  shows "b \<in> sibling_blocks P s e"
  using assms(2-4) branch_closed [of P s "[_]"] unfolding sibling_blocks_def blocks_in_branch_def by fast

lemma pruned_parent:
  assumes "tree_ok P s" and "y \<in> sibling_blocks P s e" and "parent_link P s y p"
  shows "stored P s y" "p \<in> sibling_blocks P s e \<or> parent_link P s e p"
proof -
  from assms(2) obtain q cs r bs where e: "parent_link P s e q" "kv_children P s q = Inr cs" "r \<in> set cs" "r \<noteq> e"
    and bs: "branch_loop P s [r] = Some bs" "y \<in> set bs" by (auto simp: sibling_blocks_def blocks_in_branch_def)
  have st: "stored P s x" if "x \<in> set [r]" for x using that stored_child(1) [OF assms(1) e(2,3)] by simp
  from branch_stored [OF assms(1) bs(1) st bs(2)] have y: "stored P s y" "y = r \<or> (\<exists>z \<in> set bs. parent_link P s y z)" by auto
  show "stored P s y" by (rule y(1))
  from y(2) show "p \<in> sibling_blocks P s e \<or> parent_link P s e p"
  proof
    assume "y = r"
    with stored_child(2) [OF assms(1) e(2,3)] assms(3) e(1) show ?thesis by (auto dest: parent_link_fun)
  next
    assume "\<exists>z \<in> set bs. parent_link P s y z"
    with assms(3) have "p \<in> set bs" by (auto dest: parent_link_fun)
    with e bs(1) show ?thesis unfolding sibling_blocks_def blocks_in_branch_def by blast
  qed
qed

section \<open>What a commit does to the links\<close>

text \<open>The variables that make up the tree.\<close>

fun link_path :: "kv_path \<Rightarrow> bool" where
  "link_path (PBlockHeight _) = True" | "link_path (PBlockJustify _) = True" | "link_path (PBlockDataLen _) = True"
| "link_path (PChildren _) = True" | "link_path _ = False"

lemma link_path_simps:
  "link_path p \<Longrightarrow> \<not> is_datum p" "link_path p \<Longrightarrow> p \<noteq> PAppState k" "link_path p \<Longrightarrow> p \<noteq> PBlockAtHeight h"
  "link_path p \<Longrightarrow> p \<noteq> PPendingAppState y" "link_path p \<Longrightarrow> p \<noteq> PStatus y" "link_path p \<Longrightarrow> p \<noteq> PCommittedValidatorSet"
  "link_path p \<Longrightarrow> p \<noteq> PPreviousValidatorSet" "link_path p \<Longrightarrow> p \<noteq> PUpdateHeight" "link_path p \<Longrightarrow> p \<noteq> PUpdateDecided"
  "link_path p \<Longrightarrow> p \<noteq> PHighestCommittedBlock" "link_path p \<Longrightarrow> \<exists>x. of_block p = Some x"
  by (auto elim: link_path.elims)

lemma delete_block_data_link:
  assumes "link_path p" and "of_block p = Some b" and "kv_block_data_len P s b = Inr (Some len)"
  shows "kv_write (delete_block_data P s b wb) t (path_bytes P p) = None"
proof -
  have "kv_write (fold (\<lambda>i. wb_delete P (PBlockDatum b (of_nat i))) xs a) t (path_bytes P p) = kv_write a t (path_bytes P p)" for a and xs :: "nat list"
  proof (induction xs arbitrary: a)
    case (Cons i xs)
    have "wb_frame P p a (wb_delete P (PBlockDatum b (of_nat i)) a)" using assms(1) by (intro wb_frame_delete wb_frame_refl) (auto elim: link_path.elims)
    with Cons.IH show ?case by (simp add: wb_frame_def)
  qed simp
  with assms show ?thesis
    by (cases p) (simp_all add: delete_block_data_def Let_def wb_delete_block_def wb_setter_defs store_simps)
qed

lemma fold_delete_link:
  assumes p: "link_path p" "of_block p = Some x" and len: "\<And>b. b \<in> set bs \<Longrightarrow> \<exists>len. kv_block_data_len P s b = Inr (Some len)"
  shows "kv_write (fold (delete_block_data P s) bs wb) t (path_bytes P p) = (if x \<in> set bs then None else kv_write wb t (path_bytes P p))"
  using len
proof (induction bs arbitrary: wb)
  case (Cons b bs)
  have "kv_write (delete_block_data P s b wb) t (path_bytes P p) = (if x = b then None else kv_write wb t (path_bytes P p))"
  proof (cases "x = b")
    case True
    from Cons.prems [of b] obtain len where "kv_block_data_len P s b = Inr (Some len)" by auto
    with delete_block_data_link [OF p] True show ?thesis by simp
  next
    case False
    with delete_block_data_frame [of p b P wb s] p link_path_simps(1) [OF p(1)] show ?thesis by (simp add: wb_frame_def)
  qed
  with Cons show ?case by auto
qed simp

lemma delete_branch_link:
  assumes ok: "tree_ok P s" and p: "link_path p" "of_block p = Some x" and r: "stored P s r"
  shows "\<exists>bs wb'. blocks_in_branch P s r = Some bs \<and> delete_branch P s r wb = Inr wb' \<and>
    (\<forall>t. kv_write wb' t (path_bytes P p) = (if x \<in> set bs then None else kv_write wb t (path_bytes P p)))"
proof -
  from r branch_total [OF ok] obtain bs where bs: "branch_loop P s [r] = Some bs" by (auto simp: stored_def)
  have "stored P s y" if "y \<in> set bs" for y using branch_stored [OF ok bs _ that] r by simp
  with stored_data_len [OF ok] have "\<And>b. b \<in> set bs \<Longrightarrow> \<exists>len. kv_block_data_len P s b = Inr (Some len)" by blast
  from fold_delete_link [OF p this] bs show ?thesis by (simp add: blocks_in_branch_def delete_branch_def returns_def)
qed

lemma delete_branches_link:
  assumes ok: "tree_ok P s" and p: "link_path p" "of_block p = Some x"
  shows "(\<And>r. r \<in> set rs \<Longrightarrow> stored P s r) \<Longrightarrow> \<exists>wb'. rfold (delete_branch P s) rs wb = Inr wb' \<and>
    (\<forall>t. kv_write wb' t (path_bytes P p) = (if \<exists>r \<in> set rs. \<exists>bs. blocks_in_branch P s r = Some bs \<and> x \<in> set bs then None
       else kv_write wb t (path_bytes P p)))"
proof (induction rs arbitrary: wb)
  case (Cons r rs)
  from delete_branch_link [OF ok p, of r wb] Cons.prems obtain bs wb1 where r: "blocks_in_branch P s r = Some bs" "delete_branch P s r wb = Inr wb1"
    "\<And>t. kv_write wb1 t (path_bytes P p) = (if x \<in> set bs then None else kv_write wb t (path_bytes P p))" by auto
  from Cons.IH [of wb1] Cons.prems obtain wb' where "rfold (delete_branch P s) rs wb1 = Inr wb'"
    "\<And>t. kv_write wb' t (path_bytes P p) = (if \<exists>r \<in> set rs. \<exists>bs. blocks_in_branch P s r = Some bs \<and> x \<in> set bs then None
       else kv_write wb1 t (path_bytes P p))" by auto
  with r show ?case by auto
qed simp

lemma delete_siblings_link:
  assumes ok: "tree_ok P s" and e: "stored P s e"
  obtains wb' q where "delete_siblings P s e wb = Inr wb'" "parent_link P s e q"
    "\<And>p x t. link_path p \<Longrightarrow> of_block p = Some x \<Longrightarrow> kv_write wb' t (path_bytes P p) =
       (if p = PChildren q then Some (VChildren [e]) else if x \<in> sibling_blocks P s e then None else kv_write wb t (path_bytes P p))"
proof -
  from stored_links [OF ok e] obtain h j cs where j: "kv_block_justify P s e = Inr j" and cs: "kv_children P s (pc_block j) = Inr cs" by blast
  have q: "parent_link P s e (pc_block j)" using j by (simp add: parent_link_def)
  let ?rs = "filter (\<lambda>sib. sib \<noteq> e) cs"
  have st: "\<And>r. r \<in> set ?rs \<Longrightarrow> stored P s r" using stored_child(1) [OF ok cs] by simp
  obtain wb1 where w: "rfold (delete_branch P s) ?rs wb = Inr wb1"
    using delete_branches_link [OF ok, of "PBlockHeight 0" 0 ?rs wb] st by auto
  have sib: "(\<exists>r \<in> set ?rs. \<exists>bs. blocks_in_branch P s r = Some bs \<and> x \<in> set bs) \<longleftrightarrow> x \<in> sibling_blocks P s e" for x
  proof -
    have "parent_link P s e p \<longleftrightarrow> p = pc_block j" for p using q parent_link_fun by metis
    with cs show ?thesis by (auto simp: sibling_blocks_def)
  qed
  have "kv_write (wb_set_children P (pc_block j) [e] wb1) t (path_bytes P p) =
     (if p = PChildren (pc_block j) then Some (VChildren [e]) else if x \<in> sibling_blocks P s e then None else kv_write wb t (path_bytes P p))"
    if p: "link_path p" "of_block p = Some x" for p x t
  proof -
    have "kv_write wb1 t (path_bytes P p) = (if x \<in> sibling_blocks P s e then None else kv_write wb t (path_bytes P p))"
      using delete_branches_link [OF ok p, of ?rs wb] st w sib [of x] by auto
    with link_path_simps(1) [OF p(1)] show ?thesis by (auto simp: wb_setter_defs store_simps)
  qed
  with that [of "wb_set_children P (pc_block j) [e] wb1" "pc_block j"] j cs w q show thesis
    by (simp add: delete_siblings_def Let_def)
qed

text \<open>
  How committing the blocks \<open>es\<close> of the tree in \<open>s\<close> turns the links of \<open>t\<close> into those of \<open>u\<close>: every parent keeps one child, the
  branches of the siblings are gone, and the rest is as before.
\<close>

definition pruned :: "prims \<Rightarrow> kv_store \<Rightarrow> crypto_hash list \<Rightarrow> crypto_hash set" where
  "pruned P s es = (\<Union>e \<in> set es. sibling_blocks P s e)"

definition links_after :: "prims \<Rightarrow> kv_store \<Rightarrow> crypto_hash list \<Rightarrow> kv_store \<Rightarrow> kv_store \<Rightarrow> bool" where
  "links_after P s es t u \<longleftrightarrow> (\<forall>p x. link_path p \<longrightarrow> of_block p = Some x \<longrightarrow>
     (\<forall>e \<in> set es. \<forall>q. parent_link P s e q \<longrightarrow> p = PChildren q \<longrightarrow> u (path_bytes P p) = Some (VChildren [e])) \<and>
     ((\<forall>e \<in> set es. \<forall>q. parent_link P s e q \<longrightarrow> p \<noteq> PChildren q) \<longrightarrow>
       u (path_bytes P p) = (if x \<in> pruned P s es then None else t (path_bytes P p))))"

lemma links_after_child: "links_after P s es t u \<Longrightarrow> e \<in> set es \<Longrightarrow> parent_link P s e q \<Longrightarrow> u (path_bytes P (PChildren q)) = Some (VChildren [e])"
  unfolding links_after_def by (drule spec [of _ "PChildren q"]) simp

lemma links_after_other:
  "links_after P s es t u \<Longrightarrow> link_path p \<Longrightarrow> of_block p = Some x \<Longrightarrow> (\<And>e q. e \<in> set es \<Longrightarrow> parent_link P s e q \<Longrightarrow> p \<noteq> PChildren q) \<Longrightarrow>
    u (path_bytes P p) = (if x \<in> pruned P s es then None else t (path_bytes P p))"
  unfolding links_after_def by blast

lemma commit_block_link:
  assumes ok: "tree_ok P s" and e: "stored P s e"
  obtains cb' wb' q where "commit_block P s block e (cb, wb) = Inr (cb', wb')" "parent_link P s e q" "\<forall>t. links_after P s [e] (kv_write wb t) (kv_write wb' t)"
proof -
  obtain h where h: "kv_block_height P s e = Inr (Some h)" using e by (auto simp: stored_def)
  obtain wb1 q where d: "delete_siblings P s e (wb_set_block_at_height P h e wb) = Inr wb1" and q: "parent_link P s e q"
    and w: "\<And>p x t. link_path p \<Longrightarrow> of_block p = Some x \<Longrightarrow> kv_write wb1 t (path_bytes P p) =
       (if p = PChildren q then Some (VChildren [e]) else if x \<in> sibling_blocks P s e then None
        else kv_write (wb_set_block_at_height P h e wb) t (path_bytes P p))"
    using delete_siblings_link [OF ok e, where wb = "wb_set_block_at_height P h e wb"] by metis
  obtain st where st: "kv_validator_set_updates_status P s e = Inr st" "\<And>u. st = Pending u \<Longrightarrow> us_ok u" using tree_okD(6) [OF ok] by blast
  obtain pend where pend: "kv_pending_app_state_updates P s e = Inr pend" using optional_reads(8) [OF tree_okD(4) [OF ok]] by blast
  obtain vs0 where vs0: "kv_committed_validator_set P s = Inr vs0" "vs_ok vs0"
    using well_typed_validator_set [OF tree_okD(1) [OF ok], of PCommittedValidatorSet CommittedValidatorSetKey]
    by (auto simp: kv_committed_validator_set_def)
  have ap: "\<exists>vs'. vs_apply_updates vs0 u = Inr vs'" if "st = Pending u" for u
    using vs.apply_update_set_correct [OF vs0(2) st(2) [OF that]] by (auto simp: vs_apply_updates_eq)
  then have "\<exists>cb' wb'. commit_block P s block e (cb, wb) = Inr (cb', wb')"
    using h d st(1) pend vs0(1) by (cases st) (auto simp: commit_block_def ok_or_def Let_def)
  then obtain cb' wb' where c: "commit_block P s block e (cb, wb) = Inr (cb', wb')" by blast
  from c have "kv_write wb' t (path_bytes P p) = kv_write wb1 t (path_bytes P p)" if p: "link_path p" for p t
  proof (cases rule: commit_block_cases)
    case (1 h' wb1' pending status wb2 wb3)
    have "wb1' = wb1" using 1(1,2) h d by simp
    then have "wb_frame P p wb1 wb2"
      using link_path_simps [OF p] by (auto simp: 1(5) wb_setter_defs intro!: wb_frame_intros split: option.splits)
    then have "wb_frame P p wb1 wb3"
      using 1(7,8) link_path_simps [OF p] by (cases status) (auto simp: wb_setter_defs intro!: wb_frame_intros)
    then have "wb_frame P p wb1 wb'" using link_path_simps [OF p] by (auto simp: 1(6) wb_setter_defs intro!: wb_frame_intros)
    then show ?thesis by (simp add: wb_frame_def)
  qed
  moreover have "kv_write (wb_set_block_at_height P h e wb) t (path_bytes P p) = kv_write wb t (path_bytes P p)" if "link_path p" for p t
    using wb_frame_block_at_height [OF link_path_simps(3) [OF that] wb_frame_refl, of P wb h e] by (simp add: wb_frame_def)
  ultimately have "kv_write wb' t (path_bytes P p) =
       (if p = PChildren q then Some (VChildren [e]) else if x \<in> sibling_blocks P s e then None else kv_write wb t (path_bytes P p))"
    if "link_path p" "of_block p = Some x" for p x t using w that by simp
  moreover have "parent_link P s e r \<longleftrightarrow> r = q" for r using q parent_link_fun by metis
  ultimately have "links_after P s [e] (kv_write wb t) (kv_write wb' t)" for t by (simp add: links_after_def pruned_def)
  then show thesis by (intro that [OF c q]) simp
qed

lemma links_after_Cons:
  assumes "links_after P s [e] t u" and "links_after P s es u v" and q: "parent_link P s e q"
    and "\<And>e'. e' \<in> set es \<Longrightarrow> q \<notin> sibling_blocks P s e' \<and> (parent_link P s e' q \<longrightarrow> e' = e)"
  shows "links_after P s (e # es) t v"
  unfolding links_after_def
proof (intro allI impI conjI ballI)
  fix p x f r
  assume p: "link_path p" "of_block p = Some x" and f: "f \<in> set (e # es)" "parent_link P s f r" "p = PChildren r"
  show "v (path_bytes P p) = Some (VChildren [f])"
  proof (cases "f \<in> set es")
    case True
    from links_after_child [OF assms(2) True f(2)] f(3) show ?thesis by simp
  next
    case False
    with f(1) have f1: "f = e" by simp
    with f(2) q have r: "r = q" by (auto dest: parent_link_fun)
    have "v (path_bytes P p) = (if x \<in> pruned P s es then None else u (path_bytes P p))"
      by (rule links_after_other [OF assms(2) p]) (use assms(4) f(3) r False f1 in auto)
    moreover have "x \<notin> pruned P s es" using p(2) f(3) r assms(4) by (auto simp: pruned_def)
    ultimately show ?thesis using links_after_child [OF assms(1) _ q] f(3) r f1 by simp
  qed
next
  fix p x
  assume p: "link_path p" "of_block p = Some x" and none: "\<forall>f \<in> set (e # es). \<forall>r. parent_link P s f r \<longrightarrow> p \<noteq> PChildren r"
  have "v (path_bytes P p) = (if x \<in> pruned P s es then None else u (path_bytes P p))"
    by (rule links_after_other [OF assms(2) p]) (use none in auto)
  moreover have "u (path_bytes P p) = (if x \<in> pruned P s [e] then None else t (path_bytes P p))"
    by (rule links_after_other [OF assms(1) p]) (use none in auto)
  ultimately show "v (path_bytes P p) = (if x \<in> pruned P s (e # es) then None else t (path_bytes P p))" by (simp add: pruned_def)
qed

text \<open>Blocks one of which is an ancestor of the other: no commit prunes the parent of another.\<close>

definition compatible :: "prims \<Rightarrow> kv_store \<Rightarrow> crypto_hash list \<Rightarrow> bool" where
  "compatible P s es \<longleftrightarrow> (\<forall>e \<in> set es. stored P s e \<and>
     (\<forall>e' \<in> set es. \<forall>q. parent_link P s e q \<longrightarrow> q \<notin> sibling_blocks P s e' \<and> (parent_link P s e' q \<longrightarrow> e' = e)))"

lemma compatible_Cons:
  assumes "compatible P s (e # es)"
  shows "compatible P s es" "stored P s e"
    "parent_link P s e q \<Longrightarrow> e' \<in> set es \<Longrightarrow> q \<notin> sibling_blocks P s e' \<and> (parent_link P s e' q \<longrightarrow> e' = e)"
  using assms by (simp_all add: compatible_def)

lemma commit_links:
  assumes ok: "tree_ok P s"
  shows "compatible P s es \<Longrightarrow> \<exists>cb' wb'. rfold (commit_block P s block) es (cb, wb) = Inr (cb', wb') \<and>
    (\<forall>t. links_after P s es (kv_write wb t) (kv_write wb' t))"
proof (induction es arbitrary: cb wb)
  case Nil
  show ?case by (simp add: links_after_def pruned_def)
next
  case (Cons e es)
  note line = compatible_Cons [OF Cons.prems]
  obtain cb1 wb1 q where c: "commit_block P s block e (cb, wb) = Inr (cb1, wb1)" "parent_link P s e q"
    "\<forall>t. links_after P s [e] (kv_write wb t) (kv_write wb1 t)"
    by (rule commit_block_link [OF ok line(2), where block = block and cb = cb and wb = wb])
  from Cons.IH [OF line(1), of cb1 wb1] obtain cb' wb' where
    r: "rfold (commit_block P s block) es (cb1, wb1) = Inr (cb', wb')" "\<forall>t. links_after P s es (kv_write wb1 t) (kv_write wb' t)" by blast
  have "links_after P s (e # es) (kv_write wb t) (kv_write wb' t)" for t
    by (rule links_after_Cons [OF spec [OF c(3)] spec [OF r(2)] c(2) line(3) [OF c(2)]])
  with c(1) r(1) show ?case by simp
qed

lemma ancestors_compatible:
  assumes ok: "tree_ok P s" and es: "\<And>e. e \<in> set es \<Longrightarrow> stored P s e \<and> (parent_link P s)\<^sup>*\<^sup>* c e"
  shows "compatible P s es"
  unfolding compatible_def
proof (intro ballI conjI allI impI)
  show "stored P s e" if "e \<in> set es" for e using es [OF that] by simp
  fix e e' q
  assume e: "e \<in> set es" "e' \<in> set es" "parent_link P s e q"
  from es e(1,3) have "(parent_link P s)\<^sup>*\<^sup>* c q" by (meson rtranclp.rtrancl_into_rtrancl)
  from links_linear [OF this] es [OF e(2)] show "q \<notin> sibling_blocks P s e'" by (intro line_not_pruned [OF ok]) blast
  assume e': "parent_link P s e' q"
  show "e' = e"
  proof (rule ccontr)
    assume ne: "e' \<noteq> e"
    from links_linear [of P s c e e'] es [OF e(1)] es [OF e(2)] consider "(parent_link P s)\<^sup>*\<^sup>* e e'" | "(parent_link P s)\<^sup>*\<^sup>* e' e" by blast
    then show False
    proof cases
      case 1
      with ne e(3) have "(parent_link P s)\<^sup>*\<^sup>* q e'" by (auto elim: converse_rtranclpE dest: parent_link_fun)
      with links_acyclic [OF tree_okD(2) [OF ok] _ e'] show False .
    next
      case 2
      with ne e' have "(parent_link P s)\<^sup>*\<^sup>* q e" by (auto elim: converse_rtranclpE dest: parent_link_fun)
      with links_acyclic [OF tree_okD(2) [OF ok] _ e(3)] show False .
    qed
  qed
qed

lemma committed_height_readable:
  assumes "typed P s"
  shows "\<exists>mh. bt_highest_committed_block_height P s = Inr mh"
proof -
  from optional_reads(1) [OF assms] obtain hc where "kv_highest_committed_block P s = Inr hc" by blast
  with optional_reads(5) [OF assms] show ?thesis by (cases hc) (simp_all add: bt_highest_committed_block_height_def)
qed

lemma commit_total:
  assumes ok: "tree_ok P s" and c: "stored P s c"
  obtains cb wb' es where "bt_commit P s c wb = Inr (cb, wb')" "\<And>t. links_after P s es (kv_write wb t) (kv_write wb' t)"
    "\<And>e. e \<in> set es \<Longrightarrow> stored P s e \<and> (parent_link P s)\<^sup>*\<^sup>* c e"
    "es = [] \<Longrightarrow> wb' = wb" "\<And>t. es \<noteq> [] \<Longrightarrow> kv_write wb' t (path_bytes P PHighestCommittedBlock) = Some (VHash c)"
proof -
  from c obtain h where h: "kv_block_height P s c = Inr (Some h)" by (auto simp: stored_def)
  obtain mh where mh: "bt_highest_committed_block_height P s = Inr mh"
    using committed_height_readable [OF tree_okD(4) [OF ok]] by blast
  from walks_agree [OF tree_okD(3) [OF ok] h, of mh] obtain l where l: "uncommitted_loop P s mh c = Some (Inr l)" by blast
  have es: "stored P s e \<and> (parent_link P s)\<^sup>*\<^sup>* c e" if "e \<in> set (rev l)" for e
  proof -
    from uncommitted_path [OF l] that have p: "chain_path P s c e" by simp
    have "stored P s e" using p
      by (cases rule: rtranclp.cases) (use c tree_okD(3) [OF ok] in \<open>auto simp: chain_wf_def stored_def\<close>)
    with chain_path_links [OF p] show ?thesis by simp
  qed
  from commit_links [OF ok ancestors_compatible [OF ok es], of "rev l" c "[]" wb] obtain cb wb' where
    r: "rfold (commit_block P s c) (rev l) ([], wb) = Inr (cb, wb')" "\<And>t. links_after P s (rev l) (kv_write wb t) (kv_write wb' t)" by blast
  have "kv_write wb' t (path_bytes P PHighestCommittedBlock) = Some (VHash c)" if "rev l \<noteq> []" for t
  proof -
    from that uncommitted_loop_unfold [OF l] obtain l' where "l = c # l'" by auto
    with r(1) show ?thesis by (auto simp: rbind_eq_Inr_iff dest: commit_block_highest)
  qed
  moreover have "bt_commit P s c wb = Inr (cb, wb')" using mh l r(1) by (simp add: bt_commit_def returns_def)
  moreover have "wb' = wb" if "rev l = []" using r(1) that by simp
  ultimately show thesis using r(2) es by (intro that)
qed

section \<open>A commit keeps the tree\<close>

lemma get_None:
  "s k = None \<Longrightarrow> kv_get_opt s k f key = Inr None" "s k = None \<Longrightarrow> kv_get_req s k f key \<noteq> Inr x"
  by (simp_all add: kv_get_opt_def kv_get_req_def ok_or_def)

lemma get_cong: "s k = t k \<Longrightarrow> kv_get_opt s k f key = kv_get_opt t k f key" "s k = t k \<Longrightarrow> kv_get_req s k f key = kv_get_req t k f key"
  by (simp_all add: kv_get_opt_def kv_get_req_def)

lemma links_after_reads:
  assumes "links_after P s es s u"
  shows "kv_block_height P u x = (if x \<in> pruned P s es then Inr None else kv_block_height P s x)"
    "kv_block_justify P u x = Inr j \<longleftrightarrow> x \<notin> pruned P s es \<and> kv_block_justify P s x = Inr j"
    "x \<notin> pruned P s es \<Longrightarrow> kv_block_data_len P u x = kv_block_data_len P s x"
    "e \<in> set es \<Longrightarrow> parent_link P s e x \<Longrightarrow> kv_children P u x = Inr [e]"
    "(\<And>e. e \<in> set es \<Longrightarrow> \<not> parent_link P s e x) \<Longrightarrow> kv_children P u x = Inr cs \<longleftrightarrow> x \<notin> pruned P s es \<and> kv_children P s x = Inr cs"
proof -
  note o = links_after_other [OF assms]
  show "kv_block_height P u x = (if x \<in> pruned P s es then Inr None else kv_block_height P s x)"
    using o [of "PBlockHeight x" x] by (auto simp: kv_block_height_def get_None intro: get_cong)
  show "kv_block_justify P u x = Inr j \<longleftrightarrow> x \<notin> pruned P s es \<and> kv_block_justify P s x = Inr j"
    using o [of "PBlockJustify x" x] by (cases "x \<in> pruned P s es") (simp_all add: kv_block_justify_def get_None get_cong(2) [of u _ s])
  show "x \<notin> pruned P s es \<Longrightarrow> kv_block_data_len P u x = kv_block_data_len P s x"
    using o [of "PBlockDataLen x" x] by (auto simp: kv_block_data_len_def intro: get_cong)
  show "e \<in> set es \<Longrightarrow> parent_link P s e x \<Longrightarrow> kv_children P u x = Inr [e]"
    using links_after_child [OF assms] by (simp add: kv_children_def kv_get_req_def ok_or_def)
  show "kv_children P u x = Inr cs \<longleftrightarrow> x \<notin> pruned P s es \<and> kv_children P s x = Inr cs" if "\<And>e. e \<in> set es \<Longrightarrow> \<not> parent_link P s e x"
  proof -
    have "u (path_bytes P (PChildren x)) = (if x \<in> pruned P s es then None else s (path_bytes P (PChildren x)))"
      by (rule o) (use that in auto)
    then show ?thesis by (cases "x \<in> pruned P s es") (simp_all add: kv_children_def get_None get_cong(2) [of u _ s])
  qed
qed

text \<open>The writes of a commit never make the status of a block an unreadable or an ill-formed one.\<close>

definition statuses_ok :: "prims \<Rightarrow> kv_store \<Rightarrow> bool" where
  "statuses_ok P s \<longleftrightarrow> (\<forall>b. \<exists>st. kv_validator_set_updates_status P s b = Inr st \<and> (\<forall>u. st = Pending u \<longrightarrow> us_ok u))"

fun status_write :: "prims \<Rightarrow> kv_op \<Rightarrow> bool" where
  "status_write P (KSet k v) \<longleftrightarrow> (\<forall>b. k = path_bytes P (PStatus b) \<longrightarrow> v = VStatus CommittedBytes)"
| "status_write P (KDelete k) \<longleftrightarrow> True"

interpretation statuses: commit_writes P s "status_write P" for P s
  by unfold_locales (simp_all add: store_simps, simp add: vconcat_def block_prefix_def path_bytes.simps)

lemma statuses_ok_write: "status_write P op \<Longrightarrow> statuses_ok P s \<Longrightarrow> statuses_ok P (kv_apply op s)"
  by (cases op) (auto simp: statuses_ok_def kv_validator_set_updates_status_def kv_get_opt_def ok_or_def map_ed25519_def)

lemma links_keep:
  assumes ok: "tree_ok P s" and after: "links_after P s es s u"
    and es: "\<And>e. e \<in> set es \<Longrightarrow> stored P s e \<and> (parent_link P s)\<^sup>*\<^sup>* c e"
    and u: "well_typed P u" "statuses_ok P u" "\<And>c. kv_highest_committed_block P u = Inr (Some c) \<Longrightarrow> stored P u c"
  shows "tree_ok P u"
proof -
  note reads = links_after_reads [OF after]
  have line: "e \<notin> pruned P s es" if "e \<in> set es" for e
    using line_not_pruned [OF ok] links_linear es [OF that] es unfolding pruned_def by blast
  have down: "b \<in> pruned P s es" if "p \<in> pruned P s es" "kv_children P s p = Inr cs" "b \<in> set cs" for p b cs
    using that pruned_child [OF ok] unfolding pruned_def by blast
  have up: "p \<notin> pruned P s es" if "b \<notin> pruned P s es" "kv_block_justify P s b = Inr j" "pc_block j = p" for b j p
  proof -
    from that(2) stored_justify [OF ok] have "stored P s b" by blast
    from stored_links [OF ok this] that(2,3) obtain cs where "kv_children P s p = Inr cs" "b \<in> set cs" by auto
    with down that(1) show ?thesis by blast
  qed
  have link: "parent_link P u x y \<longleftrightarrow> x \<notin> pruned P s es \<and> parent_link P s x y" for x y by (auto simp: parent_link_def reads(2))
  have "chain_wf P u"
    unfolding chain_wf_def
  proof (intro allI impI)
    fix b p assume "chain_next P u b = Some p"
    then obtain j where "kv_block_justify P u b = Inr j" "\<not> is_genesis_pc j" "pc_block j = p"
      by (auto simp: chain_next_def res_ok_def split: sum.splits if_splits)
    then have j: "b \<notin> pruned P s es" "kv_block_justify P s b = Inr j" "\<not> is_genesis_pc j" "pc_block j = p" by (simp_all add: reads(2))
    then have "chain_next P s b = Some p" by (simp add: chain_next_def)
    with tree_okD(3) [OF ok] up [OF j(1,2,4)] j(1)
    show "\<exists>hb hp. kv_block_height P u b = Inr (Some hb) \<and> kv_block_height P u p = Inr (Some hp) \<and> hp < hb"
      by (simp add: chain_wf_def reads(1))
  qed
  moreover have "parent_link P u r p" if ch: "kv_children P u p = Inr cs" "r \<in> set cs" for p cs r
  proof (cases "\<exists>e \<in> set es. parent_link P s e p")
    case True
    then obtain e where e: "e \<in> set es" "parent_link P s e p" by blast
    with reads(4) [OF e] ch line [OF e(1)] show ?thesis by (simp add: link)
  next
    case False
    with reads(5) ch(1) have p: "p \<notin> pruned P s es" "kv_children P s p = Inr cs" by blast+
    with stored_child(2) [OF ok p(2) ch(2)] pruned_parent(2) [OF ok, of r _ p] False show ?thesis by (auto simp: link pruned_def)
  qed
  ultimately have "tree_wf P u" using tree_okD(2) [OF ok] by (auto simp: tree_wf_def link)
  moreover have "\<exists>j. kv_block_justify P u b = Inr j" if "kv_block_height P u b = Inr (Some h)" for b h
    using that stored_justify [OF ok, of b] by (auto simp: reads(1,2) stored_def split: if_splits)
  moreover have "(\<exists>h. kv_block_height P u b = Inr (Some h)) \<and> (\<exists>len. kv_block_data_len P u b = Inr (Some len)) \<and>
      (\<exists>cs. kv_children P u (pc_block j) = Inr cs \<and> b \<in> set cs)" if "kv_block_justify P u b = Inr j" for b j
  proof -
    from that have b: "b \<notin> pruned P s es" "kv_block_justify P s b = Inr j" by (simp_all add: reads(2))
    then have st: "stored P s b" using stored_justify [OF ok] by blast
    from stored_links [OF ok st] b(2) obtain cs where cs: "kv_children P s (pc_block j) = Inr cs" "b \<in> set cs" by auto
    have "\<exists>cs. kv_children P u (pc_block j) = Inr cs \<and> b \<in> set cs"
    proof (cases "\<exists>e \<in> set es. parent_link P s e (pc_block j)")
      case True
      then obtain e where e: "e \<in> set es" "parent_link P s e (pc_block j)" by blast
      have "b = e"
      proof (rule ccontr)
        assume "b \<noteq> e"
        from st branch_total [OF ok] obtain bs where bs: "blocks_in_branch P s b = Some bs" by (auto simp: stored_def blocks_in_branch_def)
        with branch_closed [of P s "[b]" bs] have "b \<in> set bs" by (simp add: blocks_in_branch_def)
        with e cs bs \<open>b \<noteq> e\<close> have "b \<in> sibling_blocks P s e" unfolding sibling_blocks_def by blast
        with e(1) b(1) show False by (auto simp: pruned_def)
      qed
      with reads(4) [OF e] show ?thesis by simp
    next
      case False
      with reads(5) up [OF b] cs show ?thesis by blast
    qed
    with stored_data_len [OF ok st] st b(1) show ?thesis by (simp add: reads(1,3) stored_def)
  qed
  ultimately show ?thesis using u unfolding tree_ok_def statuses_ok_def stored_def by blast
qed

section \<open>An update never fails\<close>

lemma stored_grandparent:
  assumes "tree_ok P s" and "stored P s b" and "kv_block_justify P s b = Inr j" and "\<not> is_genesis_pc j"
  obtains j' where "stored P s (pc_block j)" "kv_block_justify P s (pc_block j) = Inr j'"
  using stored_parent [OF assms(1,3,4)] stored_justify [OF assms(1)] that by blast

lemma not_committed_readable:
  assumes "tree_ok P s" and "stored P s b"
  shows "\<exists>r. not_committed_yet P s b = Inr r"
  using assms(2) committed_height_readable [OF tree_okD(4) [OF assms(1)]] by (auto simp: not_committed_yet_def stored_def ok_or_def)

lemma lock_readable:
  assumes ok: "tree_ok P s" and j: "is_genesis_pc j \<or> stored P s (pc_block j)"
  shows "\<exists>r. pc_to_lock P s j = Inr r"
proof (cases "is_genesis_pc j")
  case False
  with j stored_justify [OF ok] obtain k where "kv_block_justify P s (pc_block j) = Inr k" by blast
  moreover obtain locked where "kv_locked_pc P s = Inr locked" using required_reads(2) [OF tree_okD(1) [OF ok]] by blast
  ultimately show ?thesis by (simp add: pc_to_lock_def split: phase.splits)
qed (simp add: pc_to_lock_def)

lemma commit_readable:
  assumes ok: "tree_ok P s" and j: "is_genesis_pc j \<or> stored P s (pc_block j)"
  shows "\<exists>r. block_to_commit P s j = Inr r \<and> (\<forall>c. r = Some c \<longrightarrow> stored P s c)"
proof (cases "is_genesis_pc j")
  case False
  with j have st: "stored P s (pc_block j)" by simp
  then obtain k where k: "kv_block_justify P s (pc_block j) = Inr k" using stored_justify [OF ok] by blast
  have generic: ?thesis if g: "pc_phase j = Generic"
  proof (cases "is_genesis_pc k")
    case nk: False
    from stored_grandparent [OF ok st k nk] obtain l where l: "stored P s (pc_block k)" "kv_block_justify P s (pc_block k) = Inr l" .
    show ?thesis
    proof (cases "is_genesis_pc l")
      case nl: False
      from stored_parent [OF ok l(2) nl] not_committed_readable [OF ok] have "stored P s (pc_block l)" "\<exists>r. not_committed_yet P s (pc_block l) = Inr r" by blast+
      with False k nk l nl g show ?thesis by (auto simp: block_to_commit_def)
    qed (use False k nk l g in \<open>simp add: block_to_commit_def\<close>)
  qed (use False k g in \<open>simp add: block_to_commit_def\<close>)
  show ?thesis
  proof (cases "pc_phase j = Generic")
    case ng: False
    with not_committed_readable [OF ok st] False st show ?thesis by (cases "pc_phase j") (auto simp: block_to_commit_def)
  qed (rule generic)
qed (simp add: block_to_commit_def)

lemma update_runs:
  assumes ok: "tree_ok P s" and j: "is_genesis_pc j \<or> stored P s (pc_block j)"
  shows "\<exists>r evs s'. bt_update P pub j s = Inr (r, evs, s')"
proof -
  obtain hpc where hpc: "kv_highest_pc P s = Inr hpc" using required_reads(1) [OF tree_okD(1) [OF ok]] by blast
  obtain lock where lock: "pc_to_lock P s j = Inr lock" using lock_readable [OF ok j] by blast
  obtain com where com: "block_to_commit P s j = Inr com" "\<And>c. com = Some c \<Longrightarrow> stored P s c" using commit_readable [OF ok j] by blast
  have run: "\<exists>r. (case com of None \<Rightarrow> Inr ([], wb) | Some c \<Rightarrow> bt_commit P s c wb) = Inr r" for wb
  proof (cases com)
    case (Some c)
    from com(2) [OF Some] obtain cb wb' where "bt_commit P s c wb = Inr (cb, wb')" by (rule commit_total [OF ok])
    with Some show ?thesis by simp
  qed simp
  define up where "up = (if pc_view j > pc_view hpc then (wb_set_highest_pc P j wb_new, Some j) else (wb_new, None))"
  obtain wb hi where wb: "up = (wb, hi)" by (cases up)
  from run [of "case lock of None \<Rightarrow> wb | Some pc \<Rightarrow> wb_set_locked_pc P pc wb"] obtain cb wb' where
    "(case com of None \<Rightarrow> Inr ([], case lock of None \<Rightarrow> wb | Some pc \<Rightarrow> wb_set_locked_pc P pc wb)
      | Some c \<Rightarrow> bt_commit P s c (case lock of None \<Rightarrow> wb | Some pc \<Rightarrow> wb_set_locked_pc P pc wb)) = Inr (cb, wb')" by force
  with hpc lock com(1) wb show ?thesis by (simp add: bt_update_def Let_def up_def)
qed

lemma update_links:
  assumes ok: "tree_ok P s" and j: "is_genesis_pc j \<or> stored P s (pc_block j)" and up: "bt_update P pub j s = Inr (r, evs, s')"
  obtains es c where "links_after P s es s s'" "\<And>e. e \<in> set es \<Longrightarrow> stored P s e \<and> (parent_link P s)\<^sup>*\<^sup>* c e"
    "es = [] \<and> kv_highest_committed_block P s' = kv_highest_committed_block P s \<or> stored P s c \<and> kv_highest_committed_block P s' = Inr (Some c)"
  using up
proof (cases rule: bt_update_cases)
  case (1 highest_pc to_lock to_commit cb wb0 wb1)
  have wb0: "kv_write wb0 s (path_bytes P p) = s (path_bytes P p)" if "p \<noteq> PHighestPC" "p \<noteq> PLockedPC" for p
    using that by (auto simp: 1(4) wb_setter_defs store_simps split: option.splits)
  have dec: "s' (path_bytes P p) = kv_write wb1 s (path_bytes P p)" if "p \<noteq> PUpdateDecided" for p
    using that by (auto simp: 1(7) wb_setter_defs store_simps)
  have links: "links_after P s es s s'" if "links_after P s es (kv_write wb0 s) (kv_write wb1 s)" for es
  proof -
    have "kv_write wb0 s (path_bytes P p) = s (path_bytes P p)" "s' (path_bytes P p) = kv_write wb1 s (path_bytes P p)" if "link_path p" for p
      using that by (auto intro!: wb0 dec)
    with that show ?thesis unfolding links_after_def by simp
  qed
  show thesis
  proof (cases to_commit)
    case None
    with 1(5) have "wb1 = wb0" by simp
    moreover from this have "kv_highest_committed_block P s' = kv_highest_committed_block P s"
      unfolding kv_highest_committed_block_def by (intro get_cong) (simp add: wb0 dec)
    moreover have "links_after P s [] t t" for t by (simp add: links_after_def pruned_def)
    ultimately show thesis using links by (intro that [of "[]"]) simp_all
  next
    case (Some c)
    with commit_readable [OF ok j] 1(3) have c: "stored P s c" by simp
    obtain cb' wb' es where com: "bt_commit P s c wb0 = Inr (cb', wb')" "\<And>t. links_after P s es (kv_write wb0 t) (kv_write wb' t)"
      "\<And>e. e \<in> set es \<Longrightarrow> stored P s e \<and> (parent_link P s)\<^sup>*\<^sup>* c e"
      "es = [] \<Longrightarrow> wb' = wb0" "\<And>t. es \<noteq> [] \<Longrightarrow> kv_write wb' t (path_bytes P PHighestCommittedBlock) = Some (VHash c)"
      using commit_total [OF ok c, where wb = wb0] by blast
    from 1(5) Some com(1) have w: "wb' = wb1" by simp
    have "kv_highest_committed_block P s' = (if es = [] then kv_highest_committed_block P s else Inr (Some c))"
    proof (cases "es = []")
      case True
      with com(4) w have "wb1 = wb0" by simp
      with True show ?thesis unfolding kv_highest_committed_block_def by (simp add: get_cong(1) [of s' _ s] wb0 dec)
    next
      case False
      with com(5) w dec show ?thesis by (simp add: kv_highest_committed_block_def kv_get_opt_def ok_or_def)
    qed
    with that [OF links [OF com(2) [unfolded w]] com(3)] c show thesis by (simp split: if_splits)
  qed
qed

lemma update_keeps_tree_ok:
  assumes ok: "tree_ok P s" and vs: "vk_parse_exact P" and j: "is_genesis_pc j \<or> stored P s (pc_block j)"
    and up: "bt_update P pub j s = Inr (r, evs, s')"
  shows "tree_ok P s'"
proof -
  obtain es c where u: "links_after P s es s s'" "\<And>e. e \<in> set es \<Longrightarrow> stored P s e \<and> (parent_link P s)\<^sup>*\<^sup>* c e"
    "es = [] \<and> kv_highest_committed_block P s' = kv_highest_committed_block P s \<or> stored P s c \<and> kv_highest_committed_block P s' = Inr (Some c)"
    using update_links [OF ok j up] by blast
  obtain wb where wb: "s' = kv_write wb s" "writes_ok (status_write P) wb"
    by (rule statuses.update_ok [OF up]) (simp_all add: store_simps)
  have "statuses_ok P s" using tree_okD(6) [OF ok] by (simp add: statuses_ok_def)
  then have st: "statuses_ok P s'" unfolding wb(1) by (rule writes_ok_kept [OF wb(2)]) (rule statuses_ok_write)
  have "stored P s' x" if "kv_highest_committed_block P s' = Inr (Some x)" for x
  proof -
    have "stored P s x \<and> x \<notin> pruned P s es" using u(3)
    proof (elim disjE conjE)
      assume "es = []" "kv_highest_committed_block P s' = kv_highest_committed_block P s"
      with that tree_okD(5) [OF ok] show ?thesis by (simp add: pruned_def)
    next
      assume "stored P s c" "kv_highest_committed_block P s' = Inr (Some c)"
      with that u(2) line_not_pruned [OF ok] show ?thesis by (auto simp: pruned_def)
    qed
    with links_after_reads(1) [OF u(1), of x] show ?thesis by (simp add: stored_def)
  qed
  from links_keep [OF ok u(1,2) well_typed_update [OF up tree_okD(1) [OF ok] vs] st this] show ?thesis .
qed

text \<open>
  C8. An update never fails. On a tree whose blocks have all their links, updating it with the genesis certificate or a certificate for a
  stored block always returns: no variable is missing, no walk along the chain or over a pruned branch runs
  forever, no validator set update overflows. And the tree it leaves is such a tree again, although it may have committed a
  chain of blocks and deleted every branch that conflicts with them.
\<close>

lemma update_total:
  assumes "tree_ok P s" and "vk_parse_exact P" and "is_genesis_pc j \<or> stored P s (pc_block j)"
  shows "\<exists>r evs s'. bt_update P pub j s = Inr (r, evs, s') \<and> tree_ok P s'"
  using update_runs [OF assms(1,3)] update_keeps_tree_ok [OF assms] by blast

section \<open>Initialization and insertion\<close>

lemma initialize_reads:
  fixes P u vss
  defines "s \<equiv> bt_initialize P u vss Map.empty"
  shows "kv_block_height P s b = Inr None" "kv_block_justify P s b \<noteq> Inr j" "kv_validator_set_updates_status P s b = Inr NoUpdates"
    "kv_highest_committed_block P s = Inr None"
proof -
  let ?w = "wb_apply_app_state_updates P u wb_new"
  have old: "kv_write ?w Map.empty (path_bytes P p) = None" if "\<And>k. p \<noteq> PAppState k" for p
    using wb_apply_app_state_updates_frame [OF that] by (simp add: store_simps)
  have none: "s (path_bytes P p) = None" if "of_block p \<noteq> None \<or> p = PHighestCommittedBlock" "\<not> is_datum p" for p
    using that by (cases p; cases "vss_update_height vss") (simp_all add: s_def bt_initialize_def Let_def wb_setter_defs store_simps old)
  then show "kv_block_height P s b = Inr None" "kv_block_justify P s b \<noteq> Inr j" "kv_validator_set_updates_status P s b = Inr NoUpdates"
    "kv_highest_committed_block P s = Inr None"
    by (simp_all add: kv_getter_defs get_None map_ed25519_def)
qed

lemma initialize_tree_ok: "vss_ok P vss \<Longrightarrow> tree_ok P (bt_initialize P u vss Map.empty)"
  using well_typed_initialize bt_initialize_tree_wf by (simp add: tree_ok_def initialize_reads)

text \<open>
  A block that may be inserted: its parent is stored at a smaller height unless its justify is the genesis certificate, its hash is new or that
  of the same block, and its validator set updates are well-formed with keys that parse.
\<close>

definition insertable :: "prims \<Rightarrow> kv_store \<Rightarrow> block \<Rightarrow> bool" where
  "insertable P s b \<longleftrightarrow> b_hash b \<noteq> pc_block genesis_pc \<and>
     (is_genesis_pc (b_justify b) \<or> (\<exists>hp. kv_block_height P s (pc_block (b_justify b)) = Inr (Some hp) \<and> hp < b_height b)) \<and>
     (stored P s (b_hash b) \<longrightarrow> kv_block_height P s (b_hash b) = Inr (Some (b_height b)) \<and> kv_block_justify P s (b_hash b) = Inr (b_justify b))"

definition updates_fit :: "prims \<Rightarrow> validator_set_updates option \<Rightarrow> bool" where
  "updates_fit P vu \<longleftrightarrow> (\<forall>u. vu = Some u \<longrightarrow> us_ok u \<and> (\<forall>k \<in> fst ` set (us_inserts u) \<union> set (us_deletes u). vk_from_bytes P k = Some k))"

lemma bt_insert_data_len:
  "kv_block_data_len P (bt_insert P b au vu s) x = (if x = b_hash b then Inr (Some (data_len_of (b_data b))) else kv_block_data_len P s x)"
  by (auto simp: kv_block_data_len_def kv_get_opt_def bt_insert_path set_block_frame store_simps)
     (use set_block_fields(4) [of P b wb_new s] in \<open>auto simp: kv_block_data_len_def kv_get_opt_def\<close>)

lemma bt_insert_status:
  assumes "updates_fit P vu"
  shows "kv_validator_set_updates_status P (bt_insert P b au vu s) x =
    (if x = b_hash b \<and> vu \<noteq> None then Inr (Pending (the vu)) else kv_validator_set_updates_status P s x)"
  using assms vsu_bytes_roundtrip [of "the vu" P]
  by (auto simp: updates_fit_def kv_validator_set_updates_status_def kv_get_opt_def bt_insert_path set_block_frame store_simps map_ed25519_def)

lemma insert_keeps_tree_ok:
  assumes ok: "tree_ok P s" and b: "insertable P s b" and vu: "updates_fit P vu"
  shows "tree_ok P (bt_insert P b au vu s)"
proof -
  let ?t = "bt_insert P b au vu s" and ?p = "pc_block (b_justify b)"
  have height: "kv_block_height P ?t x = Inr (Some h)" if "kv_block_height P s x = Inr (Some h)" for x h
    using b that by (auto simp: bt_insert_height insertable_def stored_def)
  have link: "parent_link P ?t x y" if "parent_link P s x y" for x y
    using b that stored_justify [OF ok, of x] by (auto simp: bt_insert_justify insertable_def parent_link_def)
  have "chain_wf P ?t"
    unfolding chain_wf_def
  proof (intro allI impI)
    fix x p assume n: "chain_next P ?t x = Some p"
    show "\<exists>hb hp. kv_block_height P ?t x = Inr (Some hb) \<and> kv_block_height P ?t p = Inr (Some hp) \<and> hp < hb"
    proof (cases "x = b_hash b")
      case True
      with n b obtain hp where "p = ?p" "kv_block_height P s p = Inr (Some hp)" "hp < b_height b"
        by (auto simp: bt_insert_next insertable_def split: if_splits)
      with True height show ?thesis by (auto simp: bt_insert_height)
    next
      case False
      with n have "chain_next P s x = Some p" by (simp add: bt_insert_next)
      with tree_okD(3) [OF ok] height show ?thesis unfolding chain_wf_def by metis
    qed
  qed
  moreover have "parent_link P ?t r p" if ch: "kv_children P ?t p = Inr cs" "r \<in> set cs" for p cs r
  proof -
    from ch consider "p = ?p" "r = b_hash b" | cs' where "kv_children P s p = Inr cs'" "r \<in> set cs'"
      by (auto simp: bt_insert_children split: if_splits sum.splits)
    then show ?thesis
    proof cases
      case 2
      from stored_child(2) [OF ok 2] show ?thesis by (rule link)
    qed (simp add: parent_link_def bt_insert_justify)
  qed
  moreover have "\<not> parent_link P ?t (pc_block genesis_pc) y" for y
    using tree_okD(2) [OF ok] b by (auto simp: tree_wf_def insertable_def parent_link_def bt_insert_justify)
  ultimately have "tree_wf P ?t" by (simp add: tree_wf_def)
  moreover have "\<exists>j. kv_block_justify P ?t x = Inr j" if "kv_block_height P ?t x = Inr (Some h)" for x h
    using that stored_justify [OF ok, of x] by (auto simp: bt_insert_height bt_insert_justify stored_def split: if_splits)
  moreover have "(\<exists>h. kv_block_height P ?t x = Inr (Some h)) \<and> (\<exists>len. kv_block_data_len P ?t x = Inr (Some len)) \<and>
      (\<exists>cs. kv_children P ?t (pc_block j) = Inr cs \<and> x \<in> set cs)" if "kv_block_justify P ?t x = Inr j" for x j
  proof (cases "x = b_hash b")
    case True
    with that show ?thesis by (auto simp: bt_insert_height bt_insert_justify bt_insert_data_len bt_insert_children)
  next
    case False
    with that have "kv_block_justify P s x = Inr j" by (simp add: bt_insert_justify)
    with False ok show ?thesis unfolding tree_ok_def
      by (fastforce simp: bt_insert_height bt_insert_data_len bt_insert_children)
  qed
  moreover have "\<exists>st. kv_validator_set_updates_status P ?t x = Inr st \<and> (\<forall>u. st = Pending u \<longrightarrow> us_ok u)" for x
    using tree_okD(6) [OF ok, of x] vu by (auto simp: bt_insert_status [OF vu] updates_fit_def)
  moreover have "kv_highest_committed_block P ?t = kv_highest_committed_block P s"
    by (simp add: kv_highest_committed_block_def kv_get_opt_def bt_insert_path set_block_frame store_simps)
  then have "\<exists>h. kv_block_height P ?t c = Inr (Some h)" if "kv_highest_committed_block P ?t = Inr (Some c)" for c
    using that tree_okD(5) [OF ok, of c] height by (auto simp: stored_def)
  ultimately show ?thesis using well_typed_insert [OF tree_okD(1) [OF ok]] unfolding tree_ok_def by blast
qed

end
