(* ===== verification/Protocol.thy ===== *)
theory Protocol
  imports Algorithm
begin

text \<open>
  The replica as a state machine of protocol steps. The state is the block tree and the phase votes sent; its steps are
  the only ways in which the algorithm thread may change them: inserting a block that was checked and validated,
  processing a certificate that was checked, voting for what was just accepted, and recording views and timeout
  certificates. Every turn of the main loop, with all its handlers, errors and panics, is a finite sequence of these
  steps, and properties of the protocol can be proved on them alone.
\<close>

section \<open>Steps\<close>

text \<open>The blocks inserted so far are a history variable: the code does not keep them, and pruning deletes them from the tree.\<close>

record protocol_state =
  ps_store :: kv_store
  ps_votes :: "phase_vote list"
  ps_blocks :: "block list"

inductive protocol_step :: "prims \<Rightarrow> 'a app_ops \<Rightarrow> protocol_state \<Rightarrow> protocol_state \<Rightarrow> bool" for P app where
  enter_view: "protocol_step P app p (p\<lparr>ps_store := bt_set_highest_view_entered P view (ps_store p)\<rparr>)"
| record_tc: "protocol_step P app p (p\<lparr>ps_store := bt_set_highest_tc P tc (ps_store p)\<rparr>)"
| insert: "acceptable P app (ps_store p) b au vu \<Longrightarrow>
    protocol_step P app p (p\<lparr>ps_store := bt_insert P b au vu (ps_store p), ps_blocks := ps_blocks p @ [b]\<rparr>)"
| accept: "acceptable P app (ps_store p) b au vu \<Longrightarrow>
    bt_update P pub (b_justify b) (bt_insert P b au vu (ps_store p)) = Inr (r, evs, s) \<Longrightarrow>
    protocol_step P app p (p\<lparr>ps_store := s, ps_blocks := ps_blocks p @ [b]\<rparr>)"
| accept_vote: "acceptable P app (ps_store p) b au vu \<Longrightarrow>
    bt_update P pub (b_justify b) (bt_insert P b au vu (ps_store p)) = Inr (r, evs, s) \<Longrightarrow> new_vote P s v \<Longrightarrow>
    pv_block v = b_hash b \<Longrightarrow> pv_phase v = (if vu \<noteq> None then Prepare else Generic) \<Longrightarrow>
    protocol_step P app p (p\<lparr>ps_store := bt_set_highest_view_phase_voted P (pv_view v) s,
      ps_votes := ps_votes p @ [v], ps_blocks := ps_blocks p @ [b]\<rparr>)"
| process: "processable P (ps_store p) pc \<Longrightarrow> bt_update P pub pc (ps_store p) = Inr (r, evs, s) \<Longrightarrow>
    protocol_step P app p (p\<lparr>ps_store := s\<rparr>)"
| nudge_vote: "processable P (ps_store p) pc \<Longrightarrow> bt_update P pub pc (ps_store p) = Inr (r, evs, s) \<Longrightarrow>
    new_vote P s v \<Longrightarrow> pv_block v = pc_block pc \<Longrightarrow> nudge_vote_phase (pc_phase pc) = Inr (pv_phase v) \<Longrightarrow>
    protocol_step P app p (p\<lparr>ps_store := bt_set_highest_view_phase_voted P (pv_view v) s, ps_votes := ps_votes p @ [v]\<rparr>)"

inductive_cases protocol_step_cases [consumes 1, case_names enter_view record_tc insert accept accept_vote process nudge_vote]:
  "protocol_step P app p p'"

section \<open>Every turn is a sequence of protocol steps\<close>

definition abs_node :: "'a node \<Rightarrow> block list \<Rightarrow> protocol_state" where
  "abs_node n bs = \<lparr>ps_store = nd_store n, ps_votes = sent_votes n, ps_blocks = bs\<rparr>"

lemma abs_node_sel [simp]:
  "ps_store (abs_node n bs) = nd_store n" "ps_votes (abs_node n bs) = sent_votes n" "ps_blocks (abs_node n bs) = bs"
  by (simp_all add: abs_node_def)

definition protocol_rel :: "prims \<Rightarrow> 'a app_ops \<Rightarrow> 'a node \<Rightarrow> 'a node \<Rightarrow> bool" where
  "protocol_rel P app n n' \<longleftrightarrow> (\<forall>bs. \<exists>bs'. (protocol_step P app)\<^sup>*\<^sup>* (abs_node n bs) (abs_node n' bs'))"

lemma protocol_rel_same: "nd_store n' = nd_store n \<Longrightarrow> sent_votes n' = sent_votes n \<Longrightarrow> protocol_rel P app n n'"
  unfolding protocol_rel_def by (auto simp: abs_node_def)

lemma protocol_rel_step: "(\<And>bs. \<exists>bs'. protocol_step P app (abs_node n bs) (abs_node n' bs')) \<Longrightarrow> protocol_rel P app n n'"
  unfolding protocol_rel_def by blast

interpretation protocol: turn_rel P "protocol_rel P app" app for P app
proof
  fix n1 n2 n3 :: "'a node"
  show "protocol_rel P app n1 n2 \<Longrightarrow> protocol_rel P app n2 n3 \<Longrightarrow> protocol_rel P app n1 n3"
    unfolding protocol_rel_def by (meson rtranclp_trans)
next
  fix n :: "'a node" and view
  show "protocol_rel P app n (n\<lparr>nd_store := bt_set_highest_view_entered P view (nd_store n)\<rparr>)"
    by (rule protocol_rel_step) (use protocol_step.enter_view [of P app "abs_node n _" view] in \<open>auto simp: abs_node_def sent_votes_def\<close>)
next
  fix n :: "'a node" and tc
  show "protocol_rel P app n (n\<lparr>nd_store := bt_set_highest_tc P tc (nd_store n)\<rparr>)"
    by (rule protocol_rel_step) (use protocol_step.record_tc [of P app "abs_node n _" tc] in \<open>auto simp: abs_node_def sent_votes_def\<close>)
next
  fix n :: "'a node" and b au vu
  assume "acceptable P app (nd_store n) b au vu"
  then show "protocol_rel P app n (n\<lparr>nd_store := bt_insert P b au vu (nd_store n)\<rparr>)"
    by (intro protocol_rel_step) (use protocol_step.insert [of P app "abs_node n _" b au vu] in \<open>auto simp: abs_node_def sent_votes_def\<close>)
next
  fix n :: "'a node" and b au vu pub r evs s
  assume "acceptable P app (nd_store n) b au vu" "bt_update P pub (b_justify b) (bt_insert P b au vu (nd_store n)) = Inr (r, evs, s)"
  then show "protocol_rel P app n (n\<lparr>nd_store := s\<rparr>)"
    by (intro protocol_rel_step) (use protocol_step.accept [of P app "abs_node n _" b au vu pub r evs s] in \<open>auto simp: abs_node_def sent_votes_def\<close>)
next
  fix n :: "'a node" and b au vu pub r evs s v e
  assume "acceptable P app (nd_store n) b au vu" "bt_update P pub (b_justify b) (bt_insert P b au vu (nd_store n)) = Inr (r, evs, s)"
    "new_vote P s v" "effect_vote e = Some v" "pv_block v = b_hash b" "pv_phase v = (if vu \<noteq> None then Prepare else Generic)"
  then show "protocol_rel P app n (n\<lparr>nd_out := nd_out n @ [e], nd_store := bt_set_highest_view_phase_voted P (pv_view v) s\<rparr>)"
    by (intro protocol_rel_step)
       (use protocol_step.accept_vote [of P app "abs_node n _" b au vu pub r evs s v] in \<open>auto simp: abs_node_def sent_votes_def map_filter_def\<close>)
next
  fix n :: "'a node" and pc pub r evs s
  assume "processable P (nd_store n) pc" "bt_update P pub pc (nd_store n) = Inr (r, evs, s)"
  then show "protocol_rel P app n (n\<lparr>nd_store := s\<rparr>)"
    by (intro protocol_rel_step) (use protocol_step.process [of P "abs_node n _" pc pub r evs s app] in \<open>auto simp: abs_node_def sent_votes_def\<close>)
next
  fix n :: "'a node" and pc pub r evs s v e
  assume "processable P (nd_store n) pc" "bt_update P pub pc (nd_store n) = Inr (r, evs, s)" "new_vote P s v" "effect_vote e = Some v"
    "pv_block v = pc_block pc" "nudge_vote_phase (pc_phase pc) = Inr (pv_phase v)"
  then show "protocol_rel P app n (n\<lparr>nd_out := nd_out n @ [e], nd_store := bt_set_highest_view_phase_voted P (pv_view v) s\<rparr>)"
    by (intro protocol_rel_step)
       (use protocol_step.nudge_vote [of P "abs_node n _" pc pub r evs s v app] in \<open>auto simp: abs_node_def sent_votes_def map_filter_def\<close>)
qed (auto intro!: protocol_rel_same simp: sent_votes_def map_filter_def)

section \<open>Runs\<close>

definition protocol_start :: "prims \<Rightarrow> app_state_updates \<Rightarrow> validator_set_state \<Rightarrow> protocol_state" where
  "protocol_start P u vss = \<lparr>ps_store = bt_initialize P u vss Map.empty, ps_votes = [], ps_blocks = []\<rparr>"

definition protocol_run :: "prims \<Rightarrow> 'a app_ops \<Rightarrow> app_state_updates \<Rightarrow> validator_set_state \<Rightarrow> protocol_state list \<Rightarrow> bool" where
  "protocol_run P app u vss tr \<longleftrightarrow> tr \<noteq> [] \<and> hd tr = protocol_start P u vss \<and> successively (protocol_step P app) tr"

lemma protocol_run_snoc: "protocol_run P app u vss tr \<Longrightarrow> protocol_step P app (last tr) p \<Longrightarrow> protocol_run P app u vss (tr @ [p])"
  by (auto simp: protocol_run_def successively_append_iff)

lemma protocol_run_extend:
  assumes "(protocol_step P app)\<^sup>*\<^sup>* p p'" and "protocol_run P app u vss tr" and "last tr = p"
  shows "\<exists>tr'. protocol_run P app u vss tr' \<and> last tr' = p'"
  using assms by (induction rule: rtranclp_induct) (auto, metis protocol_run_snoc last_snoc)

text \<open>Induction along a run.\<close>

lemma protocol_run_induct [consumes 2, case_names start step]:
  assumes "protocol_run P app u vss tr" and "i < length tr"
    and "I (protocol_start P u vss)"
    and "\<And>j. Suc j < length tr \<Longrightarrow> j < i \<Longrightarrow> protocol_step P app (tr ! j) (tr ! Suc j) \<Longrightarrow> I (tr ! j) \<Longrightarrow> I (tr ! Suc j)"
  shows "I (tr ! i)"
  using assms(2,4)
proof (induction i)
  case 0
  with assms(1,3) show ?case by (metis protocol_run_def hd_conv_nth)
next
  case (Suc i)
  have "protocol_step P app (tr ! i) (tr ! Suc i)"
    using assms(1) Suc.prems(1) by (simp add: protocol_run_def successively_conv_nth)
  with Suc show ?case by simp
qed

text \<open>What leaves the highest view voted in alone.\<close>

lemma voted_frame:
  "kv_highest_view_phase_voted P (bt_insert P b au vu s) = kv_highest_view_phase_voted P s"
  "bt_update P pub pc s = Inr (r, evs, s') \<Longrightarrow> kv_highest_view_phase_voted P s' = kv_highest_view_phase_voted P s"
  "kv_highest_view_phase_voted P (bt_set_highest_view_entered P view s) = kv_highest_view_phase_voted P s"
  "kv_highest_view_phase_voted P (bt_set_highest_tc P tc s) = kv_highest_view_phase_voted P s"
  "kv_highest_view_phase_voted P (bt_set_highest_view_phase_voted P view s) = Inr (Some view)"
proof -
  assume "bt_update P pub pc s = Inr (r, evs, s')"
  from bt_update_frame [OF this, of PHighestViewPhaseVoted]
  show "kv_highest_view_phase_voted P s' = kv_highest_view_phase_voted P s" by (simp add: kv_highest_view_phase_voted_def kv_get_opt_def)
qed (simp_all add: kv_highest_view_phase_voted_def kv_get_opt_def bt_insert_other bt_setter_defs wb_setter_defs store_simps)

text \<open>History only grows.\<close>

lemma step_grows: "protocol_step P app p p' \<Longrightarrow> set (ps_blocks p) \<subseteq> set (ps_blocks p') \<and> set (ps_votes p) \<subseteq> set (ps_votes p')"
  by (erule protocol_step_cases) auto

lemma run_step: "protocol_run P app u vss tr \<Longrightarrow> Suc i < length tr \<Longrightarrow> protocol_step P app (tr ! i) (tr ! Suc i)"
  by (simp add: protocol_run_def successively_conv_nth)

lemma run_grows:
  assumes "protocol_run P app u vss tr" and "i \<le> j" and "j < length tr"
  shows "set (ps_blocks (tr ! i)) \<subseteq> set (ps_blocks (tr ! j)) \<and> set (ps_votes (tr ! i)) \<subseteq> set (ps_votes (tr ! j))"
  using assms(2,3)
proof (induction rule: dec_induct)
  case (step j)
  with step_grows [OF run_step [OF assms(1)], of j] show ?case by auto
qed simp

lemma run_last: "protocol_run P app u vss tr \<Longrightarrow> last tr = tr ! (length tr - 1) \<and> length tr - 1 < length tr"
  by (simp add: protocol_run_def last_conv_nth)

lemma turn_protocol_steps:
  assumes "execute_turn P app S t a = (r, a')"
  shows "\<exists>bs'. (protocol_step P app)\<^sup>*\<^sup>* (abs_node (al_node a) bs) (abs_node (al_node a') bs')"
  using keepsD [OF protocol.keeps_execute_turn [of P app S t], of a] assms by (simp add: protocol_rel_def)

lemma reachable_run:
  "reachable P app S cf a \<Longrightarrow> \<exists>u vss tr bs. us_ok u \<and> vss_ok P vss \<and> protocol_run P app u vss tr \<and> last tr = abs_node (al_node a) bs"
proof (induction rule: reachable.induct)
  case (start vss u now1 now2 x a)
  then have "protocol_run P app u vss [protocol_start P u vss]" "protocol_start P u vss = abs_node (al_node a) []"
    by (simp_all add: protocol_run_def protocol_start_def abs_node_def algorithm_new_node sent_votes_def map_filter_def)
  with start(1,2) show ?case by (metis last_ConsL)
next
  case (turn a t r a')
  from turn.IH obtain u vss tr bs where tr: "us_ok u" "vss_ok P vss" "protocol_run P app u vss tr" "last tr = abs_node (al_node a) bs" by blast
  from turn_protocol_steps [OF turn.hyps(2)] obtain bs' where
    "(protocol_step P app)\<^sup>*\<^sup>* (abs_node (al_node a) bs) (abs_node (al_node a') bs')" by blast
  from protocol_run_extend [OF this tr(3,4)] tr(1,2) show ?case by blast
next
  case (restart a now1 now2 x a')
  then show ?case by (simp add: abs_node_def sent_votes_def algorithm_new_node)
qed

text \<open>
  C3. The algorithm thread refines the protocol: every reachable state, over turns that deliver any messages, errors, panics
  and restarts, is the end of a run of protocol steps from an initialized block tree that ends in exactly its block
  tree and its votes. So a block enters the tree only when its hash, its certificate, the lock and the application allow
  it, a certificate takes effect only when it is correctly signed and safe, and a vote is cast only for what has just
  been accepted, in a view above all earlier votes.
\<close>

lemma reachable_refines_protocol:
  assumes "reachable P app S cf a"
  shows "\<exists>u vss tr. vss_ok P vss \<and> protocol_run P app u vss tr \<and>
    ps_store (last tr) = nd_store (al_node a) \<and> ps_votes (last tr) = sent_votes (al_node a)"
  using reachable_run [OF assms] by (metis abs_node_sel(1,2))

end
