(* ===== verification/Store_History.thy ===== *)
theory Store_History
  imports Tree_Invariant Protocol
begin

text \<open>
  What the block tree keeps of the blocks that a run has inserted: every stored height is that of an inserted block, and every
  pending validator set update is one that the application returned when it validated an inserted block, so it decodes.
  With the types of the other values this makes the tree readable in every reachable state.
\<close>

section \<open>What the application returns\<close>

text \<open>
  The validator set updates an application returns are of the Rust type \<^verbatim>\<open>UpdateSet<VerifyingKey, Power>\<close>: a map and a set, of keys
  that parse to themselves.
\<close>

definition typed_app :: "prims \<Rightarrow> 'a app_ops \<Rightarrow> bool" where
  "typed_app P app \<longleftrightarrow> (\<forall>r a au vu. fst (app_validate_block app r a) = Valid au vu \<or> fst (app_validate_block_for_sync app r a) = Valid au vu \<longrightarrow>
     updates_fit P vu)"

text \<open>The application has answered a request to validate the block \<open>b\<close> with the updates \<open>u\<close>.\<close>

definition app_returned :: "'a app_ops \<Rightarrow> block \<Rightarrow> validator_set_updates \<Rightarrow> bool" where
  "app_returned app b u \<longleftrightarrow> (\<exists>view a au.
     fst (app_validate_block app \<lparr>vbq_proposed_block = b, vbq_block_tree_view = view\<rparr> a) = Valid au (Some u) \<or>
     fst (app_validate_block_for_sync app \<lparr>vbq_proposed_block = b, vbq_block_tree_view = view\<rparr> a) = Valid au (Some u))"

lemma acceptable_typed:
  assumes "typed_app P app" and "acceptable P app s b au vu"
  shows "updates_fit P vu" "vu = Some u \<Longrightarrow> app_returned app b u"
  using assms unfolding typed_app_def acceptable_def validated_def app_returned_def by blast+

section \<open>Stored heights and updates come from inserted blocks\<close>

definition from_history :: "prims \<Rightarrow> 'a app_ops \<Rightarrow> block list \<Rightarrow> kv_store \<Rightarrow> bool" where
  "from_history P app bs s \<longleftrightarrow>
     (\<forall>x. \<exists>st. kv_validator_set_updates_status P s x = Inr st \<and>
        (\<forall>u. st = Pending u \<longrightarrow> (\<exists>b \<in> set bs. b_hash b = x \<and> app_returned app b u))) \<and>
     (\<forall>x h. kv_block_height P s x = Inr (Some h) \<longrightarrow> (\<exists>b \<in> set bs. b_hash b = x \<and> b_height b = h))"

lemma from_history_mono: "from_history P app bs s \<Longrightarrow> set bs \<subseteq> set bs' \<Longrightarrow> from_history P app bs' s"
  unfolding from_history_def by (meson subsetD)

lemma from_history_same:
  assumes "from_history P app bs s" and "\<And>x. t (path_bytes P (PStatus x)) = s (path_bytes P (PStatus x))"
    and "\<And>x. t (path_bytes P (PBlockHeight x)) = s (path_bytes P (PBlockHeight x))"
  shows "from_history P app bs t"
  using assms by (simp add: from_history_def kv_validator_set_updates_status_def kv_block_height_def kv_get_opt_def)

lemma from_history_setters:
  assumes "from_history P app bs s"
  shows "from_history P app bs (bt_set_highest_view_entered P v s)" "from_history P app bs (bt_set_highest_tc P tc s)"
    "from_history P app bs (bt_set_highest_view_phase_voted P v s)"
  by (rule from_history_same [OF assms]; simp add: bt_setter_defs wb_setter_defs store_simps)+

lemma from_history_insert:
  assumes "from_history P app bs s" and "typed_app P app" and "acceptable P app t b au vu"
  shows "from_history P app (bs @ [b]) (bt_insert P b au vu s)"
  unfolding from_history_def
proof (intro conjI allI impI)
  note fit = acceptable_typed [OF assms(2,3)]
  fix x
  from assms(1) obtain st where st: "kv_validator_set_updates_status P s x = Inr st"
    "\<And>u. st = Pending u \<Longrightarrow> \<exists>b \<in> set bs. b_hash b = x \<and> app_returned app b u" unfolding from_history_def by blast
  show "\<exists>st. kv_validator_set_updates_status P (bt_insert P b au vu s) x = Inr st \<and>
      (\<forall>u. st = Pending u \<longrightarrow> (\<exists>c \<in> set (bs @ [b]). b_hash c = x \<and> app_returned app c u))"
    using st fit(2) by (auto simp: bt_insert_status [OF fit(1)])
  show "\<exists>c \<in> set (bs @ [b]). b_hash c = x \<and> b_height c = h" if "kv_block_height P (bt_insert P b au vu s) x = Inr (Some h)" for h
    using assms(1) that by (auto simp: from_history_def bt_insert_height split: if_splits)
qed

text \<open>An update marks statuses as committed and deletes, and does nothing else to them and to heights.\<close>

fun history_write :: "prims \<Rightarrow> kv_op \<Rightarrow> bool" where
  "history_write P (KSet k v) \<longleftrightarrow> (\<forall>b. (k = path_bytes P (PStatus b) \<longrightarrow> v = VStatus CommittedBytes) \<and> k \<noteq> path_bytes P (PBlockHeight b))"
| "history_write P (KDelete k) \<longleftrightarrow> True"

interpretation history_writes: commit_writes P s "history_write P" for P s
  by unfold_locales (simp_all add: store_simps, simp add: vconcat_def block_prefix_def path_bytes.simps)

lemma from_history_write: "history_write P op \<Longrightarrow> from_history P app bs s \<Longrightarrow> from_history P app bs (kv_apply op s)"
  by (cases op)
     (auto simp: from_history_def kv_validator_set_updates_status_def kv_block_height_def kv_get_opt_def ok_or_def map_ed25519_def split: if_splits)

lemma from_history_update:
  assumes "from_history P app bs s" and "bt_update P pub pc s = Inr (r, evs, s')"
  shows "from_history P app bs s'"
proof -
  obtain wb where wb: "s' = kv_write wb s" "writes_ok (history_write P) wb"
    by (rule history_writes.update_ok [OF assms(2)]) (simp_all add: store_simps)
  show ?thesis unfolding wb(1) by (rule writes_ok_kept [OF wb(2), where I = "from_history P app bs", OF assms(1) from_history_write])
qed

section \<open>Along a run\<close>

text \<open>Every step keeps the store well typed and from the history.\<close>

definition history_inv :: "prims \<Rightarrow> 'a app_ops \<Rightarrow> protocol_state \<Rightarrow> bool" where
  "history_inv P app p \<longleftrightarrow> well_typed P (ps_store p) \<and> from_history P app (ps_blocks p) (ps_store p)"

lemma well_typed_setters:
  assumes "well_typed P s"
  shows "well_typed P (bt_set_highest_view_entered P v s)" "well_typed P (bt_set_highest_tc P tc s)" "well_typed P (bt_set_highest_view_phase_voted P v s)"
  using assms by (auto simp: bt_setter_defs wb_setter_defs op_ok_set simp del: op_ok.simps intro!: well_typed_write)

lemmas history_steps = well_typed_setters from_history_setters well_typed_insert from_history_insert well_typed_update from_history_update

lemma protocol_step_history_inv:
  assumes "protocol_step P app p p'" and "vk_parse_exact P" and "typed_app P app" and "history_inv P app p"
  shows "history_inv P app p'"
proof -
  from assms(4) have inv: "well_typed P (ps_store p)" "from_history P app (ps_blocks p) (ps_store p)" by (simp_all add: history_inv_def)
  from assms(1) show ?thesis
  proof (cases rule: protocol_step_cases)
    case (accept b au vu pub r evs s)
    note ins = well_typed_insert [OF inv(1)] from_history_insert [OF inv(2) assms(3) accept(2)]
    from well_typed_update [OF accept(3) ins(1) assms(2)] from_history_update [OF ins(2) accept(3)] accept(1)
    show ?thesis by (simp add: history_inv_def)
  next
    case (accept_vote b au vu pub r evs s v)
    note ins = well_typed_insert [OF inv(1)] from_history_insert [OF inv(2) assms(3) accept_vote(2)]
    note up = well_typed_update [OF accept_vote(3) ins(1) assms(2)] from_history_update [OF ins(2) accept_vote(3)]
    from well_typed_setters(3) [OF up(1)] from_history_setters(3) [OF up(2)] accept_vote(1) show ?thesis by (simp add: history_inv_def)
  qed (use assms(2,3) inv in \<open>auto simp: history_inv_def intro: history_steps\<close>)
qed

lemma run_history_inv:
  assumes "protocol_run P app u vss tr" and "vk_parse_exact P" and "vss_ok P vss" and "typed_app P app" and "i < length tr"
  shows "history_inv P app (tr ! i)"
  using assms(1,5)
proof (induction rule: protocol_run_induct)
  case start
  have "from_history P app [] (bt_initialize P u vss Map.empty)" by (simp add: from_history_def initialize_reads)
  with well_typed_initialize [OF assms(3)] show ?case by (simp add: history_inv_def protocol_start_def)
next
  case (step j)
  with assms(2,4) show ?case by (blast intro: protocol_step_history_inv)
qed

lemma reachable_statuses:
  assumes "reachable P app S cf a" and "vk_parse_exact P" and "typed_app P app"
  shows "\<exists>st. kv_validator_set_updates_status P (nd_store (al_node a)) b = Inr st"
proof -
  from reachable_run [OF assms(1)] obtain u vss tr bs where run: "us_ok u" "vss_ok P vss" "protocol_run P app u vss tr"
    "last tr = abs_node (al_node a) bs" by blast
  from run_history_inv [OF run(3) assms(2) run(2) assms(3)] run_last [OF run(3)] have "history_inv P app (last tr)" by simp
  with run(4) show ?thesis by (auto simp: history_inv_def from_history_def)
qed

text \<open>
  C6. The block tree is always readable. In every reachable state, whatever was committed, pruned or lost in a panic, the
  validator set state can be read and its validator sets are well-formed with valid keys, the highest PC, the locked PC
  and the highest view entered are there, the optional variables are absent or decode, and no field of any block, entry
  of the height index or list of pending updates fails to decode at the type of its getter. This includes the status of the
  validator set updates of every block, whose keys are parsed, given that the application returns updates of the Rust type.
\<close>

lemma block_tree_readable:
  assumes "reachable P app S cf a" and "vk_parse_exact P" and "typed_app P app"
  defines "s \<equiv> nd_store (al_node a)"
  shows "(\<exists>vss. kv_validator_set_state P s = Inr vss \<and> vss_ok P vss) \<and>
    (\<exists>pc. kv_highest_pc P s = Inr pc) \<and> (\<exists>pc. kv_locked_pc P s = Inr pc) \<and> (\<exists>v. kv_highest_view_entered P s = Inr v) \<and>
    (\<exists>b. kv_highest_committed_block P s = Inr b) \<and> (\<exists>b. kv_newest_block P s = Inr b) \<and>
    (\<exists>tc. kv_highest_tc P s = Inr tc) \<and> (\<exists>v. kv_highest_view_phase_voted P s = Inr v) \<and>
    (\<forall>b. (\<exists>h. kv_block_height P s b = Inr h) \<and> \<not> undecodable (kv_block_justify P s b) \<and>
       (\<exists>h. kv_block_data_hash P s b = Inr h) \<and> (\<exists>l. kv_block_data_len P s b = Inr l) \<and> \<not> undecodable (kv_children P s b) \<and>
       (\<exists>u. kv_pending_app_state_updates P s b = Inr u) \<and> (\<exists>st. kv_validator_set_updates_status P s b = Inr st)) \<and>
    (\<forall>h. \<exists>b. kv_block_at_height P s h = Inr b)"
proof -
  have w: "well_typed P s" unfolding s_def by (rule well_typed_reachable [OF assms(1,2)])
  then have t: "typed P s" by (simp add: well_typed_def)
  have st: "\<exists>st. kv_validator_set_updates_status P s b = Inr st" for b unfolding s_def by (rule reachable_statuses [OF assms(1-3)])
  show ?thesis by (intro conjI allI well_typed_vss [OF w] required_reads [OF w] optional_reads [OF t] block_reads [OF t] st)
qed

end
