(* ===== verification/Replica_Witnesses.thy ===== *)
theory Replica_Witnesses
  imports Witnesses Replica Store_History
begin

text \<open>
  Concrete replicas on which the hypotheses of the properties of the subprotocols and of the whole
  algorithm hold: a node in a given view on a given store, certificates signed by both validators
  of the small validator set, and the start state of the algorithm.
\<close>

section \<open>A node in a view\<close>

definition demo_pacemaker :: "view_number \<Rightarrow> pacemaker" where
  "demo_pacemaker v = \<lparr>pk_chain_id = 0, pk_keypair = 1, pk_epoch_length = 10, pk_max_view_time = 50, pk_timeouts = (\<lambda>_. Some 100),
     pk_timeout_vote_collectors = acp_new tvc_ops 0 v demo_vss, pk_last_advance_view = None,
     pk_view_info = \<lparr>vi_view = v, vi_deadline = 100\<rparr>\<rparr>"

definition demo_client :: block_sync_client where
  "demo_client = client_new 0 5 10 60 3 20 0"

definition demo_node :: "kv_store \<Rightarrow> view_number \<Rightarrow> unit node" where
  "demo_node s v = \<lparr>nd_hotstuff = hotstuff_new 0 1 \<lparr>vi_view = v, vi_deadline = 100\<rparr> demo_vss, nd_pacemaker = demo_pacemaker v,
     nd_client = demo_client, nd_store = s, nd_app = (), nd_out = [], nd_publisher = False\<rparr>"

lemma demo_node_sel [simp]:
  "nd_pacemaker (demo_node s v) = demo_pacemaker v" "nd_store (demo_node s v) = s" "nd_client (demo_node s v) = demo_client"
  "vi_view (pk_view_info (demo_pacemaker v)) = v" "vi_deadline (pk_view_info (demo_pacemaker v)) = 100"
  "pk_epoch_length (demo_pacemaker v) = 10" "pk_keypair (demo_pacemaker v) = 1" "pk_chain_id (demo_pacemaker v) = 0"
  "pk_max_view_time (demo_pacemaker v) = 50" "nd_out (demo_node s v) = []" "nd_app (demo_node s v) = ()"
  by (simp_all add: demo_node_def demo_pacemaker_def)

lemma demo_pk_ok [simp]: "pk_ok (demo_pacemaker v)"
  by (simp add: pk_ok_def) (simp add: demo_pacemaker_def)

lemma demo_clock: "t < 1000 \<Longrightarrow> clock_in_range t (pk_epoch_length (demo_pacemaker v)) (pk_max_view_time (demo_pacemaker v))"
  by (simp add: clock_in_range_def demo_pacemaker_def instant_limit_def)

lemma demo_validators [simp]: "is_validator 1 demo_vss" "is_validator 2 demo_vss"
  by (simp_all add: is_validator_def demo_vss_def demo_vs_def vs_contains_def hm_contains_key_def hm_get_def)

section \<open>The pacemaker\<close>

definition demo_tc :: "view_number \<Rightarrow> timeout_certificate" where
  "demo_tc v = \<lparr>tc_chain_id = 0, tc_view = v, tc_signatures = [Some 1, Some 2]\<rparr>"

lemma both_signed:
  assumes "\<And>s. sig_from_slice P s" and "vk_verify P 1 m 1" and "vk_verify P 2 m 2"
  shows "is_correctly_signed P m [Some 1, Some 2] demo_vs = Inr True"
proof -
  have "1 \<in> signers demo_vs [Some 1, Some 2]" unfolding signers_def by (rule CollectI, rule exI [of _ 0]) (simp add: demo_vs_def vs_len_def)
  moreover have "2 \<in> signers demo_vs [Some 1, Some 2]"
    unfolding signers_def by (rule CollectI, rule exI [of _ 1]) (simp add: demo_vs_def vs_len_def)
  moreover have "signers demo_vs [Some 1, Some 2] \<subseteq> {1, 2}"
    by (auto simp: signers_def demo_vs_def vs_len_def less_Suc_eq)
  ultimately have "signers demo_vs [Some 1, Some 2] = {1, 2}" by blast
  moreover have "slots_valid P m [Some 1, Some 2] demo_vs"
    using assms by (auto simp: slots_valid_def demo_vs_def less_Suc_eq)
  ultimately show ?thesis using is_correctly_signed_iff [OF demo_vs_ok(3), of P m "[Some 1, Some 2]"] demo_quorum demo_vs_ok(4)
    by simp
qed

lemma demo_signed: "is_correctly_signed demo_prims m [Some 1, Some 2] demo_vs = Inr True"
  by (rule both_signed) (simp_all add: demo_prims_def)

lemma demo_tc_correct: "tc_is_correct demo_prims demo_init (demo_tc v) = Inr True"
  by (simp add: tc_is_correct_def demo_init_reads demo_vss_def tc_is_correctly_signed_def demo_tc_def demo_signed)

lemma tick_on_timeout_witness:
  "\<exists>n'. pm_tick demo_prims (\<lambda>_. 200) (demo_node demo_init 3) = (Inr (), n') \<and> vi_view (pk_view_info (nd_pacemaker n')) = 4"
  using tick_on_timeout [of "demo_node demo_init 3" demo_prims demo_vss None "\<lambda>_. 200"] demo_clock
  by (auto simp: demo_init_reads epoch_end_def)

lemma advance_view_enters_next_view_witness:
  "\<exists>n'. on_receive_advance_view demo_prims 5 \<lparr>av_progress_certificate = TimeoutCertificate (demo_tc 10)\<rparr> 2 (demo_node demo_init 3)
      = (Inr (), n') \<and> vi_view (pk_view_info (nd_pacemaker n')) = 11 \<and>
     kv_highest_tc demo_prims (nd_store n') = Inr (Some (demo_tc 10))"
proof -
  have v: "tc_view (demo_tc 10) = 10" by (simp add: demo_tc_def)
  have valid: "progress_certificate_valid demo_prims 10 (TimeoutCertificate (demo_tc 10)) demo_init = Inr True"
    by (simp add: progress_certificate_valid_def demo_tc_correct is_epoch_change_view_def v rand_def)
  show ?thesis
    using advance_view_enters_next_view [of "demo_node demo_init 3" demo_prims demo_vss 2
        "\<lparr>av_progress_certificate = TimeoutCertificate (demo_tc 10)\<rparr>" None 5] valid demo_clock
    by (auto simp: demo_init_reads v epoch_end_def higher_than_def)
qed

definition demo_late_vote :: timeout_vote where
  "demo_late_vote = \<lparr>tv_chain_id = 0, tv_view = 20, tv_signature = 2, tv_highest_tc = Some (demo_tc 10)\<rparr>"

lemma stale_fallback_tc_fails_witness:
  "\<exists>n'. on_receive_timeout_vote demo_prims 5 demo_late_vote 2 (demo_node demo_init 25) =
     (Inl (UpdateViewFault (NonIncreasingViewError 25 11)), n')"
proof -
  have "timeout_vote_is_correct demo_prims 2 demo_late_vote"
    by (simp add: timeout_vote_is_correct_def signed_message_is_correct_def demo_late_vote_def demo_prims_def)
  moreover have "is_epoch_change_view 20 10 = Inr True" by (simp add: is_epoch_change_view_def)
  moreover have "tv_view demo_late_vote = 20" "tv_highest_tc demo_late_vote = Some (demo_tc 10)" "tc_view (demo_tc 10) = 10"
    by (simp_all add: demo_late_vote_def demo_tc_def)
  moreover have "acp_collect tvc_ops (pk_timeout_vote_collectors (demo_pacemaker 25)) 2 demo_late_vote =
      Inr (None, acp_new tvc_ops 0 25 demo_vss)"
    by (simp add: acp_collect_def demo_pacemaker_def acp_new_def tvc_ops_def tvc_new_def tvc_collect_def demo_late_vote_def demo_vss_def)
  ultimately show ?thesis
    using stale_fallback_tc_fails [of demo_prims "demo_node demo_init 25" demo_vss 2 demo_late_vote "demo_tc 10"
        "acp_new tvc_ops 0 25 demo_vss" None 5]
    by (auto simp: demo_init_reads demo_tc_correct higher_than_def)
qed

section \<open>The message buffer\<close>

definition demo_sizes :: sizes where
  "demo_sizes = \<lparr>sz_verifying_key = 32, sz_proposal = 68, sz_nudge = 68, sz_phase_vote = 68, sz_new_view = 68,
     sz_timeout_vote = 68, sz_advance_view = 68, sz_advertise_block = 68, sz_advertise_pc = 68\<rparr>"

definition demo_msg :: "view_number \<Rightarrow> progress_message" where
  "demo_msg v = HotStuffMessage (NewViewMsg \<lparr>nv_chain_id = 0, nv_view = v, nv_highest_pc = genesis_pc\<rparr>)"

lemma demo_msg_sel [simp]: "prm_view (demo_msg v) = Some v" "prm_chain_id (demo_msg v) = 0" "return_msg w (demo_msg v) \<longleftrightarrow> v = w"
  by (auto simp: demo_msg_def)

lemma demo_msg_bytes [simp]: "msg_bytes demo_sizes x = 100"
proof -
  have "hm_size demo_sizes h = 68" for h by (cases h) (simp_all add: demo_sizes_def)
  moreover have "pm_size demo_sizes p = 68" for p by (cases p) (simp_all add: demo_sizes_def)
  moreover have "bsa_size demo_sizes a = 68" for a by (cases a) (simp_all add: demo_sizes_def)
  ultimately have "prm_size demo_sizes m = 68" for m by (cases m) simp_all
  then show ?thesis by (simp add: msg_bytes_def) (simp add: demo_sizes_def)
qed

definition demo_buffer :: msg_buffer where
  "demo_buffer = \<lparr>mb_capacity = 1000, mb_buffer = [(5, [(1, demo_msg 5), (2, demo_msg 5)]), (6, [(1, demo_msg 6)])], mb_size = 300\<rparr>"

lemma demo_buffer_ok: "mb_ok 0 demo_buffer"
  by (simp add: demo_buffer_def queues_ok_Cons)

lemma eviction_exact_witness:
  "\<exists>dropped. mb_msgs (mb_buffer demo_buffer) = mb_msgs (mb_buffer (remove_highest_viewed_msgs demo_sizes 150 demo_buffer)) @ dropped \<and>
     mb_size (remove_highest_viewed_msgs demo_sizes 150 demo_buffer) = 300 - of_nat (nat_bytes demo_sizes dropped)"
proof -
  have "nat_bytes demo_sizes (mb_msgs (mb_buffer demo_buffer)) < 2 ^ 64"
    by (simp add: demo_buffer_def nat_bytes_def mb_msgs_def)
  from eviction_exact [OF demo_buffer_ok this, of 150] show ?thesis by (auto simp: demo_buffer_def)
qed

lemma recv_delivers_witness:
  "fst (recv demo_sizes 0 5 100 [] demo_buffer) = GotMsg 1 (demo_msg 5)"
  using recv_delivers [OF demo_buffer_ok, of demo_sizes 5 100 "[]"]
  by (cases "recv demo_sizes 0 5 100 [] demo_buffer") (simp add: demo_buffer_def mb_queue_def)

lemma buffer_counter_leaks_witness:
  "unat (mb_size ((pass_through demo_sizes 5 (demo_msg 5) 1 ^^ 10) (mb_new 1000))) = 1000"
  using buffer_counter_leaks [of "demo_msg 5" 5 10 demo_sizes 1 1000] by simp

section \<open>Block sync\<close>

lemma demo_chain_block:
  "b \<in> {1, 2, 3, 4} \<Longrightarrow> kv_block demo_prims demo_chain b = Inr (Some (demo_block (if b = 1 then 0 else if b = 2 then 1 else if b = 3 then 2 else 3)
     b (if b = 1 then genesis_pc else if b = 2 then demo_pc 5 1 else if b = 3 then demo_pc 6 2 else demo_pc 7 3)))"
  by (auto simp: kv_block_def demo_chain_heights demo_chain_justify) (simp_all add: demo_chain_simps kv_block_data_def)

lemma demo_chain_newest_loop:
  "newest_loop demo_prims demo_chain 4 = Some (Inr [demo_block 3 4 (demo_pc 7 3), demo_block 2 3 (demo_pc 6 2), demo_block 1 2 (demo_pc 5 1)])"
proof -
  have g: "demo_pc v b \<noteq> genesis_pc" if "v \<noteq> 0" for v b using demo_pc_not_genesis [OF that] by (auto simp: is_genesis_pc_def)
  have "newest_loop demo_prims demo_chain 2 = Some (Inr [demo_block 1 2 (demo_pc 5 1)])"
    by (subst newest_loop.simps) (simp add: demo_chain_block demo_chain_reads ok_or_def demo_block_def)
  then have "newest_loop demo_prims demo_chain 3 = Some (Inr [demo_block 2 3 (demo_pc 6 2), demo_block 1 2 (demo_pc 5 1)])"
    by (subst newest_loop.simps) (simp add: demo_chain_block demo_chain_reads ok_or_def demo_block_def g)
  then show ?thesis
    by (subst newest_loop.simps) (simp add: demo_chain_block demo_chain_reads ok_or_def demo_block_def g)
qed

definition demo_server :: block_sync_server where
  "demo_server = server_new 0 1 100 10 0 False"

lemma server_sends_chain_witness:
  "\<exists>sv'. respond demo_prims demo_chain 2 \<lparr>bsr_chain_id = 0, bsr_start_height = 0, bsr_limit = 10\<rparr> demo_server = (Inr (), sv') \<and>
     Send 2 (BlockSyncMessage (BlockSyncResponse \<lparr>bsp_blocks = [demo_block 0 1 genesis_pc, demo_block 1 2 (demo_pc 5 1),
       demo_block 2 3 (demo_pc 6 2), demo_block 3 4 (demo_pc 7 3)], bsp_highest_pc = demo_pc 7 3\<rparr>)) \<in> set (sv_out sv')"
proof -
  have "kv_block_at_height demo_prims demo_chain 1 = Inr None" by (simp add: demo_chain_simps)
  then have "committed_run demo_prims demo_chain 0 [demo_block 0 1 genesis_pc]"
    by (simp add: committed_run_def demo_chain_reads demo_chain_block)
  then show ?thesis
    using server_sends_chain [of demo_prims demo_chain 4 3 "\<lparr>bsr_chain_id = 0, bsr_start_height = 0, bsr_limit = 10\<rparr>" "[demo_block 0 1 genesis_pc]"
        "demo_pc 7 3" demo_server 2] demo_chain_newest_loop
    by (simp add: demo_chain_wf demo_chain_reads demo_chain_heights demo_server_def server_new_def max_def)
qed

lemma blacklist_expiry_inverted_witness:
  "\<exists>c. blacklist_sync_server 10 2 demo_client = Inr c \<and>
     blacklist_contains_server_address (remove_expired_blacklisted_servers 71 c) 2 \<and>
     \<not> blacklist_contains_server_address (remove_expired_blacklisted_servers 11 c) 2"
proof -
  have "bc_blacklist demo_client = []" "bc_blacklist_expiry_time demo_client = 60" by (simp_all add: demo_client_def client_new_def)
  moreover from this obtain c where "blacklist_sync_server 10 2 demo_client = Inr c"
    by (simp add: blacklist_sync_server_def instant_add_def instant_limit_def)
  ultimately show ?thesis
    using blacklist_expiry_inverted [of demo_client 10 2 c 71] blacklist_expiry_inverted [of demo_client 10 2 c 11] by simp
qed

section \<open>An application that accepts every block\<close>

definition demo_app :: "unit app_ops" where
  "demo_app = \<lparr>app_produce_block = (\<lambda>_ a. (\<lparr>pbr_data_hash = 0, pbr_data = [], pbr_app_state_updates = None, pbr_validator_set_updates = None\<rparr>, a)),
     app_validate_block = (\<lambda>_ a. (Valid None None, a)), app_validate_block_for_sync = (\<lambda>_ a. (Valid None None, a))\<rparr>"

definition demo_first :: block where
  "demo_first = demo_block 0 (block_compute_hash demo_prims 0 genesis_pc 0) genesis_pc"

lemma demo_first_ok:
  "block_is_correct demo_prims demo_init demo_first = Inr True" "safe_block demo_prims demo_init 0 demo_first = Inr True"
  "b_justify demo_first = genesis_pc" "is_genesis_pc genesis_pc"
  using demo_init_block_safe [OF demo_first_def] by (simp_all add: demo_first_def demo_block_def is_genesis_pc_def)

definition demo_inserted :: kv_store where
  "demo_inserted = bt_insert demo_prims demo_first None None demo_init"

lemma demo_inserted_reads:
  "kv_highest_pc demo_prims demo_inserted = Inr genesis_pc" "kv_validator_set_state demo_prims demo_inserted = Inr demo_vss"
  "kv_highest_view_phase_voted demo_prims demo_inserted = Inr None"
proof -
  have "kv_highest_pc demo_prims demo_inserted = kv_highest_pc demo_prims demo_init"
    by (simp add: demo_inserted_def kv_getter_defs kv_get_req_def bt_insert_other)
  moreover have "kv_validator_set_state demo_prims demo_inserted = kv_validator_set_state demo_prims demo_init"
    by (simp add: demo_inserted_def kv_validator_set_state_def kv_getter_defs kv_get_req_def kv_get_opt_def bt_insert_other)
  moreover have "kv_highest_view_phase_voted demo_prims demo_inserted = kv_highest_view_phase_voted demo_prims demo_init"
    by (simp add: demo_inserted_def kv_getter_defs kv_get_opt_def bt_insert_other)
  ultimately show "kv_highest_pc demo_prims demo_inserted = Inr genesis_pc"
    "kv_validator_set_state demo_prims demo_inserted = Inr demo_vss" "kv_highest_view_phase_voted demo_prims demo_inserted = Inr None"
    by (simp_all add: demo_init_reads)
qed

lemma demo_app_view:
  obtains view where "bt_app_view demo_prims demo_init None = Inr view"
proof -
  have "app_view_loop demo_prims demo_init hc None None = Some []" for hc by (subst app_view_loop.simps) simp
  then have "\<exists>view. bt_app_view demo_prims demo_init None = Inr view"
    by (simp add: bt_app_view_def bt_highest_committed_block_height_def demo_init_reads)
  with that show thesis by blast
qed

lemma demo_update: "bt_update demo_prims False genesis_pc demo_inserted = Inr (None, [], demo_inserted)"
  by (simp add: bt_update_def demo_inserted_reads pc_to_lock_def block_to_commit_def demo_first_ok(4) store_simps
      publish_update_block_tree_events_def)

lemma demo_sync_block: "fst (sync_block demo_prims demo_app demo_first (demo_node demo_init 3)) = Inr True"
proof -
  obtain view where v: "bt_app_view demo_prims demo_init None = Inr view" by (rule demo_app_view)
  have c: "bc_chain_id demo_client = 0" by (simp add: demo_client_def client_new_def)
  have p: "nd_publisher (demo_node s w) = False" for s w by (simp add: demo_node_def)
  show ?thesis
    by (simp add: sync_block_def pbind_def pthen_def pgets_def read_store_def pread_def call_app_def write_store_def pmodify_def
        event_publish_def update_block_tree_def update_validator_set_def pret_def demo_first_ok rand_def v demo_app_def c p
        demo_update [unfolded demo_inserted_def])
qed

lemma sync_block_inserts_checked_witness:
  "\<exists>n'. sync_block demo_prims demo_app demo_first (demo_node demo_init 3) = (Inr True, n') \<and>
     kv_newest_block demo_prims (nd_store n') = Inr (Some (b_hash demo_first))"
proof -
  obtain n' where "sync_block demo_prims demo_app demo_first (demo_node demo_init 3) = (Inr True, n')"
    using demo_sync_block by (cases "sync_block demo_prims demo_app demo_first (demo_node demo_init 3)") simp
  with sync_block_inserts_checked [OF this] show ?thesis by simp
qed

section \<open>Proposing and voting\<close>

lemma demo_leader: obtains l where "select_leader v demo_vs = Inr l"
  using select_leader_array [of demo_vs v] demo_vs_ok by simp

lemma demo_vote_sent:
  assumes l: "select_leader 3 demo_vs = Inr l" and m: "select_leader 4 demo_vs = Inr m"
  shows "sent_votes (snd (hs_on_receive_msg demo_prims demo_app (ProposalMsg \<lparr>p_chain_id = 0, p_view = 3, p_block = demo_first\<rparr>) l
      (demo_node demo_init 3))) \<noteq> []"
proof -
  obtain view where v: "bt_app_view demo_prims demo_init None = Inr view" by (rule demo_app_view)
  have p: "nd_publisher (demo_node s w) = False" for s w by (simp add: demo_node_def)
  have h: "nd_hotstuff (demo_node s w) = hotstuff_new 0 1 \<lparr>vi_view = w, vi_deadline = 100\<rparr> demo_vss" for s w by (simp add: demo_node_def)
  have "accepts_proposal demo_prims l (nd_hotstuff (demo_node demo_init 3)) demo_init = Inr True"
    by (simp add: accepts_proposal_def demo_init_reads is_proposer_def demo_vss_def l h hotstuff_new_def ror_def rand_def)
  moreover have "is_phase_voter 1 demo_vss genesis_pc"
    by (simp add: is_phase_voter_def demo_vss_def demo_vs_def vs_contains_def hm_contains_key_def hm_get_def)
  moreover have "keypair_public demo_prims 1 = 1" "vss_update_decided demo_vss" "committed_vs demo_vss = demo_vs"
    by (simp_all add: keypair_public_def demo_prims_def demo_vss_def)
  ultimately show ?thesis
    by (simp add: Let_def phase_vote_new_def send_hotstuff_def emit_def stop_accepting_def sent_votes_def map_filter_def hs_on_receive_msg_def on_receive_proposal_def process_justify_def vote_if_allowed_def cast_vote_def
        pbind_def pthen_def pwhen_def pgets_def read_store_def pread_def call_app_def write_store_def pmodify_def
        event_publish_def update_block_tree_def update_validator_set_def pret_def demo_first_ok rand_def v demo_app_def p
        demo_update [unfolded demo_inserted_def] demo_inserted_reads [unfolded demo_inserted_def] h hotstuff_new_def may_vote_def
        update_collectors_def set_hotstuff_def pure_res_def phase_vote_recipient_def m)
qed

lemma votes_are_checked_witness:
  "\<exists>l v. sent_votes (snd (hs_on_receive_msg demo_prims demo_app (ProposalMsg \<lparr>p_chain_id = 0, p_view = 3, p_block = demo_first\<rparr>) l
      (demo_node demo_init 3))) = [v] \<and> pv_view v = 3 \<and> pv_block v = b_hash demo_first"
proof -
  obtain l where l: "select_leader 3 demo_vs = Inr l" by (rule demo_leader)
  obtain m where m: "select_leader 4 demo_vs = Inr m" by (rule demo_leader)
  have n: "sent_votes (demo_node demo_init 3) = []" "vi_view (hs_view_info (nd_hotstuff (demo_node demo_init 3))) = 3"
    by (simp_all add: sent_votes_def demo_node_def map_filter_def hotstuff_new_def)
  from demo_vote_sent [OF l m] n have
    "sent_votes (snd (hs_on_receive_msg demo_prims demo_app (ProposalMsg \<lparr>p_chain_id = 0, p_view = 3, p_block = demo_first\<rparr>) l
      (demo_node demo_init 3))) \<noteq> sent_votes (demo_node demo_init 3)" by simp
  from votes_are_checked [OF this] n show ?thesis by (auto simp: proposal_checked_def)
qed

lemma leader_extends_highest_pc_witness:
  "\<exists>n' b. propose demo_prims demo_app (demo_node demo_init 3) = (Inr (), n') \<and> b_justify b = genesis_pc \<and> b_height b = 0 \<and>
     block_is_correct demo_prims demo_init b = Inr True"
proof -
  obtain view where v: "bt_app_view demo_prims demo_init None = Inr view" by (rule demo_app_view)
  have g: "is_genesis_pc genesis_pc" "pc_phase genesis_pc = Generic" by (simp_all add: is_genesis_pc_def genesis_pc_def)
  have "pc_is_correct demo_prims demo_init genesis_pc = Inr True" by (simp add: pc_is_correct_def g)
  with leader_extends_highest_pc [of demo_prims "demo_node demo_init 3" genesis_pc 0 view demo_app
      "\<lparr>pbr_data_hash = 0, pbr_data = [], pbr_app_state_updates = None, pbr_validator_set_updates = None\<rparr>" "()"]
  show ?thesis by (auto simp: demo_init_reads g v demo_app_def)
qed

section \<open>Validators that sign only one phase message\<close>

definition once_prims :: prims where
  "once_prims = demo_prims\<lparr>try_to_vec := (\<lambda>b. case b of BTuple [_, _, BBytes bs, BU8 t] \<Rightarrow> t # bs | _ \<Rightarrow> []),
     vk_verify := (\<lambda>k m s. m = 0 # crypto_hash_bytes 5 \<and> s = ucast k)\<rparr>"

lemma once_prims_message: "phase_message once_prims c v b ph = phase_tag ph # crypto_hash_bytes b"
  by (simp add: phase_message_def once_prims_def)

lemma once_prims_verify: "vk_verify once_prims k (phase_message once_prims c v b ph) s \<longleftrightarrow> b = 5 \<and> ph = Generic \<and> s = ucast k"
  unfolding once_prims_message by (cases ph) (auto simp: once_prims_def phase_tag_def)

definition once_pc :: "signature_set \<Rightarrow> phase_certificate" where
  "once_pc ss = \<lparr>pc_chain_id = 0, pc_view = 7, pc_block = 5, pc_phase = Generic, pc_signatures = ss\<rparr>"

lemma demo_quorum_value: "\<exists>q. vs_quorum demo_vs = Inr q \<and> unat q = 3"
  using vs_quorum_value [of demo_vs] demo_vs_ok by simp

lemma demo_powers: "vs_validators_and_powers demo_vs = Inr [(1, 3), (2, 1)]"
  using vs_validators_and_powers_ok [OF demo_vs_ok(1)] by (simp add: demo_vs_def vs_power_def hm_get_def)

lemma once_pc_signed: "pc_is_correctly_signed once_prims (once_pc [Some 1, Some 2]) demo_vs = Inr True"
  "pc_is_correctly_signed once_prims (once_pc [Some 1, None]) demo_vs = Inr True"
proof -
  obtain q where q: "vs_quorum demo_vs = Inr q" "unat q = 3" using demo_quorum_value by blast
  have "q \<le> 4" "q \<le> 3" using q(2) by (simp_all add: word_le_nat_alt)
  moreover have "sig_from_slice once_prims s" for s by (simp add: once_prims_def demo_prims_def)
  ultimately show "pc_is_correctly_signed once_prims (once_pc [Some 1, Some 2]) demo_vs = Inr True"
    "pc_is_correctly_signed once_prims (once_pc [Some 1, None]) demo_vs = Inr True"
    by (simp_all add: pc_is_correctly_signed_def once_pc_def is_correctly_signed_def demo_vs_ok demo_powers once_prims_verify q
        total_power_add_def)
qed

lemma no_conflicting_certificates_witness:
  "vs_tolerates demo_vs {2} \<and> pc_is_correctly_signed once_prims (once_pc [Some 1, Some 2]) demo_vs = Inr True \<and>
   pc_is_correctly_signed once_prims (once_pc [Some 1, None]) demo_vs = Inr True \<and>
   pc_block (once_pc [Some 1, None]) = pc_block (once_pc [Some 1, Some 2])"
proof -
  have "{2} \<inter> set (vs_validators demo_vs) = {2}" by (simp add: demo_vs_def)
  then have f: "vs_tolerates demo_vs {2}"
    by (simp add: vs_tolerates_def vs_power_of_def demo_vs_ok) (simp add: demo_vs_def vs_power_def hm_get_def)
  have c: "pc_chain_id (once_pc ss) = 0" "pc_view (once_pc ss) = 7" for ss by (simp_all add: once_pc_def)
  have "votes_once once_prims k 0 7" for k by (simp add: votes_once_def once_prims_verify)
  with no_conflicting_certificates [OF demo_vs_ok(3) f once_pc_signed] f once_pc_signed c show ?thesis by simp
qed

section \<open>A replica from its start\<close>

definition demo_config :: config where
  "demo_config = \<lparr>cf_chain_id = 0, cf_keypair = 1, cf_epoch_length = 10, cf_max_view_time = 50000000000, cf_request_limit = 5,
     cf_response_timeout = 10, cf_blacklist_expiry_time = 60, cf_trigger_min_view_difference = 3, cf_trigger_timeout = 20,
     cf_buffer_capacity = 1000, cf_publisher = False\<rparr>"

definition demo_timeouts :: "view_number \<Rightarrow> instant option" where
  "demo_timeouts = [0 \<mapsto> 50000000000]"

definition demo_alg :: "unit algorithm" where
  "demo_alg = \<lparr>al_chain_id = 0, al_buffer = mb_new 1000, al_node = \<lparr>nd_hotstuff = hotstuff_new 0 1 \<lparr>vi_view = 0, vi_deadline = 50000000000\<rparr> demo_vss,
     nd_pacemaker = \<lparr>pk_chain_id = 0, pk_keypair = 1, pk_epoch_length = 10, pk_max_view_time = 50000000000, pk_timeouts = demo_timeouts,
       pk_timeout_vote_collectors = acp_new tvc_ops 0 0 demo_vss, pk_last_advance_view = None,
       pk_view_info = \<lparr>vi_view = 0, vi_deadline = 50000000000\<rparr>\<rparr>,
     nd_client = demo_client, nd_store = demo_init, nd_app = (), nd_out = [], nd_publisher = False\<rparr>\<rparr>"

lemma demo_alg_new: "algorithm_new demo_prims demo_config 0 0 [] demo_init () = Inr demo_alg"
proof -
  have "epoch_change_view 0 10 = Inr 0" by (simp add: epoch_change_view_def epoch_def div_ceil_def)
  then have "initial_timeouts 0 0 10 50000000000 = Inr demo_timeouts"
    by (simp add: initial_timeouts_def insert_timeouts_def time_to_view_deadline_def as_secs_def demo_timeouts_def instant_add_def instant_limit_def)
  then have "pacemaker_new 0 0 1 10 50000000000 0 demo_vss = Inr (nd_pacemaker (al_node demo_alg))"
    by (simp add: pacemaker_new_def demo_alg_def demo_timeouts_def ok_or_def)
  moreover have "bt_highest_view_with_progress demo_prims demo_init = Inr 0"
    by (simp add: bt_highest_view_with_progress_def demo_init_reads genesis_pc_def view_init_def)
  ultimately show ?thesis
    by (simp add: algorithm_new_def demo_config_def demo_init_reads initial_view_def expect_def) (simp add: demo_alg_def demo_client_def pacemaker_query_def)
qed

lemma demo_alg_reachable: "reachable demo_prims demo_app demo_sizes demo_config demo_alg"
  using reachable.start [OF _ _ demo_alg_new [unfolded demo_init_def]] demo_vss_ok by (simp add: vss_ok_def)

lemma demo_app_typed: "typed_app demo_prims demo_app"
  by (simp add: typed_app_def demo_app_def updates_fit_def)

lemma block_tree_readable_witness:
  "(\<exists>vss. kv_validator_set_state demo_prims demo_init = Inr vss \<and> vss_ok demo_prims vss) \<and> (\<exists>pc. kv_locked_pc demo_prims demo_init = Inr pc) \<and>
   (\<exists>st. kv_validator_set_updates_status demo_prims demo_init 7 = Inr st)"
  using block_tree_readable [OF demo_alg_reachable demo_prims_laws(2) demo_app_typed] by (simp add: demo_alg_def)

lemma reachable_refines_protocol_witness:
  "\<exists>u vss tr. vss_ok demo_prims vss \<and> protocol_run demo_prims demo_app u vss tr \<and> ps_store (last tr) = demo_init \<and> ps_votes (last tr) = []"
  using reachable_refines_protocol [OF demo_alg_reachable] by (simp add: demo_alg_def sent_votes_def map_filter_def)

text \<open>One turn in which validator 2 advertises a committed block of height 9.\<close>

definition demo_advert :: progress_message where
  "demo_advert = BlockSyncAdvertiseMessage (AdvertiseBlockMsg \<lparr>ab_chain_id = 0, ab_highest_committed_block_height = 9, ab_signature = 2\<rparr>)"

definition demo_env :: sync_env where
  "demo_env = \<lparr>se_choose = (\<lambda>_. None), se_rounds = [], se_blacklist_time = 0, se_end_time = 0\<rparr>"

definition demo_turn :: turn where
  "demo_turn = \<lparr>tu_pacemaker_now = (\<lambda>_. 1), tu_channel = [(1, Received 2 demo_advert)], tu_handler_now = 1, tu_msg_sync = demo_env,
     tu_client_now = (\<lambda>_. 1), tu_tick_sync = demo_env\<rparr>"

definition demo_ticked :: "unit algorithm" where
  "demo_ticked = demo_alg\<lparr>al_node := (al_node demo_alg)\<lparr>nd_pacemaker := (nd_pacemaker (al_node demo_alg))\<lparr>pk_timeout_vote_collectors :=
     snd (acp_update_validator_sets tvc_ops (acp_new tvc_ops 0 0 demo_vss) demo_vss)\<rparr>\<rparr>\<rparr>"

lemma demo_tick: "on_node (pm_tick demo_prims (tu_pacemaker_now demo_turn)) demo_alg = (Inr (), demo_ticked)"
  by (simp add: on_node_def pm_tick_def pbind_def pthen_def pgets_def pwhen_def read_store_def pread_def set_pacemaker_def pmodify_def pret_def
      demo_alg_def demo_ticked_def demo_turn_def demo_init_reads demo_first_ok(4) expect_def)

lemma demo_enter: "on_node (enter_if_outdated demo_prims demo_app) demo_ticked = (Inr (), demo_ticked)"
  by (simp add: on_node_def enter_if_outdated_def pbind_def pgets_def pwhen_def pret_def pacemaker_query_def is_view_outdated_def
      demo_alg_def demo_ticked_def hotstuff_new_def expect_def)

lemma demo_recv:
  "recv_msg demo_sizes demo_turn (pacemaker_query (nd_pacemaker (al_node demo_ticked))) demo_ticked = (Inr (GotMsg 2 demo_advert), demo_ticked)"
  by (simp add: recv_msg_def recv_def Let_def remove_expired_msgs_def mb_new_def get_msg_def demo_advert_def cache_future_def
      demo_alg_def demo_ticked_def demo_turn_def pacemaker_query_def)

definition demo_after :: "unit algorithm" where
  "demo_after = demo_ticked\<lparr>al_node := (al_node demo_ticked)\<lparr>nd_client := demo_client\<lparr>bc_available_sync_servers := [(2, 9)]\<rparr>\<rparr>\<rparr>"

lemma demo_dispatch: "dispatch demo_prims demo_app demo_turn (GotMsg 2 demo_advert) demo_ticked = (Inr (), demo_after)"
proof -
  have "kv_committed_validator_set demo_prims demo_init = Inr demo_vs"
    using demo_init_reads(1) by (auto simp: kv_validator_set_state_def demo_vss_def rbind_eq_Inr_iff)
  moreover have "vs_contains demo_vs 2" by (simp add: demo_vs_def vs_contains_def hm_contains_key_def hm_get_def)
  ultimately have "is_sync_server_address demo_prims 2 demo_init = Inr True" by (simp add: is_sync_server_address_def)
  then show ?thesis
    by (simp add: dispatch_def demo_advert_def on_node_def client_on_receive_msg_def on_receive_advertise_block_def pbind_def pgets_def
        read_store_def pread_def set_client_def pmodify_def register_or_update_sync_server_def demo_after_def demo_ticked_def demo_alg_def
        demo_client_def client_new_def advertise_block_is_correct_def signed_message_is_correct_def blacklist_contains_server_address_def
        hm_insert_def expect_def) (simp add: demo_prims_def)
qed

lemma demo_client_tick: "on_node (client_tick demo_prims demo_app demo_env (\<lambda>_. 1)) demo_after = (Inr (), demo_after)"
  by (simp add: on_node_def client_tick_def pbind_def pthen_def pgets_def pwhen_def read_store_def pread_def set_client_def pmodify_def pret_def
      remove_expired_blacklisted_servers_def demo_after_def demo_ticked_def demo_alg_def demo_client_def client_new_def demo_init_reads
      genesis_pc_def view_init_def expect_def)

lemma demo_executes: "execute_turn demo_prims demo_app demo_sizes demo_turn demo_alg = (Inr (), demo_after)"
proof -
  have "tu_tick_sync demo_turn = demo_env" "tu_client_now demo_turn = (\<lambda>_. 1)" by (simp_all add: demo_turn_def)
  with demo_tick demo_enter demo_recv demo_dispatch demo_client_tick show ?thesis
    by (simp add: execute_turn_def pthen_def pbind_def pgets_def)
qed

lemma demo_after_reachable: "reachable demo_prims demo_app demo_sizes demo_config demo_after"
  using reachable.turn [OF demo_alg_reachable demo_executes] .

text \<open>
  A turn in which validator 2 sends a timeout certificate for view 10, while the clock is at the end of its range: the certificate
  is recorded, then the thread panics on the timeouts of the next epoch. The replica can be started again, in view 11.
\<close>

definition demo_tc_message :: progress_message where
  "demo_tc_message = PacemakerMessage (AdvanceViewMsg \<lparr>av_progress_certificate = TimeoutCertificate (demo_tc 10)\<rparr>)"

definition demo_tc_turn :: turn where
  "demo_tc_turn = demo_turn\<lparr>tu_channel := [(1, Received 2 demo_tc_message)], tu_handler_now := instant_limit\<rparr>"

definition demo_tc_store :: kv_store where
  "demo_tc_store = bt_set_highest_tc demo_prims (demo_tc 10) demo_init"

lemma demo_tc_recv:
  "\<exists>b. recv_msg demo_sizes demo_tc_turn (pacemaker_query (nd_pacemaker (al_node demo_ticked))) demo_ticked =
     (Inr (GotMsg 2 demo_tc_message), demo_ticked\<lparr>al_buffer := b\<rparr>)"
  by (simp add: recv_msg_def recv_def Let_def remove_expired_msgs_def mb_new_def get_msg_def demo_tc_message_def cache_future_def
      demo_alg_def demo_ticked_def demo_tc_turn_def demo_turn_def pacemaker_query_def demo_tc_def)

lemma demo_update_view_panics:
  assumes "vi_view (pk_view_info (nd_pacemaker n)) = 0" and "pk_epoch_length (nd_pacemaker n) = 10"
  shows "update_view instant_limit 11 vss n = (Inl (Panicked InstantOverflow), n)"
proof -
  have e: "epoch 0 10 = Inr 0" "epoch 11 10 = Inr 2" by (simp_all add: epoch_def div_ceil_def)
  have "insert_timeouts mvt instant_limit 11 20 m = Inl (Panicked InstantOverflow)" for mvt m
    by (simp add: insert_timeouts_def instant_add_def upt_conv_Cons)
  then have "update_timeouts instant_limit 11 (nd_pacemaker n) = Inl (Panicked InstantOverflow)"
    by (simp add: update_timeouts_def epoch_change_view_def assms(2) e Let_def)
  with assms e show ?thesis
    by (simp add: update_view_def pbind_def pgets_def pthen_def pure_res_def pread_def try_set_pacemaker_def Let_def)
qed

lemma demo_tc_dispatch:
  "\<exists>a'. dispatch demo_prims demo_app demo_tc_turn (GotMsg 2 demo_tc_message) (demo_ticked\<lparr>al_buffer := b\<rparr>) = (Inl (Panicked InstantOverflow), a') \<and>
     nd_store (al_node a') = demo_tc_store"
proof -
  let ?n = "al_node demo_ticked" and ?av = "\<lparr>av_progress_certificate = TimeoutCertificate (demo_tc 10)\<rparr>"
  have n: "nd_store ?n = demo_init" "nd_publisher ?n = False" "pk_epoch_length (nd_pacemaker ?n) = 10"
    "vi_view (pk_view_info (nd_pacemaker ?n)) = 0" by (simp_all add: demo_ticked_def demo_alg_def)
  have v: "tc_view (demo_tc 10) = 10" by (simp add: demo_tc_def)
  have valid: "progress_certificate_valid demo_prims 10 (TimeoutCertificate (demo_tc 10)) demo_init = Inr True"
    by (simp add: progress_certificate_valid_def demo_tc_correct is_epoch_change_view_def v rand_def)
  have vss: "kv_validator_set_state demo_prims demo_tc_store = Inr demo_vss"
    using demo_init_reads(1) by (simp add: demo_tc_store_def bt_set_highest_tc_def wb_setter_defs kv_validator_set_state_def kv_getter_defs
        kv_get_req_def kv_get_opt_def store_simps)
  let ?m = "?n\<lparr>nd_store := demo_tc_store\<rparr>"
  obtain m' l where m': "pwhen (is_validator (keypair_public demo_prims (pk_keypair (nd_pacemaker ?m))) demo_vss \<and> not_advanced_yet (nd_pacemaker ?m))
      (broadcast_advance_view ?av) ?m = (Inr (), m')" "nd_pacemaker m' = (nd_pacemaker ?m)\<lparr>pk_last_advance_view := l\<rparr>" "nd_store m' = demo_tc_store"
    using maybe_broadcast_run [of "is_validator (keypair_public demo_prims (pk_keypair (nd_pacemaker ?m))) demo_vss \<and> not_advanced_yet (nd_pacemaker ?m)" ?av ?m]
    by auto
  have panic: "update_view instant_limit 11 demo_vss m' = (Inl (Panicked InstantOverflow), m')"
    by (rule demo_update_view_panics) (simp_all add: m'(2) n)
  have "on_receive_advance_view demo_prims instant_limit ?av 2 ?n = (Inl (Panicked InstantOverflow), m')"
    using valid v vss m'(1) panic n
    by (simp add: on_receive_advance_view_def publish_run Let_def pbind_def pthen_def pgets_def read_store_def pread_def demo_init_reads
        record_higher_tc_def tc_is_higher_def set_highest_tc_def write_store_def pmodify_def event_publish_def pwhen_def [of True]
        flip: demo_tc_store_def)
  with m'(3) show ?thesis
    by (simp add: dispatch_def demo_tc_message_def on_node_def pm_on_receive_msg_def demo_tc_turn_def expect_def)
qed

lemma demo_tc_reachable:
  obtains a where "reachable demo_prims demo_app demo_sizes demo_config a" "nd_store (al_node a) = demo_tc_store"
proof -
  obtain b where r: "recv_msg demo_sizes demo_tc_turn (pacemaker_query (nd_pacemaker (al_node demo_ticked))) demo_ticked =
     (Inr (GotMsg 2 demo_tc_message), demo_ticked\<lparr>al_buffer := b\<rparr>)" using demo_tc_recv by blast
  obtain a' where d: "dispatch demo_prims demo_app demo_tc_turn (GotMsg 2 demo_tc_message) (demo_ticked\<lparr>al_buffer := b\<rparr>) =
     (Inl (Panicked InstantOverflow), a')" "nd_store (al_node a') = demo_tc_store" using demo_tc_dispatch by blast
  have "tu_pacemaker_now demo_tc_turn = tu_pacemaker_now demo_turn" by (simp add: demo_tc_turn_def)
  with demo_tick demo_enter r d(1) have "execute_turn demo_prims demo_app demo_sizes demo_tc_turn demo_alg = (Inl (Panicked InstantOverflow), a')"
    by (simp add: execute_turn_def pthen_def pbind_def pgets_def)
  from reachable.turn [OF demo_alg_reachable this] d(2) that show thesis by blast
qed

lemma restart_succeeds_witness:
  "\<exists>a' :: unit algorithm. algorithm_new demo_prims demo_config 5 6 [] demo_tc_store () = Inr a' \<and>
     vi_view (pk_view_info (nd_pacemaker (al_node a'))) = 11"
proof -
  obtain a where a: "reachable demo_prims demo_app demo_sizes demo_config a" "nd_store (al_node a) = demo_tc_store" by (rule demo_tc_reachable)
  have "kv_highest_view_entered demo_prims demo_tc_store = Inr 0" "kv_highest_pc demo_prims demo_tc_store = Inr genesis_pc"
    "kv_highest_tc demo_prims demo_tc_store = Inr (Some (demo_tc 10))"
    using demo_init_reads by (simp_all add: demo_tc_store_def bt_set_highest_tc_def wb_setter_defs kv_getter_defs kv_get_req_def
        kv_get_opt_def store_simps ok_or_def)
  then have views: "progress_views demo_prims demo_tc_store = {0, 10}" by (auto simp: progress_views_def genesis_pc_def demo_tc_def view_init_def)
  have "clock_in_range 5 (cf_epoch_length demo_config) (cf_max_view_time demo_config)" "cf_epoch_length demo_config = 10"
    by (simp_all add: clock_in_range_def demo_config_def instant_limit_def)
  moreover have "epoch_end 10 (unat v + 1) < 2 ^ 64" if "v \<in> {0, 10}" for v :: view_number using that by (auto simp: epoch_end_def)
  ultimately obtain a' :: "unit algorithm" where
    a': "algorithm_new demo_prims demo_config 5 6 [] demo_tc_store () = Inr a'"
    "\<forall>w \<in> {0, 10}. w < vi_view (pk_view_info (nd_pacemaker (al_node a')))" "vi_view (pk_view_info (nd_pacemaker (al_node a'))) - 1 \<in> {0, 10}"
    using restart_succeeds [OF a(1) demo_prims_laws(2), of 5 6 "[]" "()"] by (auto simp: a(2) views)
  then have "vi_view (pk_view_info (nd_pacemaker (al_node a'))) = 11" by (auto simp: diff_eq_eq)
  with a'(1) show ?thesis by blast
qed

text \<open>Another turn from the start, in which the leader of view 0 proposes the first block and the replica votes for it.\<close>

definition demo_proposal_turn :: "verifying_key \<Rightarrow> turn" where
  "demo_proposal_turn l = demo_turn\<lparr>tu_channel :=
     [(1, Received l (HotStuffMessage (ProposalMsg \<lparr>p_chain_id = 0, p_view = 0, p_block = demo_first\<rparr>)))]\<rparr>"

definition demo_voted :: "verifying_key \<Rightarrow> verifying_key \<Rightarrow> unit algorithm" where
  "demo_voted l m = demo_ticked\<lparr>al_node := (al_node demo_ticked)\<lparr>nd_app := (),
     nd_hotstuff := \<lparr>hs_chain_id = 0, hs_keypair = 1, hs_view_info = \<lparr>vi_view = 0, vi_deadline = 50000000000\<rparr>,
       hs_proposal_status = OneLeaderProposed l,
       hs_phase_vote_collectors = snd (acp_update_validator_sets pvc_ops (acp_new pvc_ops 0 0 demo_vss) demo_vss)\<rparr>,
     nd_store := bt_set_highest_view_phase_voted demo_prims 0 demo_inserted,
     nd_out := [Send m (ProgressMessage (HotStuffMessage (PhaseVoteMsg (phase_vote_new demo_prims 1 0 0 (b_hash demo_first) Generic))))]\<rparr>\<rparr>"

lemma demo_vote_dispatch:
  assumes l: "select_leader 0 demo_vs = Inr l" and m: "select_leader 1 demo_vs = Inr m"
  shows "dispatch demo_prims demo_app (demo_proposal_turn l)
      (GotMsg l (HotStuffMessage (ProposalMsg \<lparr>p_chain_id = 0, p_view = 0, p_block = demo_first\<rparr>))) demo_ticked = (Inr (), demo_voted l m)"
proof -
  obtain view where v: "bt_app_view demo_prims demo_init None = Inr view" by (rule demo_app_view)
  have n: "nd_hotstuff (al_node demo_ticked) = hotstuff_new 0 1 \<lparr>vi_view = 0, vi_deadline = 50000000000\<rparr> demo_vss"
    "nd_store (al_node demo_ticked) = demo_init" "nd_publisher (al_node demo_ticked) = False" "nd_out (al_node demo_ticked) = []"
    by (simp_all add: demo_ticked_def demo_alg_def)
  have "accepts_proposal demo_prims l (nd_hotstuff (al_node demo_ticked)) demo_init = Inr True"
    by (simp add: accepts_proposal_def demo_init_reads is_proposer_def demo_vss_def l n hotstuff_new_def ror_def rand_def)
  moreover have "is_phase_voter 1 demo_vss genesis_pc"
    by (simp add: is_phase_voter_def demo_vss_def demo_vs_def vs_contains_def hm_contains_key_def hm_get_def)
  moreover have "keypair_public demo_prims 1 = 1" "vss_update_decided demo_vss" "committed_vs demo_vss = demo_vs"
    by (simp_all add: keypair_public_def demo_prims_def demo_vss_def)
  ultimately show ?thesis
    by (simp add: dispatch_def on_node_def hs_on_receive_msg_def on_receive_proposal_def process_justify_def vote_if_allowed_def cast_vote_def
        pbind_def pthen_def pwhen_def pgets_def read_store_def pread_def call_app_def write_store_def pmodify_def Let_def
        event_publish_def update_block_tree_def update_validator_set_def pret_def demo_first_ok rand_def v demo_app_def
        demo_update [unfolded demo_inserted_def] demo_inserted_reads [unfolded demo_inserted_def] n hotstuff_new_def may_vote_def
        update_collectors_def set_hotstuff_def pure_res_def phase_vote_recipient_def m send_hotstuff_def emit_def stop_accepting_def
        phase_vote_new_def expect_def demo_voted_def demo_inserted_def)
qed

lemma demo_proposal_recv:
  "recv_msg demo_sizes (demo_proposal_turn l) (pacemaker_query (nd_pacemaker (al_node demo_ticked))) demo_ticked =
      (Inr (GotMsg l (HotStuffMessage (ProposalMsg \<lparr>p_chain_id = 0, p_view = 0, p_block = demo_first\<rparr>))), demo_ticked)"
  by (simp add: recv_msg_def recv_def Let_def remove_expired_msgs_def mb_new_def get_msg_def cache_future_def
      demo_alg_def demo_ticked_def demo_proposal_turn_def demo_turn_def pacemaker_query_def)

text \<open>The proposal that is handled in this turn is of the view in which HotStuff and the pacemaker are.\<close>

lemma messages_meet_preconditions_witness:
  "\<exists>l a3. recv_msg demo_sizes (demo_proposal_turn l) (pacemaker_query (nd_pacemaker (al_node demo_ticked))) demo_ticked =
      (Inr (GotMsg l (HotStuffMessage (ProposalMsg \<lparr>p_chain_id = 0, p_view = 0, p_block = demo_first\<rparr>))), a3) \<and>
     vi_view (hs_view_info (nd_hotstuff (al_node a3))) = 0 \<and> vi_view (pk_view_info (nd_pacemaker (al_node a3))) = 0"
proof -
  have "tu_pacemaker_now (demo_proposal_turn l) = tu_pacemaker_now demo_turn" for l by (simp add: demo_proposal_turn_def)
  with demo_tick have tick: "on_node (pm_tick demo_prims (tu_pacemaker_now (demo_proposal_turn l))) demo_alg = (Inr (), demo_ticked)" for l by simp
  from messages_meet_preconditions [OF demo_alg_reachable tick demo_enter demo_proposal_recv] demo_proposal_recv show ?thesis
    by (simp add: Let_def)
qed

lemma demo_vote_turn:
  assumes l: "select_leader 0 demo_vs = Inr l" and m: "select_leader 1 demo_vs = Inr m"
  shows "execute_turn demo_prims demo_app demo_sizes (demo_proposal_turn l) demo_alg = (Inr (), demo_voted l m)"
proof -
  have t: "tu_tick_sync (demo_proposal_turn l) = demo_env" "tu_client_now (demo_proposal_turn l) = (\<lambda>_. 1)"
    "tu_pacemaker_now (demo_proposal_turn l) = tu_pacemaker_now demo_turn" by (simp_all add: demo_proposal_turn_def demo_turn_def)
  have "kv_highest_pc demo_prims (bt_set_highest_view_phase_voted demo_prims 0 demo_inserted) = Inr genesis_pc"
    using demo_inserted_reads(1)
    by (simp add: bt_set_highest_view_phase_voted_def kv_highest_pc_def kv_get_req_def wb_setter_defs store_simps)
  then have c: "on_node (client_tick demo_prims demo_app demo_env (\<lambda>_. 1)) (demo_voted l m) = (Inr (), demo_voted l m)"
    by (simp add: on_node_def client_tick_def pbind_def pthen_def pgets_def pwhen_def read_store_def pread_def set_client_def pmodify_def pret_def
        remove_expired_blacklisted_servers_def demo_voted_def demo_ticked_def demo_alg_def demo_client_def client_new_def
        genesis_pc_def view_init_def expect_def)
  from demo_tick demo_enter demo_proposal_recv demo_vote_dispatch [OF l m] c t show ?thesis by (simp add: execute_turn_def pthen_def pbind_def pgets_def)
qed

lemma at_most_one_vote_per_view_witness:
  "\<exists>a v. reachable demo_prims demo_app demo_sizes demo_config a \<and> sent_votes (al_node a) = [v] \<and>
     (\<exists>w. kv_highest_view_phase_voted demo_prims (nd_store (al_node a)) = Inr (Some w) \<and> pv_view v \<le> w)"
proof -
  obtain l m where lm: "select_leader 0 demo_vs = Inr l" "select_leader 1 demo_vs = Inr m" using demo_leader by metis
  have r: "reachable demo_prims demo_app demo_sizes demo_config (demo_voted l m)"
    using reachable.turn [OF demo_alg_reachable demo_vote_turn [OF lm]] .
  have "sent_votes (al_node (demo_voted l m)) = [phase_vote_new demo_prims 1 0 0 (b_hash demo_first) Generic]"
    by (simp add: demo_voted_def sent_votes_def map_filter_def)
  with at_most_one_vote_per_view [OF r] r show ?thesis by auto
qed

lemma turn_keeps_progress_witness:
  "\<exists>pc'. kv_highest_pc demo_prims (nd_store (al_node demo_after)) = Inr pc' \<and> 0 \<le> pc_view pc'"
proof -
  have "kv_highest_pc demo_prims (nd_store (al_node demo_alg)) = Inr genesis_pc" by (simp add: demo_alg_def demo_init_reads)
  from turn_keeps_progress [OF demo_executes this] show ?thesis by auto
qed

lemma sync_server_not_blacklisted_witness:
  "\<not> blacklist_contains_server_address (nd_client (al_node demo_after)) 2"
proof -
  have "choose_law (\<lambda>xs. case xs of [] \<Rightarrow> None | x # _ \<Rightarrow> Some x)" by (auto simp: choose_law_def split: list.splits)
  moreover have "random_sync_server (\<lambda>xs. case xs of [] \<Rightarrow> None | x # _ \<Rightarrow> Some x) (Some 5) (nd_client (al_node demo_after)) = Some 2"
    by (simp add: random_sync_server_def demo_after_def hm_get_def)
  ultimately show ?thesis using sync_server_not_blacklisted [OF demo_after_reachable] by blast
qed

section \<open>Events and a whole replica\<close>

definition demo_log :: "string list log_env" where
  "demo_log = \<lparr>base64_encode = map (\<lambda>b. char_of (unat b)), log_info = (\<lambda>line w. w @ [line])\<rparr>"

definition demo_handlers :: "string list event_handlers" where
  "demo_handlers = event_handlers_new demo_log True no_user_handlers"

lemma event_logged_readably_witness:
  "\<exists>line secs rest. fire_handlers demo_handlers (7000000001, StartViewEvent 3) [] = (Inr (), [line]) \<and>
     csv_values line = ''StartView'' # secs # rest \<and> read_nat secs = 7"
  using event_logged_readably [of 7000000001 demo_log "StartViewEvent 3" "[]"] by (simp add: demo_handlers_def demo_log_def)

definition demo_input :: "timed_event list \<Rightarrow> timed_event list \<Rightarrow> bus_input" where
  "demo_input before between = \<lparr>bi_shutdown = TryEmpty, bi_before = before, bi_between = between, bi_connected = True\<rparr>"

lemma event_bus_in_order_witness:
  "\<exists>k \<ge> 1. snd (snd (event_bus_run demo_handlers [demo_input [] [], demo_input [(6, StartViewEvent 2)] []] ([(5, StartViewEvent 1)], []))) =
     snd (fire_all demo_handlers (take k [(5, StartViewEvent 1), (6, StartViewEvent 2)]) [])"
  using event_bus_in_order [of "[demo_input [] [], demo_input [(6, StartViewEvent 2)] []]" "[(5, StartViewEvent 1)]" demo_handlers "[]"]
  by (auto simp: demo_input_def)

lemma event_lost_in_gap_witness:
  "event_bus_turn demo_handlers (demo_input [] [(5, StartViewEvent 1)]) ([], []) = (Inr False, [], [])"
  by (rule event_lost_in_gap) (simp_all add: demo_input_def)

definition demo_configuration :: configuration where
  "demo_configuration = \<lparr>me = 1, cfg_chain_id = 0, block_sync_request_limit = 5, block_sync_server_advertise_time = 10,
     block_sync_response_timeout = 10, block_sync_blacklist_expiry_time = 60, block_sync_trigger_min_view_difference = 3,
     block_sync_trigger_timeout = 20, progress_msg_buffer_capacity = 1000, cfg_epoch_length = 10, cfg_max_view_time = 50000000000,
     log_events = True\<rparr>"

lemma replica_start_reachable_witness:
  "\<exists>r. replica_start demo_prims demo_log demo_configuration no_user_handlers (\<lambda>_. 0) [] (replica_initialize demo_prims us_new demo_vss Map.empty) () = Inr r \<and>
     rp_init_validator_set r = demo_vs \<and> nd_publisher (al_node (rp_algorithm r))"
proof -
  have "cfg_epoch_length demo_configuration \<noteq> 0"
    "clock_in_range 0 (cfg_epoch_length demo_configuration) (cfg_max_view_time demo_configuration)"
    by (simp_all add: demo_configuration_def clock_in_range_def instant_limit_def)
  from replica_start_reachable [OF demo_vss_ok this(1), of "\<lambda>_. 0" demo_log no_user_handlers "()" demo_app demo_sizes] this(2) show ?thesis
    using event_handlers_empty_iff(2) [of demo_log no_user_handlers] by (auto simp: demo_configuration_def demo_vss_def)
qed

end
