(* ===== verification/Validator_Lifecycle.thy ===== *)
theory Validator_Lifecycle
  imports Store_History
begin

text \<open>
  How the validator sets in the block tree evolve. An update either leaves the validator set state alone, ends the latest
  update on a \<^verbatim>\<open>Decide\<close> certificate, or rotates the sets because a block with validator set updates was
  committed: the committed set becomes the previous one. Over a run, the state of the validator sets starts at the initial one,
  and each step of the run makes at most one such change, with updates that the application returned for an inserted block.
\<close>

section \<open>What committing does to the validator set state\<close>

definition vss_paths :: "kv_path set" where
  "vss_paths = {PCommittedValidatorSet, PPreviousValidatorSet, PUpdateHeight, PUpdateDecided}"

lemma vss_paths_simps:
  "p \<in> vss_paths \<Longrightarrow> of_block p = None" "p \<in> vss_paths \<Longrightarrow> \<not> is_datum p" "p \<in> vss_paths \<Longrightarrow> p \<noteq> PAppState k"
  "p \<in> vss_paths \<Longrightarrow> p \<noteq> PBlockAtHeight h" "p \<in> vss_paths \<Longrightarrow> p \<noteq> PPendingAppState b" "p \<in> vss_paths \<Longrightarrow> p \<noteq> PHighestCommittedBlock"
  by (auto simp: vss_paths_def)

text \<open>The updates that \<^verbatim>\<open>update\<close> returns: those of the last committed block that has any.\<close>

definition last_updates :: "committed_blocks \<Rightarrow> validator_set_updates option" where
  "last_updates cb = Option.bind (List.find (\<lambda>(_, u). u \<noteq> None) (rev cb)) snd"

lemma last_updates_simps [simp]:
  "last_updates [] = None" "last_updates (cb @ [(b, None)]) = last_updates cb" "last_updates (cb @ [(b, Some u)]) = Some u"
  by (simp_all add: last_updates_def)

text \<open>What a batch in the making has done to the validator set state of the store \<open>s\<close>.\<close>

definition vss_written :: "prims \<Rightarrow> kv_store \<Rightarrow> committed_blocks \<times> write_batch \<Rightarrow> bool" where
  "vss_written P s acc \<longleftrightarrow> (case last_updates (fst acc) of
       None \<Rightarrow> same_at P vss_paths s (kv_write (snd acc) s)
     | Some u \<Rightarrow> \<exists>b h previous committed. kv_validator_set_updates_status P s b = Inr (Pending u) \<and> kv_block_height P s b = Inr (Some h) \<and>
         kv_committed_validator_set P s = Inr previous \<and> vs_apply_updates previous u = Inr committed \<and>
         kv_write (snd acc) s (path_bytes P PCommittedValidatorSet) = Some (VValidatorSet (vs_to_bytes committed)) \<and>
         kv_write (snd acc) s (path_bytes P PPreviousValidatorSet) = Some (VValidatorSet (vs_to_bytes previous)) \<and>
         kv_write (snd acc) s (path_bytes P PUpdateHeight) = Some (VU64 h) \<and>
         kv_write (snd acc) s (path_bytes P PUpdateDecided) = Some (VBool False))"

lemma vss_written_frame:
  assumes "vss_written P s (cb, wb)" and "\<And>p. p \<in> vss_paths \<Longrightarrow> wb_frame P p wb wb'" and "last_updates cb' = last_updates cb"
  shows "vss_written P s (cb', wb')"
proof -
  have "kv_write wb' s (path_bytes P p) = kv_write wb s (path_bytes P p)" if "p \<in> vss_paths" for p
    using assms(2) [OF that] by (simp add: wb_frame_def)
  with assms(1,3) show ?thesis by (simp add: vss_written_def vss_paths_def same_at_def split: option.splits)
qed

lemma commit_block_vss:
  assumes "commit_block P s block b (cb, wb) = Inr (cb', wb')" and "vss_written P s (cb, wb)"
  shows "vss_written P s (cb', wb')"
  using assms(1)
proof (cases rule: commit_block_cases)
  case (1 h wb1 pending status wb2 wb3)
  have 2: "wb_frame P p wb wb2" if "p \<in> vss_paths" for p
  proof -
    note p = vss_paths_simps [OF that]
    have "wb_frame P p wb wb1"
      by (rule wb_frame_trans [OF wb_frame_block_at_height [OF _ wb_frame_refl] delete_siblings_frame [OF 1(2) p(1)]]) (use p(4) in simp)
    then show ?thesis
      using p p(5) [THEN not_sym] by (cases pending) (simp_all add: 1(5) wb_setter_defs wb_frame_delete wb_frame_app)
  qed
  show ?thesis
  proof (cases "\<exists>u. status = Pending u")
    case False
    then have cb: "cb' = cb @ [(b, None)]" and wb': "wb' = wb_set P PHighestCommittedBlock (VHash b) wb2"
      using 1(6,7) by (auto simp: wb_setter_defs)
    have "wb_frame P p wb wb'" if "p \<in> vss_paths" for p
      unfolding wb' using vss_paths_simps [OF that] vss_paths_simps(6) [OF that, THEN not_sym] 2 [OF that] by (intro wb_frame_set) simp_all
    with vss_written_frame [OF assms(2)] show ?thesis by (simp add: cb)
  next
    case True
    then obtain u where u: "status = Pending u" by blast
    from 1(8) [OF u] obtain previous committed where cb: "cb' = cb @ [(b, Some u)]"
      and set: "kv_committed_validator_set P s = Inr previous" "vs_apply_updates previous u = Inr committed"
      and wb3: "wb3 = wb_set_committed_validator_set_updates P block (wb_set_validator_set_update_decided P False
                 (wb_set_validator_set_update_block_height P h (wb_set_previous_validator_set P previous
                   (wb_set_committed_validator_set P committed wb2))))" by blast
    have "kv_write wb' s (path_bytes P PCommittedValidatorSet) = Some (VValidatorSet (vs_to_bytes committed))"
      "kv_write wb' s (path_bytes P PPreviousValidatorSet) = Some (VValidatorSet (vs_to_bytes previous))"
      "kv_write wb' s (path_bytes P PUpdateHeight) = Some (VU64 h)" "kv_write wb' s (path_bytes P PUpdateDecided) = Some (VBool False)"
      by (simp_all add: 1(6) wb3 wb_setter_defs store_simps)
    with 1(1,4) u set show ?thesis unfolding cb vss_written_def fst_conv snd_conv last_updates_simps option.case by blast
  qed
qed

lemma bt_commit_vss:
  assumes "bt_commit P s block wb = Inr (cb, wb')" and "vss_written P s ([], wb)"
  shows "vss_written P s (cb, wb')"
proof -
  from assms(1) obtain l where f: "rfold (commit_block P s block) l ([], wb) = Inr (cb, wb')"
    by (auto simp: bt_commit_def rbind_eq_Inr_iff)
  show ?thesis by (rule rfold_invariant [OF f, of "vss_written P s"]) (use assms(2) commit_block_vss in \<open>auto split: prod.splits\<close>)
qed

section \<open>What an update does to it\<close>

text \<open>The validator set state after the updates \<open>u\<close> of a block of height \<open>h\<close> were committed.\<close>

definition rotate :: "validator_set_state \<Rightarrow> validator_set \<Rightarrow> block_height \<Rightarrow> validator_set_state" where
  "rotate vss committed h = \<lparr>committed_vs = committed, previous_vs = committed_vs vss, vss_update_height = Some h, vss_update_decided = False\<rparr>"

definition decide_if :: "bool \<Rightarrow> validator_set_state \<Rightarrow> validator_set_state" where
  "decide_if d vss = vss\<lparr>vss_update_decided := d \<or> vss_update_decided vss\<rparr>"

lemma kv_vss_same:
  "same_at P vss_paths s t \<Longrightarrow> kv_validator_set_state P t = kv_validator_set_state P s"
  by (simp add: same_at_def vss_paths_def kv_validator_set_state_def kv_getter_defs kv_get_req_def kv_get_opt_def)

lemma kv_vss_decide:
  assumes "kv_validator_set_state P t = Inr vss"
  shows "kv_validator_set_state P (kv_write (wb_set_validator_set_update_decided P True wb_new) t) = Inr (decide_if True vss)"
  using assms by (auto simp: kv_validator_set_state_def kv_getter_defs kv_get_req_def kv_get_opt_def rbind_eq_Inr_iff wb_setter_defs
      store_simps decide_if_def)

lemma kv_write_last: "kv_write (wb_set P p v wb) s = kv_write (wb_set P p v wb_new) (kv_write wb s)"
  by (simp add: kv_write_def wb_set_def wb_new_def)

lemma vss_written_reads:
  assumes "vss_written P s (cb, wb)" and "well_typed P s" and "vk_parse_exact P" and vss: "kv_validator_set_state P s = Inr vss"
  shows "case last_updates cb of None \<Rightarrow> kv_validator_set_state P (kv_write wb s) = Inr vss
    | Some u \<Rightarrow> \<exists>b h committed. kv_validator_set_updates_status P s b = Inr (Pending u) \<and> kv_block_height P s b = Inr (Some h) \<and>
        vs_apply_updates (committed_vs vss) u = Inr committed \<and> kv_validator_set_state P (kv_write wb s) = Inr (rotate vss committed h)"
proof (cases "last_updates cb")
  case None
  with assms(1) vss kv_vss_same show ?thesis by (simp add: vss_written_def)
next
  case (Some u)
  with assms(1) obtain b h previous committed where
    b: "kv_validator_set_updates_status P s b = Inr (Pending u)" "kv_block_height P s b = Inr (Some h)"
    "kv_committed_validator_set P s = Inr previous" "vs_apply_updates previous u = Inr committed"
    and w: "kv_write wb s (path_bytes P PCommittedValidatorSet) = Some (VValidatorSet (vs_to_bytes committed))"
    "kv_write wb s (path_bytes P PPreviousValidatorSet) = Some (VValidatorSet (vs_to_bytes previous))"
    "kv_write wb s (path_bytes P PUpdateHeight) = Some (VU64 h)" "kv_write wb s (path_bytes P PUpdateDecided) = Some (VBool False)"
    by (auto simp: vss_written_def)
  have p: "previous = committed_vs vss" using vss b(3) by (auto simp: kv_validator_set_state_def rbind_eq_Inr_iff)
  have "typed P s" using assms(2) by (simp add: well_typed_def)
  from stored_validator_set [OF this b(3)] have ok: "vs_ok previous" "vs_keys_parse P previous" by simp_all
  from vs_apply_updates_keeps [OF b(4) ok pending_updates_keys [OF b(1) assms(3)]] have ok': "vs_ok committed" "vs_keys_parse P committed" by simp_all
  have "kv_validator_set_state P (kv_write wb s) = Inr (rotate vss committed h)"
    using w ok ok' by (simp add: kv_validator_set_state_def kv_getter_defs kv_get_req_def kv_get_opt_def rotate_def p
        map_ed25519_def vs_try_from_to_bytes)
  with Some b p show ?thesis by auto
qed

lemma update_reads:
  assumes "bt_update P pub justify s = Inr (r, ev, s')" and "well_typed P s" and "vk_parse_exact P"
    and "kv_validator_set_state P s = Inr vss"
  shows "case r of None \<Rightarrow> kv_validator_set_state P s' = Inr (decide_if (pc_phase justify = Decide) vss)
    | Some u \<Rightarrow> \<exists>b h committed. kv_validator_set_updates_status P s b = Inr (Pending u) \<and> kv_block_height P s b = Inr (Some h) \<and>
        vs_apply_updates (committed_vs vss) u = Inr committed \<and>
        kv_validator_set_state P s' = Inr (decide_if (pc_phase justify = Decide) (rotate vss committed h))"
  using assms(1)
proof (cases rule: bt_update_cases)
  case (1 highest_pc to_lock to_commit cb wb0 wb1)
  have "vss_written P s ([], wb0)"
    by (simp add: vss_written_def same_at_def 1(4) wb_setter_defs store_simps vss_paths_def split: option.splits)
  with 1(5) have "vss_written P s (cb, wb1)" by (auto intro: bt_commit_vss split: option.splits)
  note reads = vss_written_reads [OF this assms(2-4)]
  have r: "r = last_updates cb" by (simp add: 1(6) last_updates_def)
  have d: "kv_validator_set_state P s' = Inr (decide_if (pc_phase justify = Decide) x)" if "kv_validator_set_state P (kv_write wb1 s) = Inr x" for x
    using kv_vss_decide [OF that] that kv_write_last [of P PUpdateDecided "VBool True" wb1 s]
    by (auto simp: 1(7) wb_setter_defs decide_if_def)
  show ?thesis
  proof (cases "last_updates cb")
    case None
    with reads d r show ?thesis by simp
  next
    case (Some u)
    with reads d r show ?thesis by fastforce
  qed
qed

text \<open>
  C14. What a certificate does to the validator sets. After a successful update of a tree whose stored values are well typed, if the
  update returns no validator set updates, the validator set state is as before, except that a \<^verbatim>\<open>Decide\<close> certificate
  ends the latest update. If it returns updates, they were pending for a stored block, and they have been applied: the
  committed set is the result of applying them to the old committed set, which is now the previous set, the update
  height is the height of that block, and the update is undecided unless the certificate itself is a \<^verbatim>\<open>Decide\<close>.
\<close>

lemma bt_update_validator_sets:
  assumes "bt_update P pub justify s = Inr (r, ev, s')" and "well_typed P s" and "vk_parse_exact P"
    and "kv_validator_set_state P s = Inr vss"
  shows "case r of None \<Rightarrow> kv_validator_set_state P s' = Inr (decide_if (pc_phase justify = Decide) vss)
    | Some u \<Rightarrow> \<exists>b h committed. kv_validator_set_updates_status P s b = Inr (Pending u) \<and> kv_block_height P s b = Inr (Some h) \<and>
        vs_apply_updates (committed_vs vss) u = Inr committed \<and>
        kv_validator_set_state P s' = Inr (decide_if (pc_phase justify = Decide) (rotate vss committed h))"
  using assms by (rule update_reads)

section \<open>The history of validator sets\<close>

text \<open>
  What one protocol step may do to the validator set state: nothing, end the latest update, or rotate the sets once. The updates of a
  rotation are those that the application returned for one of the blocks \<open>bs\<close> inserted so far, and the update height is the height
  of an inserted block with that hash.
\<close>

definition vss_step :: "'a app_ops \<Rightarrow> block list \<Rightarrow> validator_set_state \<Rightarrow> validator_set_state \<Rightarrow> bool" where
  "vss_step app bs vss vss' \<longleftrightarrow> vss' = vss \<or> vss' = vss\<lparr>vss_update_decided := True\<rparr> \<or>
     (\<exists>b \<in> set bs. \<exists>b' \<in> set bs. \<exists>u committed decided. app_returned app b u \<and> b_hash b' = b_hash b \<and>
        vs_apply_updates (committed_vs vss) u = Inr committed \<and>
        vss' = \<lparr>committed_vs = committed, previous_vs = committed_vs vss, vss_update_height = Some (b_height b'), vss_update_decided = decided\<rparr>)"

lemma vss_step_refl: "vss_step app bs vss vss"
  by (simp add: vss_step_def)

lemma vss_step_decide: "vss_step app bs vss (decide_if d vss)"
  by (cases d) (simp_all add: vss_step_def decide_if_def)

lemma update_vss_step:
  assumes "bt_update P pub pc s = Inr (r, evs, s')" and "well_typed P s" and "vk_parse_exact P"
    and "from_history P app bs s" and "kv_validator_set_state P s = Inr vss"
  shows "\<exists>vss'. kv_validator_set_state P s' = Inr vss' \<and> vss_step app bs vss vss'"
proof (cases r)
  case None
  with update_reads [OF assms(1-3,5)] vss_step_decide show ?thesis by auto
next
  case (Some u)
  with update_reads [OF assms(1-3,5)] obtain x h committed where x: "kv_validator_set_updates_status P s x = Inr (Pending u)"
    "kv_block_height P s x = Inr (Some h)" "vs_apply_updates (committed_vs vss) u = Inr committed"
    and vss': "kv_validator_set_state P s' = Inr (decide_if (pc_phase pc = Decide) (rotate vss committed h))" by auto
  from assms(4) x(1) obtain b where b: "b \<in> set bs" "b_hash b = x" "app_returned app b u"
    unfolding from_history_def by (metis sum.inject(2))
  from assms(4) x(2) obtain b' where b': "b' \<in> set bs" "b_hash b' = x" "b_height b' = h" unfolding from_history_def by blast
  have "decide_if d (rotate vss committed h) = \<lparr>committed_vs = committed, previous_vs = committed_vs vss,
      vss_update_height = Some (b_height b'), vss_update_decided = d\<rparr>" for d by (simp add: decide_if_def rotate_def b'(3))
  moreover have "b_hash b' = b_hash b" using b(2) b'(2) by simp
  ultimately show ?thesis using vss' b(1,3) b'(1) x(3) unfolding vss_step_def by blast
qed

lemma kv_vss_insert: "kv_validator_set_state P (bt_insert P b au vu s) = kv_validator_set_state P s"
  by (rule kv_vss_same) (auto simp: same_at_def vss_paths_def bt_insert_other)

lemma kv_vss_setters:
  "kv_validator_set_state P (bt_set_highest_view_entered P v s) = kv_validator_set_state P s"
  "kv_validator_set_state P (bt_set_highest_tc P tc s) = kv_validator_set_state P s"
  "kv_validator_set_state P (bt_set_highest_view_phase_voted P v s) = kv_validator_set_state P s"
  by (rule kv_vss_same; auto simp: same_at_def vss_paths_def bt_setter_defs wb_setter_defs store_simps)+

lemma protocol_step_vss:
  assumes "protocol_step P app p p'" and "vk_parse_exact P" and "typed_app P app" and "history_inv P app p"
    and vss: "kv_validator_set_state P (ps_store p) = Inr vss"
  shows "\<exists>vss'. kv_validator_set_state P (ps_store p') = Inr vss' \<and> vss_step app (ps_blocks p') vss vss'"
proof -
  from assms(4) have inv: "well_typed P (ps_store p)" "from_history P app (ps_blocks p) (ps_store p)" by (simp_all add: history_inv_def)
  have accepted: "\<exists>vss'. kv_validator_set_state P s = Inr vss' \<and> vss_step app (ps_blocks p @ [b]) vss vss'"
    if "acceptable P app (ps_store p) b au vu" "bt_update P pub (b_justify b) (bt_insert P b au vu (ps_store p)) = Inr (r, evs, s)" for b au vu pub r evs s
    by (rule update_vss_step [OF that(2) well_typed_insert [OF inv(1)] assms(2) from_history_insert [OF inv(2) assms(3) that(1)]])
       (simp add: kv_vss_insert vss)
  from assms(1) show ?thesis
  proof (cases rule: protocol_step_cases)
    case (accept b au vu pub r evs s)
    with accepted [OF accept(2,3)] show ?thesis by simp
  next
    case (accept_vote b au vu pub r evs s v)
    with accepted [OF accept_vote(2,3)] show ?thesis by (simp add: kv_vss_setters)
  next
    case (process pc pub r evs s)
    with update_vss_step [OF process(3) inv(1) assms(2) inv(2) vss] show ?thesis by simp
  next
    case (nudge_vote pc pub r evs s v)
    with update_vss_step [OF nudge_vote(3) inv(1) assms(2) inv(2) vss] show ?thesis by (simp add: kv_vss_setters)
  qed (use vss in \<open>simp_all add: kv_vss_setters kv_vss_insert vss_step_refl\<close>)
qed

lemma run_vss_step:
  assumes "protocol_run P app u vss tr" and "vk_parse_exact P" and "vss_ok P vss" and "typed_app P app" and i: "Suc i < length tr"
    and "kv_validator_set_state P (ps_store (tr ! i)) = Inr v" and "kv_validator_set_state P (ps_store (tr ! Suc i)) = Inr v'"
  shows "vss_step app (ps_blocks (tr ! Suc i)) v v'"
proof -
  have "history_inv P app (tr ! i)" by (rule run_history_inv [OF assms(1-4)]) (use i in simp)
  from protocol_step_vss [OF run_step [OF assms(1) i] assms(2,4) this assms(6)] assms(7) show ?thesis by auto
qed

text \<open>
  C9. Validator sets have a history. Along every run of the protocol from a tree initialized with the state \<open>vss\<close> (and every
  reachable state of the code is the end of such a run), the validator set state can be read after every step, it is \<open>vss\<close> at first, and
  each step leaves it alone, ends the latest update, or rotates the sets once: the new committed set results from the
  committed set before the step by one set of updates, which the application returned for a block inserted by then, the previous set
  is the committed set before the step, and the update height is the height of an inserted block with the hash of that
  block. So no set of the history is skipped, no step applies two sets of updates, and the previous set is at all times the committed set
  that the latest rotation replaced.
\<close>

lemma validator_sets_have_history:
  assumes "protocol_run P app us vss tr" and "vk_parse_exact P" and "vss_ok P vss" and "us_ok us" and "typed_app P app"
  shows "\<exists>states. length states = length tr \<and> states ! 0 = vss \<and>
    (\<forall>i < length tr. kv_validator_set_state P (ps_store (tr ! i)) = Inr (states ! i)) \<and>
    (\<forall>i. Suc i < length tr \<longrightarrow>
       states ! Suc i = states ! i \<or> states ! Suc i = (states ! i)\<lparr>vss_update_decided := True\<rparr> \<or>
       (\<exists>b \<in> set (ps_blocks (tr ! Suc i)). \<exists>b' \<in> set (ps_blocks (tr ! Suc i)). \<exists>u committed decided.
          app_returned app b u \<and> b_hash b' = b_hash b \<and> vs_apply_updates (committed_vs (states ! i)) u = Inr committed \<and>
          states ! Suc i = \<lparr>committed_vs = committed, previous_vs = committed_vs (states ! i),
            vss_update_height = Some (b_height b'), vss_update_decided = decided\<rparr>))"
proof (intro exI conjI allI impI)
  let ?read = "\<lambda>p. kv_validator_set_state P (ps_store p)" and ?states = "map (\<lambda>p. projr (kv_validator_set_state P (ps_store p))) tr"
  have tr: "tr \<noteq> []" "tr ! 0 = protocol_start P us vss" using assms(1) by (auto simp: protocol_run_def hd_conv_nth)
  have "?read (tr ! 0) = Inr vss"
    using bt_initialize_gets [OF assms(4), of vss P] assms(3) by (simp add: tr(2) protocol_start_def vss_ok_def)
  with tr(1) show "?states ! 0 = vss" by simp
  have reads: "?read (tr ! i) = Inr (?states ! i)" if i: "i < length tr" for i
  proof -
    have "well_typed P (ps_store (tr ! i))" using run_history_inv [OF assms(1-3,5) i] by (simp add: history_inv_def)
    from well_typed_vss [OF this] i show ?thesis by auto
  qed
  then show "?read (tr ! i) = Inr (?states ! i)" if "i < length tr" for i using that .
  show "?states ! Suc i = ?states ! i \<or> ?states ! Suc i = (?states ! i)\<lparr>vss_update_decided := True\<rparr> \<or>
       (\<exists>b \<in> set (ps_blocks (tr ! Suc i)). \<exists>b' \<in> set (ps_blocks (tr ! Suc i)). \<exists>u committed decided.
          app_returned app b u \<and> b_hash b' = b_hash b \<and> vs_apply_updates (committed_vs (?states ! i)) u = Inr committed \<and>
          ?states ! Suc i = \<lparr>committed_vs = committed, previous_vs = committed_vs (?states ! i),
            vss_update_height = Some (b_height b'), vss_update_decided = decided\<rparr>)" if i: "Suc i < length tr" for i
    using run_vss_step [OF assms(1-3,5) i reads [OF Suc_lessD [OF i]] reads [OF i]] by (simp only: vss_step_def)
qed simp

end
