(* ===== verification/Tree_Witnesses.thy ===== *)
theory Tree_Witnesses
  imports Replica_Witnesses App_View Validator_Lifecycle
begin

text \<open>
  Concrete trees for the properties on views of the app state and on validator sets: the chain of four blocks, and a tree in
  which a block that adds a validator is committed.
\<close>

section \<open>The chain of four blocks\<close>

lemma demo_chain_children:
  "kv_children demo_prims demo_chain b = (if b = 0 then Inr [1] else if b = 1 then Inr [2] else if b = 2 then Inr [3] else if b = 3 then Inr [4]
     else Inl (get_err (ValueExpectedButNotFound (BlockChildrenKey b))))"
  by (simp add: demo_chain_simps)

lemma demo_chain_tree_wf: "tree_wf demo_prims demo_chain"
  using demo_chain_wf
  by (auto simp: tree_wf_def parent_link_def demo_chain_justify demo_chain_children genesis_pc_def split: if_splits)

lemma app_view_stable_under_commit_witness:
  "\<exists>wb v v'. bt_app_view demo_prims demo_chain (Some 4) = Inr v \<and> bt_app_view demo_prims (kv_write wb demo_chain) (Some 4) = Inr v' \<and>
     abv_app_state demo_prims v' = abv_app_state demo_prims v \<and> abv_block_at_height demo_prims v' 1 = Inr (Some 2)"
proof -
  obtain wb where c: "bt_commit demo_prims demo_chain 2 wb_new = Inr ([(2, None)], wb)" using demo_chain_commit by blast
  have ok: "pending_ok demo_prims demo_chain"
    by (auto simp: pending_ok_def demo_chain_pending us_ok_def hm_ok_def hs_contains_def split: if_splits)
  have path: "chain_path demo_prims demo_chain 4 2"
    by (rule converse_rtranclp_into_rtranclp [of _ _ 3]) (simp_all add: demo_chain_next r_into_rtranclp)
  from app_view_stable_under_commit [OF demo_chain_tree_wf ok demo_prims_laws(1) path c] show ?thesis
    by (auto simp: demo_chain_heights)
qed

section \<open>A block that changes the validator set\<close>

definition demo_updates :: validator_set_updates where
  "demo_updates = \<lparr>us_inserts = [(3, 9)], us_deletes = [1]\<rparr>"

lemma demo_first_fields: "b_height demo_first = 0" "b_justify demo_first = genesis_pc" "b_data demo_first = []" "b_hash demo_first \<noteq> 0" "b_hash demo_first \<noteq> 6"
  by (simp_all add: demo_first_def demo_block_def) code_simp+

definition demo_update_tree :: kv_store where
  "demo_update_tree = bt_insert demo_prims demo_first None (Some demo_updates) demo_init"

definition demo_commit_pc :: phase_certificate where
  "demo_commit_pc = \<lparr>pc_chain_id = 0, pc_view = 1, pc_block = b_hash demo_first, pc_phase = Commit, pc_signatures = [Some 1, Some 2]\<rparr>"

lemma demo_update_tree_reads:
  "kv_validator_set_state demo_prims demo_update_tree = Inr demo_vss" "kv_locked_pc demo_prims demo_update_tree = Inr genesis_pc"
  "kv_highest_pc demo_prims demo_update_tree = Inr genesis_pc" "kv_highest_committed_block demo_prims demo_update_tree = Inr None"
  "kv_block_height demo_prims demo_update_tree (b_hash demo_first) = Inr (Some 0)" "kv_block_justify demo_prims demo_update_tree (b_hash demo_first) = Inr genesis_pc"
  "kv_committed_validator_set demo_prims demo_update_tree = Inr demo_vs"
proof -
  have same: "demo_update_tree (path_bytes demo_prims p) = demo_init (path_bytes demo_prims p)"
    if "p \<in> {PCommittedValidatorSet, PPreviousValidatorSet, PUpdateHeight, PUpdateDecided, PLockedPC, PHighestPC, PHighestCommittedBlock}" for p
    using that by (auto simp: demo_update_tree_def bt_insert_other)
  then show "kv_validator_set_state demo_prims demo_update_tree = Inr demo_vss" "kv_locked_pc demo_prims demo_update_tree = Inr genesis_pc"
    "kv_highest_pc demo_prims demo_update_tree = Inr genesis_pc" "kv_highest_committed_block demo_prims demo_update_tree = Inr None"
    using demo_init_reads by (simp_all add: kv_validator_set_state_def kv_getter_defs kv_get_req_def kv_get_opt_def)
  then show "kv_committed_validator_set demo_prims demo_update_tree = Inr demo_vs"
    by (auto simp: kv_validator_set_state_def rbind_eq_Inr_iff demo_vss_def)
qed (simp_all add: demo_update_tree_def bt_insert_height bt_insert_justify demo_first_fields)

lemma demo_updates_parse: "vsu_try_from demo_prims (vsu_to_bytes demo_updates) = Inr demo_updates"
  by (simp add: demo_updates_def vsu_to_bytes_def vsu_try_from_def vsu_parse_key_def demo_prims_def hm_insert_def hs_insert_def hs_contains_def)

lemma demo_update_tree_status: "kv_validator_set_updates_status demo_prims demo_update_tree (b_hash demo_first) = Inr (Pending demo_updates)"
  using demo_updates_parse
  by (simp add: demo_update_tree_def kv_validator_set_updates_status_def kv_get_opt_def bt_insert_path demo_first_fields map_ed25519_def ok_or_def)

lemma demo_init_blocks: "of_block p \<noteq> None \<Longrightarrow> \<not> is_datum p \<Longrightarrow> demo_init (path_bytes demo_prims p) = None"
  by (cases p) (simp_all add: demo_init_def bt_initialize_def demo_vss_def us_new_def Let_def wb_setter_defs store_simps
      wb_apply_app_state_updates_def)

lemma demo_update_tree_others:
  "kv_children demo_prims demo_update_tree 0 = Inr [b_hash demo_first]" "kv_pending_app_state_updates demo_prims demo_update_tree (b_hash demo_first) = Inr None"
  by (simp_all add: demo_update_tree_def bt_insert_children kv_pending_app_state_updates_def kv_children_def kv_get_opt_def kv_get_req_def
      bt_insert_path set_block_frame store_simps demo_first_fields demo_init_blocks genesis_pc_def ok_or_def)

lemma demo_update_applies: "\<exists>vs'. vs_apply_updates demo_vs demo_updates = Inr vs'"
proof -
  have "isl (vs_apply_updates demo_vs demo_updates) = False" by code_simp
  then show ?thesis by (cases "vs_apply_updates demo_vs demo_updates") simp_all
qed

lemma demo_update_commits:
  obtains ev s' where "bt_update demo_prims True demo_commit_pc demo_update_tree = Inr (Some demo_updates, ev, s')"
proof -
  obtain vs' where vs': "vs_apply_updates demo_vs demo_updates = Inr vs'" using demo_update_applies by blast
  note reads = demo_update_tree_reads demo_update_tree_status demo_update_tree_others
  have h: "bt_highest_committed_block_height demo_prims demo_update_tree = Inr None"
    by (simp add: bt_highest_committed_block_height_def reads)
  have l: "uncommitted_loop demo_prims demo_update_tree None (b_hash demo_first) = Some (Inr [b_hash demo_first])"
    by (subst uncommitted_loop.simps) (simp add: chain_next_def reads is_genesis_pc_def)
  have "\<exists>wb'. bt_commit demo_prims demo_update_tree (b_hash demo_first) wb = Inr ([(b_hash demo_first, Some demo_updates)], wb')" for wb
    by (simp add: bt_commit_def h l commit_block_def reads delete_siblings_def ok_or_def genesis_pc_def vs' Let_def)
  then obtain wb' where "bt_commit demo_prims demo_update_tree (b_hash demo_first) (wb_set_locked_pc demo_prims demo_commit_pc
      (wb_set_highest_pc demo_prims demo_commit_pc wb_new)) = Inr ([(b_hash demo_first, Some demo_updates)], wb')" by blast
  moreover have "pc_to_lock demo_prims demo_update_tree demo_commit_pc = Inr (Some demo_commit_pc)"
    "block_to_commit demo_prims demo_update_tree demo_commit_pc = Inr (Some (b_hash demo_first))"
    by (simp_all add: pc_to_lock_def block_to_commit_def not_committed_yet_def demo_commit_pc_def reads h is_genesis_pc_def genesis_pc_def ok_or_def demo_first_fields)
  ultimately have "\<exists>ev s'. bt_update demo_prims True demo_commit_pc demo_update_tree = Inr (Some demo_updates, ev, s')"
    by (simp add: bt_update_def reads) (simp add: demo_commit_pc_def genesis_pc_def view_init_def)
  with that show thesis by blast
qed

lemma demo_update_tree_typed: "well_typed demo_prims demo_update_tree"
  using well_typed_insert [OF well_typed_initialize, of demo_prims demo_vss] demo_vss_ok
  by (simp add: demo_update_tree_def demo_init_def vss_ok_def)

lemma bt_update_validator_sets_witness:
  "\<exists>ev s' h committed. bt_update demo_prims True demo_commit_pc demo_update_tree = Inr (Some demo_updates, ev, s') \<and>
     vs_apply_updates demo_vs demo_updates = Inr committed \<and>
     kv_validator_set_state demo_prims s' = Inr \<lparr>committed_vs = committed, previous_vs = demo_vs, vss_update_height = Some h, vss_update_decided = False\<rparr>"
proof -
  obtain ev s' where u: "bt_update demo_prims True demo_commit_pc demo_update_tree = Inr (Some demo_updates, ev, s')" by (rule demo_update_commits)
  from bt_update_validator_sets [OF u demo_update_tree_typed demo_prims_laws(2) demo_update_tree_reads(1)] u show ?thesis
    by (auto simp: rotate_def decide_if_def demo_vss_def demo_commit_pc_def)
qed

text \<open>A run in which an application returns these updates for the first block, which is inserted and committed.\<close>

definition update_app :: "unit app_ops" where
  "update_app = demo_app\<lparr>app_validate_block := (\<lambda>_ a. (Valid None (Some demo_updates), a))\<rparr>"

lemma update_app_typed: "typed_app demo_prims update_app"
  by (auto simp: typed_app_def update_app_def demo_app_def updates_fit_def demo_updates_def us_ok_def hm_ok_def hs_contains_def hm_contains_key_def hm_get_def demo_prims_def)

lemma update_acceptable: "acceptable demo_prims update_app demo_init demo_first None (Some demo_updates)"
proof -
  obtain view where "bt_app_view demo_prims demo_init None = Inr view" by (rule demo_app_view)
  then have "validated demo_prims update_app demo_init demo_first None (Some demo_updates)"
    by (simp add: validated_def parent_of_def demo_first_ok update_app_def)
  with demo_first_ok show ?thesis unfolding acceptable_def by blast
qed

lemma update_contains: "bt_contains demo_prims demo_update_tree (b_hash demo_first)"
proof -
  have "kv_block_data_hash demo_prims demo_update_tree (b_hash demo_first) = Inr (Some (b_data_hash demo_first))"
    using set_block_fields(3) [of demo_prims demo_first wb_new demo_init]
    by (simp add: demo_update_tree_def kv_block_data_hash_def kv_get_opt_def bt_insert_path)
  moreover have "kv_block_data demo_prims demo_update_tree (b_hash demo_first) = Inr (Some [])"
    by (simp add: kv_block_data_eq demo_update_tree_def bt_insert_data_len demo_first_fields data_len_of_def)
  ultimately show ?thesis using demo_update_tree_reads by (simp add: bt_contains_def kv_block_def ok_or_def)
qed

lemma update_processable: "processable demo_prims demo_update_tree demo_commit_pc"
proof -
  have pc: "pc_chain_id demo_commit_pc = 0" "pc_block demo_commit_pc = b_hash demo_first" "pc_phase demo_commit_pc = Commit" "pc_view demo_commit_pc = 1"
    "\<not> is_genesis_pc demo_commit_pc" by (simp_all add: demo_commit_pc_def is_genesis_pc_def genesis_pc_def)
  have "pc_is_correct demo_prims demo_update_tree demo_commit_pc = Inr True"
    by (simp add: pc_is_correct_def pc demo_update_tree_reads demo_vss_def pc_is_correctly_signed_def)
       (simp add: demo_commit_pc_def demo_signed)
  moreover have "safe_pc demo_prims demo_update_tree 0 demo_commit_pc = Inr True"
    by (simp add: safe_pc_def pc update_contains demo_update_tree_reads demo_update_tree_status rand_def ror_def phased_def
        genesis_pc_def view_init_def)
  ultimately show ?thesis unfolding processable_def by blast
qed

lemma update_run:
  obtains s' where "protocol_run demo_prims update_app us_new demo_vss [protocol_start demo_prims us_new demo_vss,
      \<lparr>ps_store = demo_update_tree, ps_votes = [], ps_blocks = [demo_first]\<rparr>, \<lparr>ps_store = s', ps_votes = [], ps_blocks = [demo_first]\<rparr>]"
    "\<exists>ev. bt_update demo_prims True demo_commit_pc demo_update_tree = Inr (Some demo_updates, ev, s')"
proof -
  obtain ev s' where u: "bt_update demo_prims True demo_commit_pc demo_update_tree = Inr (Some demo_updates, ev, s')" by (rule demo_update_commits)
  let ?p = "\<lparr>ps_store = demo_update_tree, ps_votes = [], ps_blocks = [demo_first]\<rparr>"
  have "protocol_step demo_prims update_app (protocol_start demo_prims us_new demo_vss) ?p"
    using protocol_step.insert [of demo_prims update_app "protocol_start demo_prims us_new demo_vss" demo_first None "Some demo_updates"] update_acceptable
    by (simp add: protocol_start_def demo_update_tree_def demo_init_def)
  moreover have "protocol_step demo_prims update_app ?p (?p\<lparr>ps_store := s'\<rparr>)"
    using protocol_step.process [of demo_prims ?p demo_commit_pc True "Some demo_updates" ev s' update_app] update_processable u by simp
  ultimately show thesis using u by (intro that [of s']) (simp_all add: protocol_run_def)
qed

lemma validator_sets_have_history_witness:
  "\<exists>tr states committed. protocol_run demo_prims update_app us_new demo_vss tr \<and> length tr = 3 \<and> length states = 3 \<and> states ! 0 = demo_vss \<and>
     kv_validator_set_state demo_prims (ps_store (last tr)) = Inr (states ! 2) \<and> vs_apply_updates demo_vs demo_updates = Inr committed \<and>
     committed_vs (states ! 2) = committed \<and> previous_vs (states ! 2) = demo_vs \<and> vs_power committed 3 = Some 9"
proof -
  obtain s' where run: "protocol_run demo_prims update_app us_new demo_vss [protocol_start demo_prims us_new demo_vss,
      \<lparr>ps_store = demo_update_tree, ps_votes = [], ps_blocks = [demo_first]\<rparr>, \<lparr>ps_store = s', ps_votes = [], ps_blocks = [demo_first]\<rparr>]"
    (is "protocol_run _ _ _ _ ?tr")
    and u: "\<exists>ev. bt_update demo_prims True demo_commit_pc demo_update_tree = Inr (Some demo_updates, ev, s')" by (rule update_run)
  have "vss_ok demo_prims demo_vss" using demo_vss_ok by (simp add: vss_ok_def)
  from validator_sets_have_history [OF run demo_prims_laws(2) this demo_vss_ok(1) update_app_typed] obtain states where
    st: "length states = length ?tr" "states ! 0 = demo_vss"
    "\<forall>i < length ?tr. kv_validator_set_state demo_prims (ps_store (?tr ! i)) = Inr (states ! i)" by blast
  from u obtain ev where "bt_update demo_prims True demo_commit_pc demo_update_tree = Inr (Some demo_updates, ev, s')" by blast
  from update_reads [OF this demo_update_tree_typed demo_prims_laws(2) demo_update_tree_reads(1)] obtain h committed where
    c: "vs_apply_updates demo_vs demo_updates = Inr committed"
    "kv_validator_set_state demo_prims s' = Inr (decide_if False (rotate demo_vss committed h))"
    by (auto simp: demo_vss_def demo_commit_pc_def)
  have "states ! 2 = decide_if False (rotate demo_vss committed h)" using st(3) [rule_format, of 2] c(2) by simp
  moreover have "vs_power (projr (vs_apply_updates demo_vs demo_updates)) 3 = Some 9" by code_simp
  ultimately show ?thesis using run st c
    by (intro exI [of _ ?tr] exI [of _ states] exI [of _ committed]) (simp add: decide_if_def rotate_def demo_vss_def)
qed

end
