(* ===== verification/Progress.thy ===== *)
theory Progress
  imports Tree_Invariant Protocol
begin

text \<open>
  What the invariant of the block tree gives the running replica. The first part is about runs of the protocol: every block
  tree on the way has the invariant, so processing a certificate that passes the checks, and inserting a block that
  does, always succeeds. The second part is about \<^verbatim>\<open>on_receive_proposal\<close>: a good proposal gets its vote.
\<close>

section \<open>Steps that do not touch the tree\<close>

definition same_tree :: "prims \<Rightarrow> kv_store \<Rightarrow> kv_store \<Rightarrow> bool" where
  "same_tree P s t \<longleftrightarrow> (\<forall>p. of_block p \<noteq> None \<or> p = PHighestCommittedBlock \<longrightarrow> \<not> is_datum p \<longrightarrow> t (path_bytes P p) = s (path_bytes P p))"

lemma same_tree_reads:
  assumes "same_tree P s t"
  shows "kv_block_height P t b = kv_block_height P s b" "kv_block_justify P t b = kv_block_justify P s b"
    "kv_block_data_len P t b = kv_block_data_len P s b" "kv_children P t b = kv_children P s b"
    "kv_validator_set_updates_status P t b = kv_validator_set_updates_status P s b"
    "kv_highest_committed_block P t = kv_highest_committed_block P s"
  using assms by (simp_all add: same_tree_def kv_getter_defs kv_get_opt_def kv_get_req_def)

lemma same_tree_links: "same_tree P s t \<Longrightarrow> parent_link P t = parent_link P s" "same_tree P s t \<Longrightarrow> chain_next P t = chain_next P s"
  by (simp_all add: fun_eq_iff parent_link_def chain_next_def same_tree_reads)

lemma same_tree_ok: "same_tree P s t \<Longrightarrow> tree_ok P s \<Longrightarrow> well_typed P t \<Longrightarrow> tree_ok P t"
  by (simp add: tree_ok_def tree_wf_def chain_wf_def same_tree_reads same_tree_links)

lemma record_same_tree:
  "same_tree P s (bt_set_highest_view_entered P v s)" "same_tree P s (bt_set_highest_tc P tc s)" "same_tree P s (bt_set_highest_view_phase_voted P v s)"
  by (auto simp: same_tree_def bt_setter_defs wb_setter_defs store_simps)

lemma record_well_typed:
  assumes "well_typed P s"
  shows "well_typed P (bt_set_highest_view_entered P v s)" "well_typed P (bt_set_highest_tc P tc s)" "well_typed P (bt_set_highest_view_phase_voted P v s)"
  using assms by (auto simp: bt_setter_defs wb_setter_defs op_ok_set simp del: op_ok.simps intro!: well_typed_write)

lemma record_tree_ok:
  assumes "tree_ok P s"
  shows "tree_ok P (bt_set_highest_view_entered P v s)" "tree_ok P (bt_set_highest_tc P tc s)" "tree_ok P (bt_set_highest_view_phase_voted P v s)"
  using same_tree_ok [OF record_same_tree(1) assms] same_tree_ok [OF record_same_tree(2) assms] same_tree_ok [OF record_same_tree(3) assms]
    record_well_typed [OF tree_okD(1) [OF assms]] by blast+

section \<open>Checked blocks and certificates are in the tree\<close>

lemma contains_stored: "bt_contains P s b \<Longrightarrow> stored P s b"
  by (auto simp: bt_contains_def kv_block_def stored_def rbind_eq_Inr_iff split: sum.splits option.splits)

lemma safe_stored: "safe_pc P s c pc = Inr True \<Longrightarrow> is_genesis_pc pc \<or> stored P s (pc_block pc)"
  by (auto simp: safe_pc_def rand_eq_True dest: contains_stored)

lemma processable_stored: "processable P s pc \<Longrightarrow> is_genesis_pc pc \<or> stored P s (pc_block pc)"
  by (auto simp: processable_def dest: safe_stored)

lemma acceptable_stored: "acceptable P app s b au vu \<Longrightarrow> is_genesis_pc (b_justify b) \<or> stored P s (pc_block (b_justify b))"
  by (auto simp: acceptable_def safe_block_def rand_eq_True dest: safe_stored)

text \<open>
  The replica leaves one check on blocks to the application, which can make it with the view it is given: the height of a block
  must be above that of its parent. The updates it returns are \<^verbatim>\<open>UpdateSet\<close>s of valid keys.
\<close>

definition careful_app :: "prims \<Rightarrow> 'a app_ops \<Rightarrow> bool" where
  "careful_app P app \<longleftrightarrow> (\<forall>b view a au vu.
     fst (app_validate_block app \<lparr>vbq_proposed_block = b, vbq_block_tree_view = view\<rparr> a) = Valid au vu \<or>
     fst (app_validate_block_for_sync app \<lparr>vbq_proposed_block = b, vbq_block_tree_view = view\<rparr> a) = Valid au vu \<longrightarrow>
     updates_fit P vu \<and> (is_genesis_pc (b_justify b) \<or>
       (\<forall>hp. kv_block_height P (abv_block_tree view) (pc_block (b_justify b)) = Inr (Some hp) \<longrightarrow> hp < b_height b)))"

lemma app_view_store: "bt_app_view P s parent = Inr view \<Longrightarrow> abv_block_tree view = s"
  by (auto simp: bt_app_view_def rbind_eq_Inr_iff)

lemma acceptable_fits:
  assumes "careful_app P app" and "acceptable P app s b au vu"
  shows "updates_fit P vu"
    "is_genesis_pc (b_justify b) \<or> (\<exists>hp. kv_block_height P s (pc_block (b_justify b)) = Inr (Some hp) \<and> hp < b_height b)"
proof -
  from assms(2) obtain view a where v: "bt_app_view P s (parent_of b) = Inr view"
    "fst (app_validate_block app \<lparr>vbq_proposed_block = b, vbq_block_tree_view = view\<rparr> a) = Valid au vu \<or>
     fst (app_validate_block_for_sync app \<lparr>vbq_proposed_block = b, vbq_block_tree_view = view\<rparr> a) = Valid au vu"
    unfolding acceptable_def validated_def by blast
  with assms(1) have c: "updates_fit P vu" "is_genesis_pc (b_justify b) \<or>
       (\<forall>hp. kv_block_height P (abv_block_tree view) (pc_block (b_justify b)) = Inr (Some hp) \<longrightarrow> hp < b_height b)"
    unfolding careful_app_def by blast+
  show "updates_fit P vu" by (rule c(1))
  from acceptable_stored [OF assms(2)] c(2) app_view_store [OF v(1)]
  show "is_genesis_pc (b_justify b) \<or> (\<exists>hp. kv_block_height P s (pc_block (b_justify b)) = Inr (Some hp) \<and> hp < b_height b)"
    by (auto simp: stored_def)
qed

section \<open>Runs\<close>

text \<open>Hashes tell apart the blocks that a run has inserted, and none of them is the hash that stands for the genesis block.\<close>

definition hashes_distinct :: "block list \<Rightarrow> bool" where
  "hashes_distinct bs \<longleftrightarrow> (\<forall>b \<in> set bs. b_hash b \<noteq> pc_block genesis_pc \<and>
     (\<forall>b' \<in> set bs. b_hash b' = b_hash b \<longrightarrow> b_height b' = b_height b \<and> b_justify b' = b_justify b))"

definition tree_inv :: "prims \<Rightarrow> protocol_state \<Rightarrow> bool" where
  "tree_inv P p \<longleftrightarrow> tree_ok P (ps_store p) \<and> (\<forall>x. stored P (ps_store p) x \<longrightarrow>
     (\<exists>b \<in> set (ps_blocks p). b_hash b = x \<and> kv_block_height P (ps_store p) x = Inr (Some (b_height b)) \<and>
        kv_block_justify P (ps_store p) x = Inr (b_justify b)))"

lemma tree_invD:
  assumes "tree_inv P p" and "stored P (ps_store p) x"
  obtains b where "b \<in> set (ps_blocks p)" "b_hash b = x" "kv_block_height P (ps_store p) x = Inr (Some (b_height b))"
    "kv_block_justify P (ps_store p) x = Inr (b_justify b)"
  using assms unfolding tree_inv_def by blast

lemma tree_invI:
  assumes "tree_ok P (ps_store p)" and "\<And>x. stored P (ps_store p) x \<Longrightarrow>
     \<exists>b. b \<in> set (ps_blocks p) \<and> b_hash b = x \<and> kv_block_height P (ps_store p) x = Inr (Some (b_height b)) \<and>
        kv_block_justify P (ps_store p) x = Inr (b_justify b)"
  shows "tree_inv P p"
  using assms unfolding tree_inv_def by blast

lemma history_insertable:
  assumes inv: "tree_inv P p" and app: "careful_app P app" and acc: "acceptable P app (ps_store p) b au vu"
    and d: "hashes_distinct (ps_blocks p @ [b])"
  shows "insertable P (ps_store p) b"
  unfolding insertable_def
proof (intro conjI impI)
  show "b_hash b \<noteq> pc_block genesis_pc" using d unfolding hashes_distinct_def by simp
  show "is_genesis_pc (b_justify b) \<or> (\<exists>hp. kv_block_height P (ps_store p) (pc_block (b_justify b)) = Inr (Some hp) \<and> hp < b_height b)"
    by (rule acceptable_fits(2) [OF app acc])
  assume "stored P (ps_store p) (b_hash b)"
  then obtain b' where b': "b' \<in> set (ps_blocks p)" "b_hash b' = b_hash b"
    "kv_block_height P (ps_store p) (b_hash b) = Inr (Some (b_height b'))" "kv_block_justify P (ps_store p) (b_hash b) = Inr (b_justify b')"
    by (rule tree_invD [OF inv])
  from b'(1) have "b' \<in> set (ps_blocks p @ [b])" "b \<in> set (ps_blocks p @ [b])" by simp_all
  with d b'(2) have "b_height b' = b_height b" "b_justify b' = b_justify b" unfolding hashes_distinct_def by metis+
  with b'(3,4) show "kv_block_height P (ps_store p) (b_hash b) = Inr (Some (b_height b))" "kv_block_justify P (ps_store p) (b_hash b) = Inr (b_justify b)"
    by simp_all
qed

lemma tree_inv_insert:
  assumes inv: "tree_inv P p" and app: "careful_app P app" and acc: "acceptable P app (ps_store p) b au vu"
    and d: "hashes_distinct (ps_blocks p @ [b])"
  shows "tree_inv P (p\<lparr>ps_store := bt_insert P b au vu (ps_store p), ps_blocks := ps_blocks p @ [b]\<rparr>)"
proof (rule tree_invI)
  let ?s = "bt_insert P b au vu (ps_store p)" and ?p = "p\<lparr>ps_store := bt_insert P b au vu (ps_store p), ps_blocks := ps_blocks p @ [b]\<rparr>"
  have "tree_ok P (ps_store p)" using inv unfolding tree_inv_def by blast
  from insert_keeps_tree_ok [OF this history_insertable [OF inv app acc d] acceptable_fits(1) [OF app acc]] show "tree_ok P (ps_store ?p)" by simp
  fix x assume x: "stored P (ps_store ?p) x"
  show "\<exists>b'. b' \<in> set (ps_blocks ?p) \<and> b_hash b' = x \<and> kv_block_height P (ps_store ?p) x = Inr (Some (b_height b')) \<and>
        kv_block_justify P (ps_store ?p) x = Inr (b_justify b')"
  proof (cases "x = b_hash b")
    case True
    then show ?thesis by (intro exI [of _ b]) (simp add: bt_insert_height bt_insert_justify)
  next
    case False
    with x have "stored P (ps_store p) x" by (simp add: stored_def bt_insert_height)
    with inv obtain b' where "b' \<in> set (ps_blocks p)" "b_hash b' = x" "kv_block_height P (ps_store p) x = Inr (Some (b_height b'))"
      "kv_block_justify P (ps_store p) x = Inr (b_justify b')" by (rule tree_invD)
    with False show ?thesis by (intro exI [of _ b']) (simp add: bt_insert_height bt_insert_justify)
  qed
qed

lemma tree_inv_update:
  assumes inv: "tree_inv P p" and vs: "vk_parse_exact P" and j: "is_genesis_pc j \<or> stored P (ps_store p) (pc_block j)"
    and up: "bt_update P pub j (ps_store p) = Inr (r, evs, s)"
  shows "tree_inv P (p\<lparr>ps_store := s\<rparr>)"
proof -
  from inv have ok: "tree_ok P (ps_store p)" by (simp add: tree_inv_def)
  obtain es where "links_after P (ps_store p) es (ps_store p) s" using update_links [OF ok j up] by metis
  note reads = links_after_reads [OF this]
  have "tree_ok P s" using update_keeps_tree_ok [OF ok vs j up] .
  moreover have "\<exists>b \<in> set (ps_blocks p). b_hash b = x \<and> kv_block_height P s x = Inr (Some (b_height b)) \<and> kv_block_justify P s x = Inr (b_justify b)"
    if "stored P s x" for x
    using that inv by (auto simp: stored_def tree_inv_def reads(1,2) split: if_splits)
  ultimately show ?thesis by (simp add: tree_inv_def)
qed

lemma tree_inv_record:
  assumes "tree_inv P p"
  shows "tree_inv P (p\<lparr>ps_store := bt_set_highest_view_entered P v (ps_store p)\<rparr>)" "tree_inv P (p\<lparr>ps_store := bt_set_highest_tc P tc (ps_store p)\<rparr>)"
    "tree_inv P (p\<lparr>ps_store := bt_set_highest_view_phase_voted P v (ps_store p)\<rparr>)"
  using assms record_tree_ok [of P "ps_store p"]
  by (simp_all add: tree_inv_def stored_def same_tree_reads [OF record_same_tree(1)] same_tree_reads [OF record_same_tree(2)]
      same_tree_reads [OF record_same_tree(3)])

lemma tree_inv_more [simp]: "tree_inv P (p\<lparr>ps_votes := vs\<rparr>) = tree_inv P p"
  by (simp add: tree_inv_def)

lemma accept_total:
  assumes "tree_ok P s" and "insertable P s b" and "updates_fit P vu" and "vk_parse_exact P"
    and "is_genesis_pc (b_justify b) \<or> stored P s (pc_block (b_justify b))"
  shows "\<exists>r evs s'. bt_update P pub (b_justify b) (bt_insert P b au vu s) = Inr (r, evs, s') \<and> tree_ok P s'"
proof -
  have ok: "tree_ok P (bt_insert P b au vu s)" using assms(1-3) by (rule insert_keeps_tree_ok)
  have j: "is_genesis_pc (b_justify b) \<or> stored P (bt_insert P b au vu s) (pc_block (b_justify b))"
    using assms(5) by (auto simp: stored_def bt_insert_height)
  from update_runs [OF ok j] update_keeps_tree_ok [OF ok assms(4) j] show ?thesis by blast
qed

lemma tree_inv_accept:
  assumes "tree_inv P p" and "careful_app P app" and "vk_parse_exact P" and "acceptable P app (ps_store p) b au vu"
    and "hashes_distinct (ps_blocks p @ [b])" and "bt_update P pub (b_justify b) (bt_insert P b au vu (ps_store p)) = Inr (r, evs, s)"
  shows "tree_inv P (p\<lparr>ps_store := s, ps_blocks := ps_blocks p @ [b]\<rparr>)"
proof -
  have "is_genesis_pc (b_justify b) \<or> stored P (bt_insert P b au vu (ps_store p)) (pc_block (b_justify b))"
    using acceptable_stored [OF assms(4)] by (auto simp: stored_def bt_insert_height)
  from tree_inv_update [OF tree_inv_insert [OF assms(1,2,4,5)] assms(3), of "b_justify b" pub r evs s] this assms(6) show ?thesis by (simp add: tree_inv_def)
qed

lemma tree_inv_step:
  assumes "protocol_step P app p p'" and inv: "tree_inv P p" and env: "careful_app P app" "vk_parse_exact P" and d: "hashes_distinct (ps_blocks p')"
  shows "tree_inv P p'"
  using assms(1)
proof (cases rule: protocol_step_cases)
  case (accept b au vu pub r evs s)
  with d tree_inv_accept [OF inv env accept(2) _ accept(3)] show ?thesis by simp
next
  case (accept_vote b au vu pub r evs s v)
  let ?q = "p\<lparr>ps_store := s, ps_blocks := ps_blocks p @ [b]\<rparr>"
  have "tree_inv P ?q" using d tree_inv_accept [OF inv env accept_vote(2) _ accept_vote(3)] accept_vote(1) by simp
  from tree_inv_record(3) [OF this, of "pv_view v"] accept_vote(1) show ?thesis by (simp add: tree_inv_def)
next
  case (process pc pub r evs s)
  with tree_inv_update [OF inv env(2) processable_stored [OF process(2)] process(3)] show ?thesis by simp
next
  case (nudge_vote pc pub r evs s v)
  from tree_inv_update [OF inv env(2) processable_stored [OF nudge_vote(2)] nudge_vote(3)] have "tree_inv P (p\<lparr>ps_store := s\<rparr>)" .
  from tree_inv_record(3) [OF this, of "pv_view v"] nudge_vote(1) show ?thesis by (simp add: tree_inv_def)
qed (use tree_inv_record [OF inv] tree_inv_insert [OF inv env(1)] d in auto)

lemma tree_inv_start: "vss_ok P vss \<Longrightarrow> tree_inv P (protocol_start P u vss)"
proof (rule tree_invI)
  assume "vss_ok P vss"
  from initialize_tree_ok [OF this] show "tree_ok P (ps_store (protocol_start P u vss))" by (simp add: protocol_start_def)
  fix x assume "stored P (ps_store (protocol_start P u vss)) x"
  then show "\<exists>b. b \<in> set (ps_blocks (protocol_start P u vss)) \<and> b_hash b = x \<and>
    kv_block_height P (ps_store (protocol_start P u vss)) x = Inr (Some (b_height b)) \<and>
    kv_block_justify P (ps_store (protocol_start P u vss)) x = Inr (b_justify b)"
    by (simp add: protocol_start_def stored_def initialize_reads(1))
qed

lemma run_hashes:
  assumes "protocol_run P app u vss tr" and "hashes_distinct (ps_blocks (last tr))" and "i < length tr"
  shows "hashes_distinct (ps_blocks (tr ! i))"
proof -
  have "set (ps_blocks (tr ! i)) \<subseteq> set (ps_blocks (last tr))"
    using run_grows [OF assms(1), of i "length tr - 1"] run_last [OF assms(1)] assms(3) by simp
  with assms(2) show ?thesis unfolding hashes_distinct_def by (meson subsetD)
qed

lemma run_tree_inv:
  assumes "protocol_run P app u vss tr" and "vss_ok P vss" and "careful_app P app" and "vk_parse_exact P"
    and "hashes_distinct (ps_blocks (last tr))" and "i < length tr"
  shows "tree_inv P (tr ! i)"
  using assms(1,6)
proof (induction rule: protocol_run_induct)
  case start
  show ?case using assms(2) by (rule tree_inv_start)
next
  case (step j)
  from tree_inv_step [OF step(3,4) assms(3,4) run_hashes [OF assms(1,5) step(1)]] show ?case .
qed

text \<open>
  C4. A replica never gets stuck on its block tree. In every state of every run of the protocol, with an application that
  checks heights and hashes that tell the inserted blocks apart, the tree has the invariant; and whatever the replica goes
  on to accept there succeeds: processing any certificate that passes the checks, and inserting any checked and validated block
  with a hash of its own and then processing its justify. No error, panic or endless walk is possible in between,
  and committing and pruning leave a tree with the invariant.
\<close>

lemma run_never_stuck:
  assumes "protocol_run P app u vss tr" and "vss_ok P vss" and "careful_app P app" and "vk_parse_exact P"
    and "hashes_distinct (ps_blocks (last tr))" and "i < length tr"
  shows "tree_ok P (ps_store (tr ! i)) \<and>
    (\<forall>pc pub. processable P (ps_store (tr ! i)) pc \<longrightarrow> (\<exists>r evs s. bt_update P pub pc (ps_store (tr ! i)) = Inr (r, evs, s) \<and> tree_ok P s)) \<and>
    (\<forall>b au vu pub. acceptable P app (ps_store (tr ! i)) b au vu \<longrightarrow> hashes_distinct (ps_blocks (tr ! i) @ [b]) \<longrightarrow>
       (\<exists>r evs s. bt_update P pub (b_justify b) (bt_insert P b au vu (ps_store (tr ! i))) = Inr (r, evs, s) \<and> tree_ok P s))"
proof (intro conjI allI impI)
  note inv = run_tree_inv [OF assms]
  then show ok: "tree_ok P (ps_store (tr ! i))" by (simp add: tree_inv_def)
  fix pub
  show "\<exists>r evs s. bt_update P pub pc (ps_store (tr ! i)) = Inr (r, evs, s) \<and> tree_ok P s" if "processable P (ps_store (tr ! i)) pc" for pc
    using update_runs [OF ok processable_stored [OF that]] update_keeps_tree_ok [OF ok assms(4) processable_stored [OF that]] by blast
  fix b au vu
  assume acc: "acceptable P app (ps_store (tr ! i)) b au vu" and d: "hashes_distinct (ps_blocks (tr ! i) @ [b])"
  from accept_total [OF ok history_insertable [OF inv assms(3) acc d] acceptable_fits(1) [OF assms(3) acc] assms(4) acceptable_stored [OF acc]]
  show "\<exists>r evs s. bt_update P pub (b_justify b) (bt_insert P b au vu (ps_store (tr ! i))) = Inr (r, evs, s) \<and> tree_ok P s" .
qed

section \<open>A good proposal gets its vote\<close>

lemma app_view_total:
  assumes ok: "tree_ok P s" and p: "is_genesis_pc (b_justify b) \<or> stored P s (pc_block (b_justify b))"
  shows "\<exists>view. bt_app_view P s (parent_of b) = Inr view"
proof -
  obtain hc where hc: "bt_highest_committed_block_height P s = Inr hc" using committed_height_readable [OF tree_okD(4) [OF ok]] by blast
  have "\<exists>l. app_view_loop P s hc (parent_of b) (parent_of b) = Some l"
  proof (cases "is_genesis_pc (b_justify b)")
    case True
    then show ?thesis by (subst app_view_loop.simps) (simp add: parent_of_def)
  next
    case False
    with p obtain hp where "kv_block_height P s (pc_block (b_justify b)) = Inr (Some hp)" by (auto simp: stored_def)
    with walks_agree [OF tree_okD(3) [OF ok] this, of hc] False show ?thesis by (auto simp: parent_of_def)
  qed
  with hc show ?thesis by (auto simp: bt_app_view_def returns_def)
qed

text \<open>Running a computation to its end from one state.\<close>

definition runs :: "('a, 'r) handler \<Rightarrow> 'a node \<Rightarrow> 'r \<Rightarrow> 'a node \<Rightarrow> bool" where
  "runs m n x n' \<longleftrightarrow> m n = (Inr x, n')"

lemma runs_pbind: "runs m n x n1 \<Longrightarrow> runs (f x) n1 y n2 \<Longrightarrow> runs (pbind m f) n y n2"
  by (simp add: runs_def pbind_def)

lemma runs_pthen: "runs m n () n1 \<Longrightarrow> runs k n1 y n2 \<Longrightarrow> runs (pthen m k) n y n2"
  by (simp add: runs_def pthen_def pbind_def)

lemma runs_read: "f (nd_store n) = Inr x \<Longrightarrow> runs (read_store f) n x n" "g n = Inr y \<Longrightarrow> runs (pread g) n y n" "runs (pgets h) n (h n) n"
  by (simp_all add: runs_def read_store_def pread_def pgets_def)

text \<open>Steps after which the store is \<open>s\<close> and the votes sent are \<open>vs\<close>, in the same view and with the same keys.\<close>

definition at :: "'a node \<Rightarrow> kv_store \<Rightarrow> phase_vote list \<Rightarrow> 'a node \<Rightarrow> bool" where
  "at n s vs n' \<longleftrightarrow> nd_store n' = s \<and> sent_votes n' = vs \<and> nd_publisher n' = nd_publisher n \<and>
     hs_view_info (nd_hotstuff n') = hs_view_info (nd_hotstuff n) \<and> hs_keypair (nd_hotstuff n') = hs_keypair (nd_hotstuff n) \<and>
     hs_chain_id (nd_hotstuff n') = hs_chain_id (nd_hotstuff n)"

lemma sent_votes_append: "sent_votes (n\<lparr>nd_out := nd_out n @ es\<rparr>) = sent_votes n @ List.map_filter effect_vote es"
  by (simp add: sent_votes_def map_filter_def)

lemma at_publish: "at n s vs n1 \<Longrightarrow> \<exists>n2. runs (event_publish ev) n1 () n2 \<and> at n s vs n2 \<and> nd_app n2 = nd_app n1"
  by (simp add: runs_def event_publish_def pmodify_def at_def sent_votes_append map_filter_def)

lemma at_stop: "at n s vs n1 \<Longrightarrow> \<exists>n2. runs (stop_accepting origin) n1 () n2 \<and> at n s vs n2 \<and> nd_out n2 = nd_out n1"
  by (simp add: runs_def stop_accepting_def set_hotstuff_def pmodify_def at_def sent_votes_def)

lemma at_process:
  assumes n1: "at n s vs n1" and u: "bt_update P (nd_publisher n) pc s = Inr (r, evs, s')" and v: "kv_validator_set_state P s' = Inr vss"
  shows "\<exists>n2. runs (process_justify P pc) n1 vss n2 \<and> at n s' vs n2"
proof -
  have pub: "List.map_filter effect_vote (map Published evs) = []" by (induction evs) (simp_all add: map_filter_def)
  show ?thesis
    using n1 u v pub
    by (cases r) (simp_all add: runs_def process_justify_def update_block_tree_def update_validator_set_def update_collectors_def at_def
        handler_defs proc_defs sent_votes_append, simp_all add: sent_votes_def map_filter_def)
qed

text \<open>The vote that a replica casts in its current view.\<close>

definition own_vote :: "prims \<Rightarrow> 'a node \<Rightarrow> crypto_hash \<Rightarrow> phase \<Rightarrow> phase_vote" where
  "own_vote P n block ph = phase_vote_new P (hs_keypair (nd_hotstuff n)) (hs_chain_id (nd_hotstuff n)) (vi_view (hs_view_info (nd_hotstuff n))) block ph"

abbreviation own_key :: "prims \<Rightarrow> 'a node \<Rightarrow> verifying_key" where
  "own_key P n \<equiv> keypair_public P (hs_keypair (nd_hotstuff n))"

lemma at_vote:
  assumes n1: "at n s vs n1" and w: "kv_highest_view_phase_voted P s = Inr w" "\<And>x. w = Some x \<Longrightarrow> x < vi_view (hs_view_info (nd_hotstuff n))"
    and v: "is_phase_voter (own_key P n) vss pc" "phase_vote_recipient (own_vote P n block ph) vss = Inr k"
  shows "\<exists>n2. runs (vote_if_allowed P pc vss block (Inr ph)) n1 () n2 \<and>
    at n (bt_set_highest_view_phase_voted P (vi_view (hs_view_info (nd_hotstuff n))) s) (vs @ [own_vote P n block ph]) n2 \<and>
    Send k (ProgressMessage (HotStuffMessage (PhaseVoteMsg (own_vote P n block ph)))) \<in> set (nd_out n2)"
proof -
  have "may_vote P pc vss (nd_hotstuff n1) (nd_store n1) = Inr True"
    using n1 w v(1) by (cases w) (simp_all add: may_vote_def rand_def at_def)
  with n1 v(2) show ?thesis
    by (simp add: runs_def vote_if_allowed_def cast_vote_def handler_defs proc_defs at_def Let_def flip: own_vote_def)
       (simp add: own_vote_def sent_votes_def map_filter_def)
qed

lemma at_no_vote:
  assumes "at n s vs n1" and "\<not> is_phase_voter (own_key P n) vss pc"
  shows "runs (vote_if_allowed P pc vss block ph) n1 () n1"
  using assms by (simp add: runs_def vote_if_allowed_def may_vote_def rand_def at_def proc_defs)

text \<open>Everything that \<^verbatim>\<open>on_receive_proposal\<close> does up to the vote.\<close>

lemma proposal_accepted:
  assumes p: "p_block p = b" and good: "block_is_correct P (nd_store n) b = Inr True" "safe_block P (nd_store n) (hs_chain_id (nd_hotstuff n)) b = Inr True"
    and view: "bt_app_view P (nd_store n) (parent_of b) = Inr view"
    and app: "fst (app_validate_block app \<lparr>vbq_proposed_block = b, vbq_block_tree_view = view\<rparr> (nd_app n)) = Valid au vu"
    and u: "bt_update P (nd_publisher n) (b_justify b) (bt_insert P b au vu (nd_store n)) = Inr (r, evs, s')"
    and vss: "kv_validator_set_state P s' = Inr vss"
  shows "\<exists>n1. at n s' (sent_votes n) n1 \<and> (\<forall>n2. runs (vote_if_allowed P (b_justify b) vss (b_hash b) (Inr (if vu \<noteq> None then Prepare else Generic))) n1 () n2 \<longrightarrow>
    runs (on_receive_proposal P app p origin) n () (snd (stop_accepting origin n2)))"
proof -
  let ?s = "nd_store n" and ?req = "\<lparr>vbq_proposed_block = b, vbq_block_tree_view = view\<rparr>"
  have "at n ?s (sent_votes n) n" by (simp add: at_def)
  then obtain n1 where n1: "runs (event_publish (ReceiveProposalEvent origin p)) n () n1"
    "at n ?s (sent_votes n) n1" "nd_app n1 = nd_app n" using at_publish by metis
  let ?n2 = "n1\<lparr>nd_app := snd (app_validate_block app ?req (nd_app n1))\<rparr>" and ?ins = "bt_insert P b au vu ?s"
  have call: "runs (call_app (app_validate_block app ?req)) n1 (Valid au vu) ?n2"
    using app n1(3) by (simp add: runs_def call_app_def split_beta)
  let ?n3 = "?n2\<lparr>nd_store := ?ins\<rparr>"
  have wr: "runs (write_store (bt_insert P b au vu)) ?n2 () ?n3" using n1(2) by (simp add: runs_def write_store_def pmodify_def at_def)
  have "at n ?ins (sent_votes n) ?n3" using n1(2) by (simp add: at_def sent_votes_def)
  then obtain n4 where n4: "runs (event_publish (InsertBlockEvent b)) ?n3 () n4" "at n ?ins (sent_votes n) n4" using at_publish by metis
  from at_process [OF n4(2) u vss] obtain n5 where n5: "runs (process_justify P (b_justify b)) n4 vss n5" "at n s' (sent_votes n) n5" by blast
  have store: "nd_store n1 = ?s" "hs_chain_id (nd_hotstuff n1) = hs_chain_id (nd_hotstuff n)" using n1(2) by (simp_all add: at_def)
  have "runs (on_receive_proposal P app p origin) n () (snd (stop_accepting origin n2))"
    if vote: "runs (vote_if_allowed P (b_justify b) vss (b_hash b) (Inr (if vu \<noteq> None then Prepare else Generic))) n5 () n2" for n2
  proof -
    have stop: "runs (stop_accepting origin) n2 () (snd (stop_accepting origin n2))"
      by (simp add: runs_def stop_accepting_def set_hotstuff_def pmodify_def)
    have read: "runs (read_store (\<lambda>s. rand (block_is_correct P s b) (safe_block P s (hs_chain_id (nd_hotstuff n1)) b))) n1 True n1"
      "runs (read_store (\<lambda>s. bt_app_view P s (parent_of b))) n1 view n1"
      using good view store by (auto intro!: runs_read simp: rand_def)
    have respond: "runs (pthen (case Valid au vu of Invalid \<Rightarrow> pret ()
          | Valid app_state_updates validator_set_updates \<Rightarrow>
              pthen (write_store (bt_insert P b app_state_updates validator_set_updates))
              (pthen (event_publish (InsertBlockEvent b))
              (pbind (process_justify P (b_justify b)) (\<lambda>vss.
               vote_if_allowed P (b_justify b) vss (b_hash b) (Inr (if validator_set_updates \<noteq> None then Prepare else Generic))))))
          (stop_accepting origin)) ?n2 () (snd (stop_accepting origin n2))"
      unfolding validate_block_response.case by (rule runs_pthen [OF _ stop], rule runs_pthen [OF wr], rule runs_pthen [OF n4(1)], rule runs_pbind [OF n5(1)], rule vote)
    show ?thesis
      unfolding on_receive_proposal_def Let_def p parent_of_def [symmetric]
      by (rule runs_pthen [OF n1(1)], rule runs_pbind [OF runs_read(3)], rule runs_pbind [OF read(1)], simp only: not_True_eq_False if_False,
          rule runs_pbind [OF read(2)], rule runs_pbind [OF call], rule respond)
  qed
  with n5(2) show ?thesis by blast
qed

text \<open>
  C5. A good proposal gets its vote. Let a proposal arrive from a leader of the view that has not proposed yet, for a block that is
  correct, safe, validated by the application with well-formed updates, above its parent, and with a hash of no other stored
  block, on a tree with the invariant. Then the replica
  inserts the block, processes its justify without any failure, and if it is a voter for that certificate that has not voted in
  this or a later view, it sends exactly one vote, for that block and with its own signature, to the leader that
  collects it, and records the view. If it is no voter, it sends nothing, but accepts the block all the same.
\<close>

lemma good_proposal_gets_vote:
  assumes tree: "tree_ok P (nd_store n)" "vk_parse_exact P" "insertable P (nd_store n) (p_block p)"
    and leader: "accepts_proposal P origin (nd_hotstuff n) (nd_store n) = Inr True"
    and good: "block_is_correct P (nd_store n) (p_block p) = Inr True"
      "safe_block P (nd_store n) (hs_chain_id (nd_hotstuff n)) (p_block p) = Inr True"
    and app: "\<And>view. bt_app_view P (nd_store n) (parent_of (p_block p)) = Inr view \<Longrightarrow>
        fst (app_validate_block app \<lparr>vbq_proposed_block = p_block p, vbq_block_tree_view = view\<rparr> (nd_app n)) = Valid au vu"
      "updates_fit P vu"
    and fresh: "kv_highest_view_phase_voted P (nd_store n) = Inr w" "\<And>x. w = Some x \<Longrightarrow> x < vi_view (hs_view_info (nd_hotstuff n))"
  shows "\<exists>r evs s vss. bt_update P (nd_publisher n) (b_justify (p_block p)) (bt_insert P (p_block p) au vu (nd_store n)) = Inr (r, evs, s) \<and>
    tree_ok P s \<and> kv_validator_set_state P s = Inr vss \<and>
    (let vote = own_vote P n (b_hash (p_block p)) (if vu \<noteq> None then Prepare else Generic) in
     \<forall>k. is_phase_voter (own_key P n) vss (b_justify (p_block p)) \<longrightarrow> phase_vote_recipient vote vss = Inr k \<longrightarrow>
       (\<exists>n'. hs_on_receive_msg P app (ProposalMsg p) origin n = (Inr (), n') \<and>
          nd_store n' = bt_set_highest_view_phase_voted P (vi_view (hs_view_info (nd_hotstuff n))) s \<and>
          sent_votes n' = sent_votes n @ [vote] \<and> Send k (ProgressMessage (HotStuffMessage (PhaseVoteMsg vote))) \<in> set (nd_out n'))) \<and>
    (\<not> is_phase_voter (own_key P n) vss (b_justify (p_block p)) \<longrightarrow>
       (\<exists>n'. hs_on_receive_msg P app (ProposalMsg p) origin n = (Inr (), n') \<and> nd_store n' = s \<and> sent_votes n' = sent_votes n))"
proof -
  let ?b = "p_block p" and ?s = "nd_store n" and ?ph = "if vu \<noteq> None then Prepare else Generic"
  let ?vote = "own_vote P n (b_hash ?b) ?ph" and ?view = "vi_view (hs_view_info (nd_hotstuff n))"
  have par: "is_genesis_pc (b_justify ?b) \<or> stored P ?s (pc_block (b_justify ?b))" using good(2) by (auto simp: safe_block_def rand_eq_True dest: safe_stored)
  obtain view where view: "bt_app_view P ?s (parent_of ?b) = Inr view" using app_view_total [OF tree(1) par] by blast
  from accept_total [OF tree(1,3) app(2) tree(2) par, of "nd_publisher n" au] obtain r evs s where
    u: "bt_update P (nd_publisher n) (b_justify ?b) (bt_insert P ?b au vu ?s) = Inr (r, evs, s)" and ok: "tree_ok P s" by blast
  obtain vss where vss: "kv_validator_set_state P s = Inr vss" using well_typed_vss [OF tree_okD(1) [OF ok]] by blast
  from proposal_accepted [OF refl good view app(1) [OF view] u vss, of origin] obtain n1 where n1: "at n s (sent_votes n) n1"
    and run: "\<And>n2. runs (vote_if_allowed P (b_justify ?b) vss (b_hash ?b) (Inr ?ph)) n1 () n2 \<Longrightarrow>
      runs (on_receive_proposal P app p origin) n () (snd (stop_accepting origin n2))" by blast
  have msg: "hs_on_receive_msg P app (ProposalMsg p) origin n = on_receive_proposal P app p origin n"
    using leader by (simp add: hs_on_receive_msg_def pbind_def pread_def pwhen_def)
  have stop: "snd (stop_accepting origin n2) = n3" if "runs (stop_accepting origin) n2 () n3" for n2 n3 :: "'a node" using that by (simp add: runs_def)
  have w: "kv_highest_view_phase_voted P s = Inr w" using voted_frame(2) [OF u] fresh(1) by (simp add: voted_frame(1))
  have yes: "\<exists>n'. hs_on_receive_msg P app (ProposalMsg p) origin n = (Inr (), n') \<and>
      nd_store n' = bt_set_highest_view_phase_voted P ?view s \<and> sent_votes n' = sent_votes n @ [?vote] \<and>
      Send k (ProgressMessage (HotStuffMessage (PhaseVoteMsg ?vote))) \<in> set (nd_out n')"
    if v: "is_phase_voter (own_key P n) vss (b_justify ?b)" "phase_vote_recipient ?vote vss = Inr k" for k
  proof -
    from at_vote [OF n1 w fresh(2) v] obtain n2 where n2: "runs (vote_if_allowed P (b_justify ?b) vss (b_hash ?b) (Inr ?ph)) n1 () n2"
      "at n (bt_set_highest_view_phase_voted P ?view s) (sent_votes n @ [?vote]) n2"
      "Send k (ProgressMessage (HotStuffMessage (PhaseVoteMsg ?vote))) \<in> set (nd_out n2)" by blast
    from at_stop [OF n2(2), of origin] obtain n3 where n3: "runs (stop_accepting origin) n2 () n3"
      "at n (bt_set_highest_view_phase_voted P ?view s) (sent_votes n @ [?vote]) n3" "nd_out n3 = nd_out n2" by blast
    from run [OF n2(1)] n2(3) n3 show ?thesis unfolding stop [OF n3(1)] msg by (intro exI [of _ n3]) (simp add: runs_def at_def)
  qed
  have no: "\<exists>n'. hs_on_receive_msg P app (ProposalMsg p) origin n = (Inr (), n') \<and> nd_store n' = s \<and> sent_votes n' = sent_votes n"
    if v: "\<not> is_phase_voter (own_key P n) vss (b_justify ?b)"
  proof -
    from at_stop [OF n1, of origin] obtain n3 where n3: "runs (stop_accepting origin) n1 () n3" "at n s (sent_votes n) n3" by blast
    from run [OF at_no_vote [OF n1 v]] n3 show ?thesis unfolding stop [OF n3(1)] msg by (intro exI [of _ n3]) (simp add: runs_def at_def)
  qed
  from u ok vss yes no show ?thesis unfolding Let_def by blast
qed

end
