(* ===== verification/Sync_Composition.thy ===== *)
theory Sync_Composition
  imports Progress
begin

text \<open>
  The block sync server and client together. The server reads blocks with a getter that leaves out their data, so an
  application that compares the data of a block with its data hash refuses what an honest server sends.
\<close>

lemma kv_block_data_empty: "kv_block_data P s x = Inr (Some d) \<Longrightarrow> d = []"
  unfolding kv_block_data_eq
  by (cases "kv_block_data_len P s x"; cases "projr (kv_block_data_len P s x)") (simp_all split: if_splits)

lemma kv_block_no_data:
  assumes "kv_block P s x = Inr (Some b)"
  shows "b_data b = []"
proof -
  from assms have "kv_block_data P s x = Inr (Some (b_data b))" by (auto simp: kv_block_def rbind_eq_Inr_iff split: option.splits)
  then show ?thesis by (rule kv_block_data_empty)
qed

lemma committed_from_no_data:
  "committed_from P s limit h len = Some (Inr (bs, full)) \<Longrightarrow> b \<in> set bs \<Longrightarrow> b_data b = []"
proof (induction bs arbitrary: h len full)
  case (Cons c bs)
  from Cons.prems(1) obtain x where "kv_block P s x = Inr (Some c)"
    and "bs = [] \<or> (\<exists>full'. committed_from P s limit (h + 1) (Suc len) = Some (Inr (bs, full')))"
    by (subst (asm) committed_from.simps)
       (auto simp: rbind_eq_Inr_iff bind_eq_Some_conv ok_or_def split: sum.splits option.splits if_splits)
  with Cons.IH Cons.prems(2) kv_block_no_data show ?case by auto
qed simp

lemma newest_loop_no_data: "newest_loop P s x = Some (Inr bs) \<Longrightarrow> b \<in> set bs \<Longrightarrow> b_data b = []"
proof (induction bs arbitrary: x)
  case (Cons c bs)
  from Cons.prems(1) have "kv_block P s x = Inr (Some c) \<and> (bs = [] \<or> (\<exists>y. newest_loop P s y = Some (Inr bs)))"
    by (subst (asm) newest_loop.simps)
       (auto simp: rbind_eq_Inr_iff bind_eq_Some_conv ok_or_def split: sum.splits option.splits if_splits)
  with Cons.IH Cons.prems(2) kv_block_no_data show ?case by auto
qed simp

lemma push_until_set: "set (push_until limit res bs) \<subseteq> set res \<union> set bs"
  by (induction limit res bs rule: push_until.induct) auto

lemma served_no_data:
  assumes "blocks_from_height_to_newest P s h limit = Inr bs" and "b \<in> set bs"
  shows "b_data b = []"
proof -
  from assms(1) obtain res full where c: "committed_from P s limit h 0 = Some (Inr (res, full))"
    and bs: "if full then bs = res else \<exists>spec. blocks_from_newest_to_committed P s = Inr spec \<and> bs = push_until (unat limit) res (rev spec)"
    by (auto simp: blocks_from_height_to_newest_def rbind_eq_Inr_iff returns_def split: option.splits if_splits)
  note r = committed_from_no_data [OF c]
  show ?thesis
  proof (cases full)
    case False
    with bs obtain spec where spec: "blocks_from_newest_to_committed P s = Inr spec" "bs = push_until (unat limit) res (rev spec)" by auto
    then have "b \<in> set spec \<Longrightarrow> b_data b = []"
      using newest_loop_no_data [of P s _ spec b]
      by (auto simp: blocks_from_newest_to_committed_def rbind_eq_Inr_iff returns_def split: option.splits)
    with r assms(2) spec(2) push_until_set [of "unat limit" res "rev spec"] show ?thesis by auto
  qed (use bs r assms(2) in simp)
qed

lemma responses_no_data:
  assumes "snd (respond P s origin req sv) = sv'" and "Send origin (BlockSyncMessage (BlockSyncResponse resp)) \<in> set (sv_out sv') - set (sv_out sv)"
    and "b \<in> set (bsp_blocks resp)"
  shows "b_data b = []"
  using assms served_no_data
  by (auto simp: respond_def pthen_def pbind_def pgets_def sv_publish_def sv_emit_def pmodify_def pret_def pfail_def
      split: sum.splits fault.splits if_splits)

text \<open>
  C36. An honest server is dropped. Take any response of the block sync server, and a client whose application refuses
  blocks with no data but another data hash than that of no data. If the first block of the response that the client does not have yet
  is such a block, correct and safe, then the client refuses it, stores nothing, and blacklists the server (if the expiry time can
  be represented), although the server has the block with its data and answered as the code tells it to.
\<close>

lemma honest_server_blacklisted:
  assumes "snd (respond P t client req sv) = sv'"
    and "Send client (BlockSyncMessage (BlockSyncResponse resp)) \<in> set (sv_out sv') - set (sv_out sv)"
    and new: "dropWhile (\<lambda>b. bt_contains P (nd_store n) (b_hash b)) (bsp_blocks resp) = b # bs"
    and ok: "tree_ok P (nd_store n)" "block_is_correct P (nd_store n) b = Inr True" "safe_block P (nd_store n) (bc_chain_id (nd_client n)) b = Inr True"
    and app: "\<And>b view a. b_data b = [] \<Longrightarrow> b_data_hash b \<noteq> no_data_hash \<Longrightarrow>
      fst (app_validate_block_for_sync app \<lparr>vbq_proposed_block = b, vbq_block_tree_view = view\<rparr> a) = Invalid"
    and "b_data_hash b \<noteq> no_data_hash"
    and clock: "se_blacklist_time E + bc_blacklist_expiry_time (nd_client n) < instant_limit"
  shows "\<exists>n'. sync_blocks P app E server (bsp_highest_pc resp) (b # bs) k n = (Inr None, n') \<and> nd_store n' = nd_store n \<and>
    blacklist_contains_server_address (nd_client n') server \<and> \<not> hm_contains_key (bc_available_sync_servers (nd_client n')) server"
proof -
  from new have "b \<in> set (bsp_blocks resp)" by (metis list.set_intros(1) set_dropWhileD)
  with responses_no_data [OF assms(1,2)] have "b_data b = []" .
  with app assms(8) have inv: "fst (app_validate_block_for_sync app \<lparr>vbq_proposed_block = b, vbq_block_tree_view = view\<rparr> (nd_app n)) = Invalid" for view by blast
  have "is_genesis_pc (b_justify b) \<or> stored P (nd_store n) (pc_block (b_justify b))" using ok(3) by (auto simp: safe_block_def rand_eq_True dest: safe_stored)
  from app_view_total [OF ok(1) this] obtain view where view: "bt_app_view P (nd_store n) (parent_of b) = Inr view" by blast
  let ?m = "n\<lparr>nd_app := snd (app_validate_block_for_sync app \<lparr>vbq_proposed_block = b, vbq_block_tree_view = view\<rparr> (nd_app n))\<rparr>"
  have "sync_block P app b n = (Inr False, ?m)"
    using ok(2,3) view inv [of view]
    by (simp add: sync_block_def pbind_def pgets_def read_store_def pread_def call_app_def rand_def pret_def split_beta flip: parent_of_def)
  then have "\<exists>n'. sync_blocks P app E server (bsp_highest_pc resp) (b # bs) k n = (Inr None, n') \<and> nd_store n' = nd_store n"
    using clock by (simp add: pbind_def pthen_def blacklist_peer_def try_set_client_def blacklist_sync_server_def instant_add_def pmodify_def
        end_sync_def event_publish_def pret_def)
  with bad_block_blacklists_server show ?thesis by blast
qed

end
