(* ===== verification/Progress_Witnesses.thy ===== *)
theory Progress_Witnesses
  imports Tree_Witnesses Sync_Composition
begin

text \<open>Concrete trees, runs and proposals for the properties on progress.\<close>

section \<open>A fork that a commit prunes\<close>

definition demo_fork :: kv_store where
  "demo_fork = bt_insert demo_prims (demo_block 0 6 genesis_pc) None None demo_update_tree"

lemma demo_init_tree_ok: "tree_ok demo_prims demo_init"
  using initialize_tree_ok [of demo_prims demo_vss us_new] demo_vss_ok by (simp add: demo_init_def vss_ok_def)

lemma demo_init_not_stored: "\<not> stored demo_prims demo_init b"
  by (simp add: stored_def demo_init_def initialize_reads(1))

lemma demo_block_insertable: "h \<noteq> 0 \<Longrightarrow> \<not> stored demo_prims s h \<Longrightarrow> insertable demo_prims s (demo_block x h genesis_pc)"
  by (simp add: insertable_def demo_block_def demo_first_ok(4))

lemma demo_update_tree_ok: "tree_ok demo_prims demo_update_tree"
proof -
  have "updates_fit demo_prims (Some demo_updates)"
    by (simp add: updates_fit_def us_ok_def demo_updates_def hm_ok_def hm_contains_key_def hs_contains_def demo_prims_def)
  moreover have "insertable demo_prims demo_init demo_first"
    using demo_first_fields(4) demo_init_not_stored by (simp add: insertable_def demo_first_fields(2) demo_first_ok(4))
  ultimately show ?thesis using insert_keeps_tree_ok [OF demo_init_tree_ok] by (simp add: demo_update_tree_def)
qed

lemma demo_fork_tree_ok: "tree_ok demo_prims demo_fork"
proof -
  have "\<not> stored demo_prims demo_update_tree 6"
    using demo_init_not_stored demo_first_fields(5) by (auto simp: stored_def demo_update_tree_def bt_insert_height)
  moreover have "updates_fit demo_prims None" by (simp add: updates_fit_def)
  ultimately show ?thesis using insert_keeps_tree_ok [OF demo_update_tree_ok demo_block_insertable] by (simp add: demo_fork_def)
qed

lemma update_total_witness:
  "\<exists>r evs s'. bt_update demo_prims True demo_commit_pc demo_fork = Inr (r, evs, s') \<and> tree_ok demo_prims s'"
proof -
  have "stored demo_prims demo_fork (pc_block demo_commit_pc)"
    by (simp add: stored_def demo_fork_def demo_update_tree_def bt_insert_height demo_commit_pc_def)
  with update_total [OF demo_fork_tree_ok demo_prims_laws(2)] show ?thesis by blast
qed

section \<open>A run with an application that checks heights\<close>

definition check_height :: "prims \<Rightarrow> validate_block_request \<Rightarrow> validate_block_response" where
  "check_height P req =
     (if is_genesis_pc (b_justify (vbq_proposed_block req)) \<or>
        (case kv_block_height P (abv_block_tree (vbq_block_tree_view req)) (pc_block (b_justify (vbq_proposed_block req))) of
           Inr (Some hp) \<Rightarrow> hp < b_height (vbq_proposed_block req) | _ \<Rightarrow> False)
      then Valid None None else Invalid)"

definition height_app :: "prims \<Rightarrow> unit app_ops" where
  "height_app P = demo_app\<lparr>app_validate_block := (\<lambda>req a. (check_height P req, a)), app_validate_block_for_sync := (\<lambda>req a. (check_height P req, a))\<rparr>"

lemma height_app_careful: "careful_app P (height_app P)"
  by (auto simp: careful_app_def height_app_def check_height_def updates_fit_def split: if_splits)

lemma demo_first_acceptable: "acceptable demo_prims (height_app demo_prims) demo_init demo_first None None"
proof -
  obtain view where v: "bt_app_view demo_prims demo_init None = Inr view" by (rule demo_app_view)
  have "validated demo_prims (height_app demo_prims) demo_init demo_first None None"
    unfolding validated_def by (rule exI [of _ view]) (simp add: parent_of_def demo_first_ok v height_app_def check_height_def)
  with demo_first_ok show ?thesis unfolding acceptable_def by blast
qed

lemma demo_first_hash: "hashes_distinct [demo_first]"
proof -
  have "b_hash demo_first \<noteq> 0" unfolding demo_first_def demo_block_def by code_simp
  then show ?thesis by (simp add: hashes_distinct_def genesis_pc_def)
qed

definition demo_run :: "protocol_state list" where
  "demo_run = [protocol_start demo_prims us_new demo_vss, \<lparr>ps_store = demo_inserted, ps_votes = [], ps_blocks = [demo_first]\<rparr>]"

lemma demo_run: "protocol_run demo_prims (height_app demo_prims) us_new demo_vss demo_run"
proof -
  have s: "ps_store (protocol_start demo_prims us_new demo_vss) = demo_init" by (simp add: protocol_start_def demo_init_def)
  from protocol_step.insert [OF demo_first_acceptable [folded s]] show ?thesis
    by (simp add: protocol_run_def demo_run_def protocol_start_def demo_inserted_def demo_init_def)
qed

lemma run_never_stuck_witness:
  "tree_ok demo_prims demo_inserted \<and>
   (\<exists>r evs s. bt_update demo_prims False genesis_pc demo_inserted = Inr (r, evs, s) \<and> tree_ok demo_prims s)"
proof -
  have vss: "vss_ok demo_prims demo_vss" using demo_vss_ok by (simp add: vss_ok_def)
  have d: "hashes_distinct (ps_blocks (last demo_run))" using demo_first_hash by (simp add: demo_run_def)
  note stuck = run_never_stuck [OF demo_run vss height_app_careful demo_prims_laws(2) d]
  have s: "ps_store (demo_run ! 0) = demo_init" "ps_blocks (demo_run ! 0) = []" "ps_store (demo_run ! 1) = demo_inserted"
    by (simp_all add: demo_run_def protocol_start_def demo_init_def)
  have "hashes_distinct (ps_blocks (demo_run ! 0) @ [demo_first])" "0 < length demo_run" using demo_first_hash unfolding s(2) by (simp_all add: demo_run_def)
  with stuck [of 0] demo_first_acceptable have
    "\<exists>r evs s. bt_update demo_prims False (b_justify demo_first) (bt_insert demo_prims demo_first None None demo_init) = Inr (r, evs, s) \<and> tree_ok demo_prims s"
    unfolding s(1) by blast
  then have "\<exists>r evs s. bt_update demo_prims False genesis_pc demo_inserted = Inr (r, evs, s) \<and> tree_ok demo_prims s"
    by (simp add: demo_inserted_def demo_first_ok(3))
  with stuck [of 1] s(3) show ?thesis by (simp add: demo_run_def)
qed

section \<open>A vote for a good proposal\<close>

lemma good_proposal_gets_vote_witness:
  "\<exists>l k n'. hs_on_receive_msg demo_prims demo_app (ProposalMsg \<lparr>p_chain_id = 0, p_view = 3, p_block = demo_first\<rparr>) l (demo_node demo_init 3) = (Inr (), n') \<and>
     nd_store n' = bt_set_highest_view_phase_voted demo_prims 3 demo_inserted \<and>
     sent_votes n' = [own_vote demo_prims (demo_node demo_init 3) (b_hash demo_first) Generic]"
proof -
  obtain l where l: "select_leader 3 demo_vs = Inr l" by (rule demo_leader)
  obtain k where k: "select_leader 4 demo_vs = Inr k" by (rule demo_leader)
  let ?n = "demo_node demo_init 3" and ?p = "\<lparr>p_chain_id = 0, p_view = 3, p_block = demo_first\<rparr>"
  have n: "nd_store ?n = demo_init" "nd_publisher ?n = False" "nd_hotstuff ?n = hotstuff_new 0 1 \<lparr>vi_view = 3, vi_deadline = 100\<rparr> demo_vss"
    "sent_votes ?n = []" by (simp_all add: demo_node_def sent_votes_def map_filter_def)
  have h: "hs_chain_id (nd_hotstuff ?n) = 0" "vi_view (hs_view_info (nd_hotstuff ?n)) = 3" "hs_keypair (nd_hotstuff ?n) = 1"
    by (simp_all add: n hotstuff_new_def)
  have ins: "insertable demo_prims (nd_store ?n) (p_block ?p)"
    using demo_block_insertable [of "b_hash demo_first"] demo_init_not_stored demo_first_hash
    by (simp add: n hashes_distinct_def) (simp add: demo_first_def demo_block_def genesis_pc_def)
  have acc: "accepts_proposal demo_prims l (nd_hotstuff ?n) (nd_store ?n) = Inr True"
    by (simp add: accepts_proposal_def demo_init_reads is_proposer_def demo_vss_def l n hotstuff_new_def ror_def rand_def)
  have app: "fst (app_validate_block demo_app \<lparr>vbq_proposed_block = p_block ?p, vbq_block_tree_view = view\<rparr> (nd_app ?n)) = Valid None None" for view
    by (simp add: demo_app_def)
  have voter: "is_phase_voter (own_key demo_prims ?n) demo_vss genesis_pc"
    by (simp add: h keypair_public_def demo_prims_def is_phase_voter_def demo_vss_def demo_vs_def vs_contains_def hm_contains_key_def hm_get_def)
  have to: "phase_vote_recipient (own_vote demo_prims ?n (b_hash demo_first) Generic) demo_vss = Inr k"
    using k by (simp add: phase_vote_recipient_def own_vote_def phase_vote_new_def h demo_vss_def)
  from good_proposal_gets_vote [where n = ?n and p = ?p and P = demo_prims and app = demo_app and origin = l and au = None and vu = None and w = None]
    demo_init_tree_ok demo_prims_laws(2) ins acc demo_first_ok app demo_init_reads(5)
  obtain r evs s vss where u: "bt_update demo_prims False genesis_pc demo_inserted = Inr (r, evs, s)" "kv_validator_set_state demo_prims s = Inr vss"
    and vote: "is_phase_voter (own_key demo_prims ?n) vss genesis_pc \<Longrightarrow>
       phase_vote_recipient (own_vote demo_prims ?n (b_hash demo_first) Generic) vss = Inr k \<Longrightarrow>
       \<exists>n'. hs_on_receive_msg demo_prims demo_app (ProposalMsg ?p) l ?n = (Inr (), n') \<and>
          nd_store n' = bt_set_highest_view_phase_voted demo_prims 3 s \<and>
          sent_votes n' = [own_vote demo_prims ?n (b_hash demo_first) Generic]"
    by (simp add: n(1,2,4) h(1,2) updates_fit_def demo_inserted_def Let_def) blast
  from u demo_update have s: "s = demo_inserted" by simp
  with u(2) demo_inserted_reads(2) have "vss = demo_vss" by simp
  with vote voter to s show ?thesis by blast
qed

section \<open>A server with a block that has data\<close>

definition data_block :: block where
  "data_block = \<lparr>b_height = 0, b_hash = block_compute_hash demo_prims 0 genesis_pc 7, b_justify = genesis_pc, b_data_hash = 7, b_data = [[1, 2]]\<rparr>"

definition data_store :: kv_store where
  "data_store = bt_insert demo_prims data_block None None demo_init"

definition empty_block :: block where
  "empty_block = data_block\<lparr>b_data := []\<rparr>"

definition data_app :: "unit app_ops" where
  "data_app = demo_app\<lparr>app_validate_block_for_sync := (\<lambda>req a.
     (if b_data (vbq_proposed_block req) = [] \<and> b_data_hash (vbq_proposed_block req) \<noteq> 0 then Invalid else Valid None None, a))\<rparr>"

definition data_request :: block_sync_request where
  "data_request = \<lparr>bsr_chain_id = 0, bsr_start_height = 0, bsr_limit = 10\<rparr>"

definition data_response :: block_sync_response where
  "data_response = \<lparr>bsp_blocks = [empty_block], bsp_highest_pc = genesis_pc\<rparr>"

lemma data_store_block: "kv_block demo_prims data_store (b_hash data_block) = Inr (Some empty_block)"
proof -
  let ?w = "kv_write (wb_set_block demo_prims data_block wb_new) demo_init" and ?h = "b_hash data_block"
  have same: "data_store (path_bytes demo_prims p) = ?w (path_bytes demo_prims p)" if "of_block p = Some ?h" "p \<noteq> PChildren ?h" for p
    using that by (cases p) (simp_all add: data_store_def bt_insert_def Let_def wb_setter_defs store_simps)
  have len: "unat (data_len_of (b_data data_block)) = 1" by (simp add: data_len_of_def data_block_def)
  have "kv_block_datum demo_prims data_store ?h (of_nat 0) = kv_block_datum demo_prims ?w ?h (of_nat 0)" by (simp add: kv_block_datum_def same)
  also have "\<dots> = Some (b_data data_block ! 0)" by (rule set_block_datum [OF demo_prims_laws(1)]) (simp_all add: data_block_def)
  finally have "kv_block_datum demo_prims data_store ?h 0 \<noteq> None" by simp
  moreover have "kv_block_data_len demo_prims data_store ?h = Inr (Some (data_len_of (b_data data_block)))"
    using set_block_fields(4) [of demo_prims data_block wb_new demo_init] by (simp add: kv_block_data_len_def kv_get_opt_def same)
  ultimately have "kv_block_data demo_prims data_store ?h = Inr (Some [])" by (simp add: kv_block_data_eq len)
  moreover have "kv_block_height demo_prims data_store ?h = Inr (Some 0)" "kv_block_justify demo_prims data_store ?h = Inr genesis_pc"
    by (simp_all add: data_store_def bt_insert_height bt_insert_justify) (simp_all add: data_block_def)
  moreover have "kv_block_data_hash demo_prims data_store ?h = Inr (Some 7)"
    using set_block_fields(3) [of demo_prims data_block wb_new demo_init] by (simp add: kv_block_data_hash_def kv_get_opt_def same) (simp add: data_block_def)
  ultimately show ?thesis by (simp add: kv_block_def empty_block_def) (simp add: data_block_def)
qed

lemma data_store_reads:
  "kv_block_at_height demo_prims data_store 0 = Inr None" "kv_newest_block demo_prims data_store = Inr (Some (b_hash data_block))"
  "kv_highest_committed_block demo_prims data_store = Inr None" "kv_highest_pc demo_prims data_store = Inr genesis_pc"
proof -
  have "demo_init (path_bytes demo_prims (PBlockAtHeight 0)) = None"
    by (simp add: demo_init_def bt_initialize_def demo_vss_def us_new_def Let_def wb_setter_defs store_simps wb_apply_app_state_updates_def)
  then show "kv_block_at_height demo_prims data_store 0 = Inr None"
    by (simp add: data_store_def kv_block_at_height_def kv_get_opt_def bt_insert_path set_block_frame store_simps)
  show "kv_newest_block demo_prims data_store = Inr (Some (b_hash data_block))"
    by (simp add: data_store_def kv_newest_block_def kv_get_opt_def bt_insert_path ok_or_def)
  have "kv_highest_committed_block demo_prims data_store = kv_highest_committed_block demo_prims demo_init"
    "kv_highest_pc demo_prims data_store = kv_highest_pc demo_prims demo_init"
    by (simp_all add: data_store_def kv_getter_defs kv_get_req_def kv_get_opt_def bt_insert_other)
  then show "kv_highest_committed_block demo_prims data_store = Inr None" "kv_highest_pc demo_prims data_store = Inr genesis_pc"
    by (simp_all add: demo_init_reads)
qed

lemma data_served:
  "Send 1 (BlockSyncMessage (BlockSyncResponse data_response)) \<in>
    set (sv_out (snd (respond demo_prims data_store 1 data_request demo_server))) - set (sv_out demo_server)"
proof -
  have "committed_from demo_prims data_store 100 0 0 = Some (Inr ([], False))"
    by (subst committed_from.simps) (simp add: data_store_reads)
  moreover have "newest_loop demo_prims data_store (b_hash data_block) = Some (Inr [empty_block])"
    by (subst newest_loop.simps) (simp add: data_store_block data_store_reads ok_or_def, simp add: empty_block_def data_block_def)
  ultimately have "blocks_from_height_to_newest demo_prims data_store 0 100 = Inr [empty_block]"
    by (simp add: blocks_from_height_to_newest_def blocks_from_newest_to_committed_def data_store_reads returns_def)
  then show ?thesis
    by (simp add: respond_def data_request_def demo_server_def server_new_def pthen_def pbind_def pgets_def sv_publish_def sv_emit_def
        pmodify_def data_store_reads data_response_def max_def)
qed

lemma empty_block_good:
  "block_is_correct demo_prims demo_init empty_block = Inr True" "safe_block demo_prims demo_init 0 empty_block = Inr True"
proof -
  show "block_is_correct demo_prims demo_init empty_block = Inr True"
    by (simp add: block_is_correct_def empty_block_def data_block_def pc_is_correct_def rand_def demo_first_ok(4))
  have "safe_block demo_prims demo_init 0 empty_block = safe_block demo_prims demo_init 0 demo_first"
    by (simp add: safe_block_def demo_first_ok(3)) (simp add: empty_block_def data_block_def)
  with demo_first_ok(2) show "safe_block demo_prims demo_init 0 empty_block = Inr True" by simp
qed

lemma honest_server_blacklisted_witness:
  "\<exists>n'. sync_blocks demo_prims data_app demo_env 2 genesis_pc [empty_block] 0 (demo_node demo_init 3) = (Inr None, n') \<and>
     nd_store n' = demo_init \<and> blacklist_contains_server_address (nd_client n') 2"
proof -
  let ?n = "demo_node demo_init 3"
  have n: "nd_store ?n = demo_init" "bc_chain_id (nd_client ?n) = 0" by (simp_all add: demo_node_def demo_client_def client_new_def)
  have new: "dropWhile (\<lambda>b. bt_contains demo_prims (nd_store ?n) (b_hash b)) (bsp_blocks data_response) = empty_block # []"
    using contains_stored demo_init_not_stored by (auto simp: data_response_def n)
  have app: "fst (app_validate_block_for_sync data_app \<lparr>vbq_proposed_block = b, vbq_block_tree_view = view\<rparr> a) = Invalid"
    if "b_data b = []" "b_data_hash b \<noteq> 0" for b view a using that by (simp add: data_app_def)
  have h: "b_data_hash empty_block \<noteq> 0" by (simp add: empty_block_def data_block_def)
  have c: "se_blacklist_time demo_env + bc_blacklist_expiry_time (nd_client ?n) < instant_limit"
    by (simp add: demo_env_def demo_client_def client_new_def instant_limit_def)
  from honest_server_blacklisted [OF refl data_served new, where app = data_app and no_data_hash = 0 and E = demo_env and server = 2 and k = 0] demo_init_tree_ok empty_block_good app h n c show ?thesis
    by (simp add: data_response_def) blast
qed

end
