(* ===== verification/Agreement.thy ===== *)
theory Agreement
  imports Protocol Batch_Writes Safety
begin

text \<open>
  Agreement between replicas, on the protocol steps. The honest replicas run the protocol of the
  theory of protocol steps, each on its own; the network and the other replicas do what they like, except that
  they cannot sign for an honest replica and find no two blocks with one hash. With an
  application that does not change the validator set, and as long as no honest replica gives up a lock for an older
  one, the highest committed blocks of all honest replicas, at all times, lie on one branch.
\<close>

section \<open>What is assumed of a system of replicas\<close>

text \<open>The application never updates the validator set.\<close>

definition static_app :: "'a app_ops \<Rightarrow> bool" where
  "static_app app \<longleftrightarrow> (\<forall>req a au vu. fst (app_validate_block app req a) = Valid au vu \<or>
     fst (app_validate_block_for_sync app req a) = Valid au vu \<longrightarrow> vu = None)"

text \<open>A phase message that verifies under the key of an honest replica is one that the replica has voted for.\<close>

definition unforgeable :: "prims \<Rightarrow> verifying_key set \<Rightarrow> (verifying_key \<Rightarrow> protocol_state list) \<Rightarrow> bool" where
  "unforgeable P H tr \<longleftrightarrow> (\<forall>k \<in> H. \<forall>c view b ph sig. vk_verify P k (phase_message P c view b ph) sig \<longrightarrow>
     (\<exists>v \<in> set (ps_votes (last (tr k))). pv_view v = view \<and> pv_block v = b \<and> pv_phase v = ph))"

text \<open>
  Among the blocks that honest replicas insert, those with the same hash have the same justify \<open>just\<close>, and none has
  the hash that stands for the genesis block.
\<close>

definition collision_free :: "(crypto_hash \<Rightarrow> phase_certificate) \<Rightarrow> verifying_key set \<Rightarrow> (verifying_key \<Rightarrow> protocol_state list) \<Rightarrow> bool" where
  "collision_free just H tr \<longleftrightarrow> (\<forall>k \<in> H. \<forall>b \<in> set (ps_blocks (last (tr k))).
     b_justify b = just (b_hash b) \<and> b_hash b \<noteq> pc_block genesis_pc)"

text \<open>A replica does not go back to an older lock: each step leaves the locked PC alone or replaces it by one of a higher view.\<close>

definition never_unlocks :: "prims \<Rightarrow> protocol_state list \<Rightarrow> bool" where
  "never_unlocks P tr \<longleftrightarrow> successively (\<lambda>p p'. \<forall>l l'. kv_locked_pc P (ps_store p) = Inr l \<longrightarrow>
     kv_locked_pc P (ps_store p') = Inr l' \<longrightarrow> l' = l \<or> pc_view l < pc_view l') tr"

text \<open>Branches: \<open>extends just x b\<close> if the links of \<open>x\<close> lead to \<open>b\<close>.\<close>

inductive extends :: "(crypto_hash \<Rightarrow> phase_certificate) \<Rightarrow> crypto_hash \<Rightarrow> crypto_hash \<Rightarrow> bool" for just where
  here: "extends just b b"
| link: "\<not> is_genesis_pc (just x) \<Longrightarrow> extends just (pc_block (just x)) b \<Longrightarrow> extends just x b"

inductive_simps extends_iff: "extends just x b"

lemma extends_trans: "extends just x y \<Longrightarrow> extends just y z \<Longrightarrow> extends just x z"
  by (induction rule: extends.induct) (auto intro: extends.link)

text \<open>Blocks whose links lead to the genesis certificate.\<close>

inductive rooted :: "(crypto_hash \<Rightarrow> phase_certificate) \<Rightarrow> crypto_hash \<Rightarrow> bool" for just where
  genesis: "is_genesis_pc (just x) \<Longrightarrow> rooted just x"
| child: "rooted just (pc_block (just x)) \<Longrightarrow> rooted just x"

section \<open>What the steps write\<close>

text \<open>Writes that change no justify, no validator set and set no status.\<close>

fun tree_op :: "prims \<Rightarrow> kv_op \<Rightarrow> bool" where
  "tree_op P (KSet k v) \<longleftrightarrow> k \<notin> path_bytes P ` (range PBlockJustify \<union> range PStatus \<union>
     {PCommittedValidatorSet, PPreviousValidatorSet, PUpdateHeight, PUpdateDecided})"
| "tree_op P (KDelete k) \<longleftrightarrow> k \<notin> path_bytes P ` {PCommittedValidatorSet, PPreviousValidatorSet, PUpdateHeight, PUpdateDecided}"

definition no_status :: "prims \<Rightarrow> kv_store \<Rightarrow> bool" where
  "no_status P s \<longleftrightarrow> (\<forall>x. s (path_bytes P (PStatus x)) = None)"

lemma no_status_read: "no_status P s \<Longrightarrow> kv_validator_set_updates_status P s b = Inr NoUpdates"
  by (simp add: no_status_def kv_validator_set_updates_status_def kv_get_opt_def map_ed25519_def ok_or_def)

lemma tree_op_set: "p \<notin> range PBlockJustify \<union> range PStatus \<union>
    {PCommittedValidatorSet, PPreviousValidatorSet, PUpdateHeight, PUpdateDecided} \<Longrightarrow> tree_op P (KSet (path_bytes P p) v)"
  by (auto simp: path_bytes_inject)

lemma tree_op_delete: "p \<notin> {PCommittedValidatorSet, PPreviousValidatorSet, PUpdateHeight, PUpdateDecided} \<Longrightarrow>
    tree_op P (KDelete (path_bytes P p))"
  by (auto simp: path_bytes_inject)

lemma tree_op_at_height: "tree_op P (KSet (vconcat [1] xs) v)"
  by (auto simp: path_bytes.simps vconcat_def block_prefix_def)

interpretation tree: commit_writes P s "\<lambda>op. no_status P s \<longrightarrow> tree_op P op" for P s
proof
  show "no_status P s \<longrightarrow> tree_op P (KDelete (path_bytes P p))" if "of_block p \<noteq> None" for p
    using that by (intro impI tree_op_delete) auto
  fix b u
  assume "kv_validator_set_updates_status P s b = Inr (Pending u)"
  then have "\<not> no_status P s" using no_status_read by fastforce
  then show "(no_status P s \<longrightarrow> tree_op P x) \<and> (no_status P s \<longrightarrow> tree_op P y) \<and> (no_status P s \<longrightarrow> tree_op P z) \<and>
    (no_status P s \<longrightarrow> tree_op P x') \<and> (no_status P s \<longrightarrow> tree_op P y')" for x y z x' y' by simp
qed (simp_all add: tree_op_set tree_op_delete tree_op_at_height image_iff del: tree_op.simps)

text \<open>What such writes keep of a store.\<close>

definition tree_kept :: "prims \<Rightarrow> kv_store \<Rightarrow> kv_store \<Rightarrow> bool" where
  "tree_kept P s t \<longleftrightarrow> same_at P {PCommittedValidatorSet, PPreviousValidatorSet, PUpdateHeight, PUpdateDecided} s t \<and>
     (no_status P s \<longrightarrow> no_status P t) \<and> (\<forall>x. t (path_bytes P (PBlockJustify x)) \<in> {None, s (path_bytes P (PBlockJustify x))})"

lemma tree_kept_op: "tree_op P op \<Longrightarrow> tree_kept P s t \<Longrightarrow> tree_kept P s (kv_apply op t)"
  by (cases op) (auto simp: tree_kept_def same_at_def no_status_def)

lemma tree_kept_vss: "tree_kept P s t \<Longrightarrow> kv_validator_set_state P t = kv_validator_set_state P s"
  by (simp add: tree_kept_def same_at_def kv_validator_set_state_def kv_getter_defs kv_get_req_def kv_get_opt_def)

lemma tree_kept_justify: "tree_kept P s t \<Longrightarrow> kv_block_justify P t x = Inr j \<Longrightarrow> kv_block_justify P s x = Inr j"
  unfolding tree_kept_def kv_block_justify_def kv_get_req_def by (metis (no_types, lifting) insertE empty_iff ok_or_def rbind_eq_Inr_iff option.simps(4) Inl_Inr_False)

lemma update_tree_kept:
  assumes "bt_update P pub pc s = Inr (r, ev, s')" and "no_status P s" and "pc_phase pc \<noteq> Decide"
  shows "tree_kept P s s'"
proof -
  obtain wb where s': "s' = kv_write wb s" and wb: "writes_ok (\<lambda>op. no_status P s \<longrightarrow> tree_op P op) wb"
    by (rule tree.update_ok [OF assms(1)]) (use assms(3) in \<open>simp_all add: tree_op_set image_iff del: tree_op.simps\<close>)
  show ?thesis unfolding s'
    by (rule writes_ok_kept [OF wb]) (use assms(2) tree_kept_op in \<open>auto simp: tree_kept_def\<close>)
qed

lemma insert_tree:
  assumes "no_status P s"
  shows "no_status P (bt_insert P b au None s)" "kv_validator_set_state P (bt_insert P b au None s) = kv_validator_set_state P s"
    "kv_locked_pc P (bt_insert P b au None s) = kv_locked_pc P s"
    "kv_highest_committed_block P (bt_insert P b au None s) = kv_highest_committed_block P s"
proof -
  show "no_status P (bt_insert P b au None s)" using assms by (simp add: no_status_def bt_insert_path set_block_frame store_simps)
qed (simp_all add: kv_validator_set_state_def kv_getter_defs kv_get_req_def kv_get_opt_def bt_insert_other)

lemma update_highest_committed:
  assumes "bt_update P pub pc s = Inr (r, ev, s')" and "kv_highest_committed_block P s' = Inr (Some b)"
  shows "kv_highest_committed_block P s = Inr (Some b) \<or> block_to_commit P s pc = Inr (Some b)"
  using assms(1)
proof (cases rule: bt_update_cases)
  case (1 highest_pc to_lock to_commit cb wb0 wb1)
  have w0: "kv_write wb0 s (path_bytes P PHighestCommittedBlock) = s (path_bytes P PHighestCommittedBlock)"
    by (simp add: 1(4) wb_setter_defs store_simps split: option.splits)
  have s': "s' (path_bytes P PHighestCommittedBlock) = kv_write wb1 s (path_bytes P PHighestCommittedBlock)"
    by (simp add: 1(7) wb_setter_defs store_simps)
  show ?thesis
  proof (cases to_commit)
    case None
    with 1(5) w0 s' assms(2) show ?thesis by (simp add: kv_highest_committed_block_def kv_get_opt_def)
  next
    case (Some c)
    with 1(5) have commit: "bt_commit P s c wb0 = Inr (cb, wb1)" by simp
    have "\<exists>hb. kv_block_height P s c = Inr (Some hb) \<and> hb > h" if "bt_highest_committed_block_height P s = Inr (Some h)" for h
      using block_to_commit_height [of P s pc c] 1(3) Some that by (auto simp: not_committed_yet_def rbind_eq_Inr_iff)
    from bt_commit_last [OF commit this] obtain cb0 w where "commit_block P s c c (cb0, w) = Inr (cb, wb1)" by (metis surj_pair)
    from commit_block_highest [OF this, of s] s' assms(2) Some 1(3) show ?thesis
      by (simp add: kv_highest_committed_block_def kv_get_opt_def)
  qed
qed

section \<open>Certificates in a static system\<close>

definition signed :: "prims \<Rightarrow> validator_set_state \<Rightarrow> phase_certificate \<Rightarrow> bool" where
  "signed P vss pc \<longleftrightarrow> pc_is_correctly_signed P pc (committed_vs vss) = Inr True \<and> pc_phase pc = Generic"

lemma safe_pc_generic: "no_status P s \<Longrightarrow> safe_pc P s c pc = Inr True \<Longrightarrow> pc_phase pc = Generic"
  by (cases "pc_phase pc") (auto simp: safe_pc_def rand_eq_True no_status_read ror_def rand_def rbind_eq_Inr_iff split: if_splits sum.splits)

lemma checked_signed:
  assumes "no_status P s" and "kv_validator_set_state P s = Inr vss" and "vss_update_height vss = None"
    and "pc_is_correct P s pc = Inr True" and "safe_pc P s c pc = Inr True"
  shows "is_genesis_pc pc \<or> signed P vss pc"
  using assms(2-4) safe_pc_generic [OF assms(1,5)]
  by (auto simp: pc_is_correct_def signed_def rbind_eq_Inr_iff split: if_splits option.splits)

lemma safe_pc_parent:
  assumes "safe_pc P s c pc = Inr True" and "\<not> is_genesis_pc pc"
  obtains j where "kv_block_justify P s (pc_block pc) = Inr j"
proof -
  from assms have "bt_contains P s (pc_block pc)" by (simp add: safe_pc_def rand_eq_True)
  then obtain b where "kv_block P s (pc_block pc) = Inr (Some b)" by (auto simp: bt_contains_def split: sum.splits)
  with that show thesis by (auto simp: kv_block_def rbind_eq_Inr_iff split: option.splits)
qed

section \<open>The invariant of a run\<close>

text \<open>A certificate that is the genesis certificate, or is signed and for a block inserted before.\<close>

definition good_pc :: "prims \<Rightarrow> validator_set_state \<Rightarrow> block list \<Rightarrow> phase_certificate \<Rightarrow> bool" where
  "good_pc P vss bs pc \<longleftrightarrow> is_genesis_pc pc \<or> signed P vss pc \<and> pc_block pc \<in> b_hash ` set bs"

text \<open>Why a block may be committed: three signed certificates of consecutive views along its branch.\<close>

definition commit_cert :: "prims \<Rightarrow> validator_set_state \<Rightarrow> (crypto_hash \<Rightarrow> phase_certificate) \<Rightarrow> phase_certificate \<Rightarrow> crypto_hash \<Rightarrow> bool" where
  "commit_cert P vss just pc b \<longleftrightarrow>
     (let pc2 = just (pc_block pc); pc1 = just (pc_block pc2) in
      \<not> is_genesis_pc pc2 \<and> \<not> is_genesis_pc pc1 \<and> signed P vss pc \<and> signed P vss pc2 \<and> signed P vss pc1 \<and>
      pc_view pc = pc_view pc2 + 1 \<and> pc_view pc2 = pc_view pc1 + 1 \<and> pc_block pc1 = b)"

definition chain_inv :: "prims \<Rightarrow> validator_set_state \<Rightarrow> (crypto_hash \<Rightarrow> phase_certificate) \<Rightarrow> protocol_state \<Rightarrow> bool" where
  "chain_inv P vss just p \<longleftrightarrow> no_status P (ps_store p) \<and> kv_validator_set_state P (ps_store p) = Inr vss \<and>
     (\<forall>b \<in> set (ps_blocks p). good_pc P vss (ps_blocks p) (b_justify b) \<and> rooted just (b_hash b)) \<and>
     (\<forall>x j. kv_block_justify P (ps_store p) x = Inr j \<longrightarrow> (\<exists>b \<in> set (ps_blocks p). b_hash b = x \<and> b_justify b = j)) \<and>
     (\<exists>l. kv_locked_pc P (ps_store p) = Inr l \<and> good_pc P vss (ps_blocks p) l) \<and>
     (\<forall>b. kv_highest_committed_block P (ps_store p) = Inr (Some b) \<longrightarrow> (\<exists>pc. commit_cert P vss just pc b))"

definition linked :: "(crypto_hash \<Rightarrow> phase_certificate) \<Rightarrow> block list \<Rightarrow> bool" where
  "linked just bs \<longleftrightarrow> (\<forall>b \<in> set bs. b_justify b = just (b_hash b) \<and> b_hash b \<noteq> pc_block genesis_pc)"

lemma good_pc_mono: "good_pc P vss bs pc \<Longrightarrow> set bs \<subseteq> set bs' \<Longrightarrow> good_pc P vss bs' pc"
  by (auto simp: good_pc_def)

lemma chain_inv_start:
  assumes "vss_ok P vss" and "us_ok u"
  shows "chain_inv P vss just (protocol_start P u vss)"
proof -
  let ?s = "bt_initialize P u vss Map.empty" and ?w = "wb_apply_app_state_updates P u wb_new"
  have old: "kv_write ?w Map.empty (path_bytes P p) = None" if "\<And>k. p \<noteq> PAppState k" for p
    using wb_apply_app_state_updates_frame [OF that] by (simp add: store_simps)
  have "?s (path_bytes P (PStatus x)) = None" "?s (path_bytes P (PBlockJustify x)) = None" for x
    by (cases "vss_update_height vss"; simp add: bt_initialize_def Let_def wb_setter_defs store_simps old)+
  then show ?thesis
    using bt_initialize_gets [OF assms(2), of vss P] assms(1)
    by (auto simp: chain_inv_def protocol_start_def no_status_def vss_ok_def good_pc_def is_genesis_pc_def
        kv_block_justify_def kv_get_req_def ok_or_def)
qed

lemma insert_inv:
  assumes inv: "chain_inv P vss just p" and ok: "acceptable P app (ps_store p) b au None"
    and "vss_update_height vss = None" and link: "linked just (ps_blocks p @ [b])"
  defines "p' \<equiv> p\<lparr>ps_store := bt_insert P b au None (ps_store p), ps_blocks := ps_blocks p @ [b]\<rparr>"
  shows "chain_inv P vss just p' \<and> good_pc P vss (ps_blocks p) (b_justify b)"
proof -
  let ?s = "ps_store p"
  have st: "no_status P ?s" and vss: "kv_validator_set_state P ?s = Inr vss" using inv by (simp_all add: chain_inv_def)
  from ok obtain c where c: "pc_is_correct P ?s (b_justify b) = Inr True" "safe_pc P ?s c (b_justify b) = Inr True"
    by (auto simp: acceptable_def block_is_correct_def safe_block_def rand_eq_True)
  have just: "b_justify b = just (b_hash b)" using link by (simp add: linked_def)
  have good: "good_pc P vss (ps_blocks p) (b_justify b) \<and> rooted just (b_hash b)"
  proof (cases "is_genesis_pc (b_justify b)")
    case True
    then show ?thesis by (simp add: good_pc_def just rooted.genesis)
  next
    case False
    from safe_pc_parent [OF c(2) False] obtain j where "kv_block_justify P ?s (pc_block (b_justify b)) = Inr j" .
    with inv obtain b' where "b' \<in> set (ps_blocks p)" "b_hash b' = pc_block (b_justify b)" "rooted just (b_hash b')"
      unfolding chain_inv_def by blast
    moreover from this have "rooted just (b_hash b)" by (metis just rooted.child)
    ultimately show ?thesis using checked_signed [OF st vss assms(3) c] False by (force simp: good_pc_def)
  qed
  have "good_pc P vss (ps_blocks p @ [b]) pc" if "good_pc P vss (ps_blocks p) pc" for pc
    by (rule good_pc_mono [OF that]) auto
  with good inv insert_tree [OF st, of b au] show ?thesis
    unfolding chain_inv_def p'_def by (auto simp: bt_insert_justify)
qed

lemma commit_rule_cert:
  assumes inv: "chain_inv P vss just p" and link: "linked just (ps_blocks p)"
    and sg: "signed P vss pc" and "block_to_commit P (ps_store p) pc = Inr (Some b)"
  shows "commit_cert P vss just pc b"
proof -
  let ?s = "ps_store p"
  have stored: "j = just x \<and> (is_genesis_pc j \<or> signed P vss j)" if "kv_block_justify P ?s x = Inr j" for x j
    using that inv link unfolding chain_inv_def linked_def good_pc_def by metis
  have "pc_phase pc = Generic" using sg by (simp add: signed_def)
  with assms(4) obtain pc2 pc1 where
    "kv_block_justify P ?s (pc_block pc) = Inr pc2" "\<not> is_genesis_pc pc2"
    "kv_block_justify P ?s (pc_block pc2) = Inr pc1" "\<not> is_genesis_pc pc1"
    "pc_view pc = pc_view pc2 + 1" "pc_view pc2 = pc_view pc1 + 1" "pc_block pc1 = b"
    by (auto simp: block_to_commit_def rbind_eq_Inr_iff split: if_splits)
  with stored sg show ?thesis by (auto simp: commit_cert_def Let_def)
qed

lemma update_inv:
  assumes inv: "chain_inv P vss just p" and link: "linked just (ps_blocks p)"
    and sg: "is_genesis_pc pc \<or> signed P vss pc" and u: "bt_update P pub pc (ps_store p) = Inr (r, ev, s)"
  shows "chain_inv P vss just (p\<lparr>ps_store := s\<rparr>)"
proof -
  let ?s = "ps_store p"
  have ph: "pc_phase pc = Generic" using sg by (auto simp: signed_def is_genesis_pc_def genesis_pc_def)
  then have kept: "tree_kept P ?s s" using update_tree_kept [OF u] inv by (simp add: chain_inv_def)
  obtain old where old: "kv_locked_pc P ?s = Inr old" "good_pc P vss (ps_blocks p) old" using inv by (auto simp: chain_inv_def)
  have "\<exists>l. kv_locked_pc P s = Inr l \<and> good_pc P vss (ps_blocks p) l"
    using u
  proof (rule bt_update_pcs)
    fix to_lock
    assume L: "pc_to_lock P ?s pc = Inr to_lock" "kv_locked_pc P s = (case to_lock of None \<Rightarrow> kv_locked_pc P ?s | Some pc \<Rightarrow> Inr pc)"
    show ?thesis
    proof (cases to_lock)
      case (Some l)
      with L(1) ph have "kv_block_justify P ?s (pc_block pc) = Inr l"
        by (auto simp: pc_to_lock_def rbind_eq_Inr_iff split: if_splits)
      with inv have "good_pc P vss (ps_blocks p) l" unfolding chain_inv_def by metis
      with L(2) Some show ?thesis by simp
    qed (use L(2) old in simp)
  qed
  moreover have "\<exists>pc. commit_cert P vss just pc b" if hc: "kv_highest_committed_block P s = Inr (Some b)" for b
  proof -
    consider "kv_highest_committed_block P ?s = Inr (Some b)" | "block_to_commit P ?s pc = Inr (Some b)"
      using update_highest_committed [OF u hc] by blast
    then show ?thesis
    proof cases
      case 1
      with inv show ?thesis by (simp add: chain_inv_def)
    next
      case 2
      then have "\<not> is_genesis_pc pc" by (auto simp: block_to_commit_def)
      with sg commit_rule_cert [OF inv link _ 2] show ?thesis by blast
    qed
  qed
  moreover have "no_status P s" using kept inv by (simp add: tree_kept_def chain_inv_def)
  ultimately show ?thesis
    using inv tree_kept_vss [OF kept] tree_kept_justify [OF kept] unfolding chain_inv_def by simp
qed

text \<open>What a step that votes has checked, and what it leaves locked.\<close>

definition cast :: "prims \<Rightarrow> validator_set_state \<Rightarrow> protocol_state \<Rightarrow> protocol_state \<Rightarrow> phase_vote \<Rightarrow> bool" where
  "cast P vss p p' v \<longleftrightarrow> (\<exists>b \<in> set (ps_blocks p'). b_hash b = pv_block v \<and> pv_phase v = Generic \<and>
     (\<exists>c. safe_pc P (ps_store p) c (b_justify b) = Inr True) \<and> good_pc P vss (ps_blocks p) (b_justify b) \<and>
     (\<not> is_genesis_pc (b_justify b) \<longrightarrow>
       (\<exists>l. kv_locked_pc P (ps_store p') = Inr l \<and>
          (\<exists>b' \<in> set (ps_blocks p'). b_hash b' = pc_block (b_justify b) \<and> b_justify b' = l))))"

lemma acceptable_static: "static_app app \<Longrightarrow> acceptable P app s b au vu \<Longrightarrow> vu = None"
  unfolding acceptable_def validated_def static_app_def by blast

lemma processable_signed:
  assumes "chain_inv P vss just p" and "vss_update_height vss = None" and "processable P (ps_store p) pc"
  shows "is_genesis_pc pc \<or> signed P vss pc"
  using assms checked_signed [of P "ps_store p" vss pc] by (auto simp: chain_inv_def processable_def)

lemma chain_inv_other:
  assumes "chain_inv P vss just p"
  shows "chain_inv P vss just (p\<lparr>ps_store := bt_set_highest_view_entered P view (ps_store p)\<rparr>)"
    "chain_inv P vss just (p\<lparr>ps_store := bt_set_highest_tc P tc (ps_store p)\<rparr>)"
    "chain_inv P vss just (p\<lparr>ps_store := bt_set_highest_view_phase_voted P view (ps_store p), ps_votes := vs\<rparr>)"
  using assms
  by (simp_all add: chain_inv_def no_status_def bt_setter_defs kv_validator_set_state_def kv_getter_defs kv_get_req_def kv_get_opt_def
      wb_setter_defs store_simps)

lemma accept_inv:
  assumes inv: "chain_inv P vss just p" and h: "vss_update_height vss = None" and ok: "acceptable P app (ps_store p) b au None"
    and link: "linked just (ps_blocks p @ [b])"
    and u: "bt_update P pub (b_justify b) (bt_insert P b au None (ps_store p)) = Inr (r, evs, s)"
  shows "chain_inv P vss just (p\<lparr>ps_store := s, ps_blocks := ps_blocks p @ [b]\<rparr>)"
proof -
  let ?p = "p\<lparr>ps_store := bt_insert P b au None (ps_store p), ps_blocks := ps_blocks p @ [b]\<rparr>"
  note ins = insert_inv [OF inv ok h link]
  then have "is_genesis_pc (b_justify b) \<or> signed P vss (b_justify b)" by (auto simp: good_pc_def)
  with update_inv [of P vss just ?p "b_justify b" pub r evs s] ins link u have "chain_inv P vss just (?p\<lparr>ps_store := s\<rparr>)" by simp
  moreover have "?p\<lparr>ps_store := s\<rparr> = p\<lparr>ps_store := s, ps_blocks := ps_blocks p @ [b]\<rparr>" by simp
  ultimately show ?thesis by (simp only:)
qed

lemma step_inv:
  assumes "protocol_step P app p p'" and "chain_inv P vss just p" and "static_app app" and "vss_update_height vss = None"
    and "linked just (ps_blocks p')"
  shows "chain_inv P vss just p'"
  using assms(1)
proof (cases rule: protocol_step_cases)
  case (insert b au vu)
  with acceptable_static [OF assms(3)] have "vu = None" by blast
  with insert insert_inv [OF assms(2) _ assms(4)] assms(5) show ?thesis by auto
next
  case (accept b au vu pub r evs s)
  with acceptable_static [OF assms(3)] have "vu = None" by blast
  with accept accept_inv [OF assms(2,4)] assms(5) show ?thesis by auto
next
  case (accept_vote b au vu pub r evs s v)
  with acceptable_static [OF assms(3)] have "vu = None" by blast
  let ?q = "p\<lparr>ps_store := s, ps_blocks := ps_blocks p @ [b]\<rparr>"
  have "chain_inv P vss just ?q" using accept_vote assms(5) \<open>vu = None\<close> by (intro accept_inv [OF assms(2,4)]) auto
  then have "chain_inv P vss just (?q\<lparr>ps_store := bt_set_highest_view_phase_voted P (pv_view v) (ps_store ?q), ps_votes := ps_votes p @ [v]\<rparr>)"
    by (rule chain_inv_other(3))
  moreover have "p' = ?q\<lparr>ps_store := bt_set_highest_view_phase_voted P (pv_view v) (ps_store ?q), ps_votes := ps_votes p @ [v]\<rparr>"
    by (simp add: accept_vote(1))
  ultimately show ?thesis by (simp only:)
next
  case (process pc pub r evs s)
  with update_inv [OF assms(2) _ processable_signed [OF assms(2,4)]] assms(5) show ?thesis by simp
next
  case (nudge_vote pc pub r evs s v)
  with update_inv [OF assms(2) _ processable_signed [OF assms(2,4)]] assms(5)
  have "chain_inv P vss just (p\<lparr>ps_store := s\<rparr>)" by simp
  from chain_inv_other(3) [OF this] nudge_vote(1) show ?thesis by simp
qed (use chain_inv_other assms(2) in auto)

lemma accept_lock:
  assumes inv: "chain_inv P vss just p" and h: "vss_update_height vss = None" and ok: "acceptable P app (ps_store p) b au None"
    and link: "linked just (ps_blocks p @ [b])"
    and u: "bt_update P pub (b_justify b) (bt_insert P b au None (ps_store p)) = Inr (r, evs, s)"
    and ng: "\<not> is_genesis_pc (b_justify b)"
  shows "\<exists>l. kv_locked_pc P s = Inr l \<and> (\<exists>b' \<in> set (ps_blocks p @ [b]). b_hash b' = pc_block (b_justify b) \<and> b_justify b' = l)"
proof -
  let ?s = "bt_insert P b au None (ps_store p)"
  note ins = insert_inv [OF inv ok h link]
  then obtain old where old: "kv_locked_pc P ?s = Inr old" by (auto simp: chain_inv_def)
  from ins ng have "signed P vss (b_justify b)" by (simp add: good_pc_def)
  then have "pc_phase (b_justify b) = Generic" by (simp add: signed_def)
  with bt_update_lock_table [OF u ng old] have L: "kv_locked_pc P s = kv_block_justify P ?s (pc_block (b_justify b))" by simp
  from accept_inv [OF inv h ok link u] obtain l where l: "kv_locked_pc P s = Inr l" by (auto simp: chain_inv_def)
  with L have "kv_block_justify P ?s (pc_block (b_justify b)) = Inr l" by simp
  with ins have "\<exists>b' \<in> set (ps_blocks p @ [b]). b_hash b' = pc_block (b_justify b) \<and> b_justify b' = l"
    unfolding chain_inv_def by simp
  with l show ?thesis by blast
qed

lemma step_votes:
  assumes "protocol_step P app p p'" and "chain_inv P vss just p" and "static_app app" and "vss_update_height vss = None"
    and "linked just (ps_blocks p')"
  obtains "ps_votes p' = ps_votes p" | v where "ps_votes p' = ps_votes p @ [v]" "cast P vss p p' v"
  using assms(1)
proof (cases rule: protocol_step_cases)
  case (accept_vote b au vu pub r evs s v)
  with acceptable_static [OF assms(3)] have [simp]: "vu = None" by blast
  have ok: "acceptable P app (ps_store p) b au None" and u: "bt_update P pub (b_justify b) (bt_insert P b au None (ps_store p)) = Inr (r, evs, s)"
    and link: "linked just (ps_blocks p @ [b])" using accept_vote assms(5) by simp_all
  have voted: "kv_locked_pc P (ps_store p') = kv_locked_pc P s"
    by (simp add: accept_vote(1) bt_setter_defs wb_setter_defs kv_locked_pc_def kv_get_req_def store_simps)
  have "cast P vss p p' v"
    unfolding cast_def
  proof (intro bexI [of _ b] conjI)
    show "\<exists>c. safe_pc P (ps_store p) c (b_justify b) = Inr True"
      using ok by (auto simp: acceptable_def safe_block_def rand_eq_True)
    show "good_pc P vss (ps_blocks p) (b_justify b)" using insert_inv [OF assms(2) ok assms(4) link] by simp
    show "\<not> is_genesis_pc (b_justify b) \<longrightarrow> (\<exists>l. kv_locked_pc P (ps_store p') = Inr l \<and>
        (\<exists>b' \<in> set (ps_blocks p'). b_hash b' = pc_block (b_justify b) \<and> b_justify b' = l))"
      using accept_lock [OF assms(2,4) ok link u] accept_vote(1) voted by auto
  qed (use accept_vote in auto)
  with accept_vote that(2) show thesis by simp
next
  case (nudge_vote pc pub r evs s v)
  have "pc_phase pc = Generic"
    using processable_signed [OF assms(2,4) nudge_vote(2)] by (auto simp: signed_def is_genesis_pc_def genesis_pc_def)
  with nudge_vote(6) show thesis by (simp add: nudge_vote_phase_def)
qed (use that(1) in auto)

text \<open>Votes are cast in increasing views.\<close>

definition votes_sorted :: "prims \<Rightarrow> protocol_state \<Rightarrow> bool" where
  "votes_sorted P p \<longleftrightarrow> sorted_wrt (<) (map pv_view (ps_votes p)) \<and>
     (\<forall>v \<in> set (ps_votes p). \<exists>w. kv_highest_view_phase_voted P (ps_store p) = Inr (Some w) \<and> pv_view v \<le> w)"

lemma votes_sorted_snoc:
  assumes "votes_sorted P p" and "kv_highest_view_phase_voted P s = kv_highest_view_phase_voted P (ps_store p)" and "new_vote P s v"
  shows "sorted_wrt (<) (map pv_view (ps_votes p @ [v])) \<and> (\<forall>u \<in> set (ps_votes p). pv_view u < pv_view v)"
proof -
  have "pv_view u < pv_view v" if "u \<in> set (ps_votes p)" for u
    using that assms unfolding votes_sorted_def new_vote_def by (metis Inr_inject le_less_trans)
  with assms(1) show ?thesis by (auto simp: votes_sorted_def sorted_wrt_append)
qed

lemma step_votes_sorted:
  assumes "protocol_step P app p p'" and I: "votes_sorted P p"
  shows "votes_sorted P p'"
  using assms(1)
proof (cases rule: protocol_step_cases)
  case (accept_vote b au vu pub r evs s v)
  from votes_sorted_snoc [OF I _ accept_vote(4)] voted_frame(2) [OF accept_vote(3)] show ?thesis
    by (auto simp: accept_vote(1) votes_sorted_def voted_frame less_imp_le)
next
  case (nudge_vote pc pub r evs s v)
  from votes_sorted_snoc [OF I voted_frame(2) [OF nudge_vote(3)] nudge_vote(4)] show ?thesis
    by (auto simp: nudge_vote(1) votes_sorted_def voted_frame less_imp_le)
qed (use I in \<open>auto simp: votes_sorted_def voted_frame dest!: voted_frame(2)\<close>)

section \<open>Along a run\<close>

lemma run_linked:
  assumes "protocol_run P app u vss tr" and "linked just (ps_blocks (last tr))" and "i < length tr"
  shows "linked just (ps_blocks (tr ! i))"
proof -
  have "set (ps_blocks (tr ! i)) \<subseteq> set (ps_blocks (last tr))"
    using run_grows [OF assms(1), of i "length tr - 1"] run_last [OF assms(1)] assms(3) by simp
  with assms(2) show ?thesis unfolding linked_def by blast
qed

lemma run_inv:
  assumes "protocol_run P app u vss tr" and "vss_ok P vss" and "us_ok u" and "static_app app" and "vss_update_height vss = None"
    and "linked just (ps_blocks (last tr))" and "i < length tr"
  shows "chain_inv P vss just (tr ! i) \<and> votes_sorted P (tr ! i)"
  using assms(1,7)
proof (induction rule: protocol_run_induct)
  case start
  show ?case using chain_inv_start [OF assms(2,3)] by (simp add: votes_sorted_def protocol_start_def)
next
  case (step j)
  from step_inv [OF step(3) _ assms(4,5) run_linked [OF assms(1,6) step(1)]] step_votes_sorted [OF step(3)] step(4) show ?case by blast
qed

text \<open>When a vote was cast.\<close>

lemma run_voted:
  assumes "protocol_run P app u vss tr" and "i < length tr" and "v \<in> set (ps_votes (tr ! i))"
  shows "\<exists>j < i. ps_votes (tr ! Suc j) = ps_votes (tr ! j) @ [v]"
  using assms(2,3)
proof (induction i)
  case 0
  then have "tr ! 0 = protocol_start P u vss" using assms(1) by (metis protocol_run_def hd_conv_nth)
  with 0 show ?case by (simp add: protocol_start_def)
next
  case (Suc i)
  from run_step [OF assms(1) Suc.prems(1)]
  have "ps_votes (tr ! Suc i) = ps_votes (tr ! i) \<or> (\<exists>w. ps_votes (tr ! Suc i) = ps_votes (tr ! i) @ [w])"
    by (cases rule: protocol_step_cases) auto
  then consider "v \<in> set (ps_votes (tr ! i))" | "ps_votes (tr ! Suc i) = ps_votes (tr ! i) @ [v]" using Suc.prems(2) by fastforce
  then show ?case
  proof cases
    case 1
    with Suc show ?thesis using less_SucI by (metis Suc_lessD)
  qed blast
qed

lemma votes_in_order:
  assumes "protocol_run P app u vss tr" and "Suc i < length tr" and "Suc j < length tr"
    and "ps_votes (tr ! Suc i) = ps_votes (tr ! i) @ [v]" and "ps_votes (tr ! Suc j) = ps_votes (tr ! j) @ [w]"
    and "votes_sorted P (tr ! Suc i)" and "pv_view v < pv_view w"
  shows "i < j"
proof (rule ccontr)
  assume "\<not> i < j"
  then consider "i = j" | "j < i" by linarith
  then show False
  proof cases
    case 1
    with assms(4,5,7) show False by simp
  next
    case 2
    then have "w \<in> set (ps_votes (tr ! i))" using run_grows [OF assms(1), of "Suc j" i] assms(2,5) by auto
    with assms(4,6) have "pv_view w < pv_view v" by (auto simp: votes_sorted_def sorted_wrt_append)
    with assms(7) show False by simp
  qed
qed

lemma run_votes_distinct:
  "votes_sorted P p \<Longrightarrow> v \<in> set (ps_votes p) \<Longrightarrow> w \<in> set (ps_votes p) \<Longrightarrow> pv_view v = pv_view w \<Longrightarrow> v = w"
  unfolding votes_sorted_def by (metis strict_sorted_iff distinct_map inj_onD)

text \<open>A lock that is never given up.\<close>

lemma lock_rises:
  assumes "never_unlocks P tr" and "i \<le> j" and "j < length tr" and "kv_locked_pc P (ps_store (tr ! i)) = Inr l"
    and "\<And>m. m < length tr \<Longrightarrow> \<exists>l. kv_locked_pc P (ps_store (tr ! m)) = Inr l"
  shows "\<exists>l'. kv_locked_pc P (ps_store (tr ! j)) = Inr l' \<and> (l' = l \<or> pc_view l < pc_view l')"
  using assms(2,3)
proof (induction rule: dec_induct)
  case base
  with assms(4) show ?case by simp
next
  case (step j)
  then obtain l1 where l1: "kv_locked_pc P (ps_store (tr ! j)) = Inr l1" "l1 = l \<or> pc_view l < pc_view l1" by auto
  obtain l2 where l2: "kv_locked_pc P (ps_store (tr ! Suc j)) = Inr l2" using assms(5) step.prems by blast
  have "l2 = l1 \<or> pc_view l1 < pc_view l2"
    using assms(1) step.prems l1(1) l2 by (simp add: never_unlocks_def successively_conv_nth)
  with l1(2) l2 show ?case by auto
qed

section \<open>Agreement\<close>

text \<open>
  A system of honest replicas \<open>H\<close>, which include all validators outside a set \<open>F\<close> of at most a third of the
  power. View numbers stay below the largest one, so that adding one to a view does not wrap around.
\<close>

definition honest_system ::
  "prims \<Rightarrow> 'a app_ops \<Rightarrow> validator_set_state \<Rightarrow> verifying_key set \<Rightarrow> verifying_key set \<Rightarrow> (verifying_key \<Rightarrow> app_state_updates)
     \<Rightarrow> (verifying_key \<Rightarrow> protocol_state list) \<Rightarrow> (crypto_hash \<Rightarrow> phase_certificate) \<Rightarrow> bool" where
  "honest_system P app vss F H u tr just \<longleftrightarrow> static_app app \<and> vss_ok P vss \<and> vs_good (committed_vs vss) \<and>
     vss_update_height vss = None \<and> vs_tolerates (committed_vs vss) F \<and> set (vs_validators (committed_vs vss)) - F \<subseteq> H \<and>
     (\<forall>k \<in> H. us_ok (u k) \<and> protocol_run P app (u k) vss (tr k) \<and>
        (\<forall>v \<in> set (ps_votes (last (tr k))). pv_view v < - 1)) \<and>
     unforgeable P H tr \<and> collision_free just H tr"

definition certified :: "prims \<Rightarrow> validator_set_state \<Rightarrow> crypto_hash \<Rightarrow> view_number \<Rightarrow> bool" where
  "certified P vss x w \<longleftrightarrow> (\<exists>pc. signed P vss pc \<and> pc_block pc = x \<and> pc_view pc = w)"

lemma system_run:
  assumes "honest_system P app vss F H u tr just" and "k \<in> H"
  shows "protocol_run P app (u k) vss (tr k)" "linked just (ps_blocks (last (tr k)))" "i < length (tr k) \<Longrightarrow> chain_inv P vss just (tr k ! i)"
    "i < length (tr k) \<Longrightarrow> votes_sorted P (tr k ! i)"
proof -
  show run: "protocol_run P app (u k) vss (tr k)" and link: "linked just (ps_blocks (last (tr k)))"
    using assms by (simp_all add: honest_system_def collision_free_def linked_def)
  show "chain_inv P vss just (tr k ! i)" "votes_sorted P (tr k ! i)" if "i < length (tr k)"
    using assms run_inv [OF run _ _ _ _ link that] by (simp_all add: honest_system_def)
qed

text \<open>Two certificates share an honest replica that has voted for both.\<close>

lemma common_voter:
  assumes sys: "honest_system P app vss F H u tr just" and "certified P vss x w" and "certified P vss y z"
  obtains k v v' where "k \<in> H" "v \<in> set (ps_votes (last (tr k)))" "v' \<in> set (ps_votes (last (tr k)))"
    "pv_view v = w" "pv_block v = x" "pv_view v' = z" "pv_block v' = y"
proof -
  from assms(2,3) obtain pc pc' where pc: "signed P vss pc" "pc_block pc = x" "pc_view pc = w"
    and pc': "signed P vss pc'" "pc_block pc' = y" "pc_view pc' = z" by (auto simp: certified_def)
  let ?vs = "committed_vs vss"
  have good: "vs_good ?vs" and F: "vs_tolerates ?vs F" using sys by (simp_all add: honest_system_def)
  note q = signer_certifies [OF good, of P pc] and q' = signer_certifies [OF good, of P pc']
  from vsq.honest_intersection [of ?vs "signers ?vs (pc_signatures pc)" "signers ?vs (pc_signatures pc')" F] q q' pc(1) pc'(1) F
  obtain k where k: "k \<in> signers ?vs (pc_signatures pc)" "k \<in> signers ?vs (pc_signatures pc')" "k \<notin> F" by (auto simp: signed_def)
  then have "k \<in> set (vs_validators ?vs)" by (auto simp: signers_def vs_len_def)
  with k(3) sys have H: "k \<in> H" by (auto simp: honest_system_def)
  have vote: "\<exists>v \<in> set (ps_votes (last (tr k))). pv_view v = pc_view a \<and> pv_block v = pc_block a" if "certifies P a k" for a
    using that sys H unfolding certifies_def honest_system_def unforgeable_def by blast
  have "certifies P pc k" "certifies P pc' k" using q q' k pc(1) pc'(1) by (simp_all add: signed_def)
  with vote [of pc] vote [of pc'] H pc pc' that show thesis by blast
qed

lemma certified_same_view:
  assumes sys: "honest_system P app vss F H u tr just" and "certified P vss x w" and "certified P vss y w"
  shows "x = y \<and> w < - 1"
proof -
  obtain k v v' where k: "k \<in> H" "v \<in> set (ps_votes (last (tr k)))" "v' \<in> set (ps_votes (last (tr k)))"
    "pv_view v = w" "pv_block v = x" "pv_view v' = w" "pv_block v' = y" by (rule common_voter [OF assms])
  have "votes_sorted P (last (tr k))"
    using system_run(4) [OF sys k(1)] run_last [OF system_run(1) [OF sys k(1)]] by simp
  with k have "v = v'" by (metis run_votes_distinct)
  with k sys show ?thesis by (auto simp: honest_system_def)
qed

text \<open>A vote, when it was cast, with what was checked.\<close>

lemma voted_when:
  assumes sys: "honest_system P app vss F H u tr just" and "k \<in> H" and "v \<in> set (ps_votes (last (tr k)))"
  obtains i where "Suc i < length (tr k)" "ps_votes (tr k ! Suc i) = ps_votes (tr k ! i) @ [v]" "cast P vss (tr k ! i) (tr k ! Suc i) v"
proof -
  note run = system_run(1) [OF sys assms(2)]
  from run_last [OF run] assms(3) have "v \<in> set (ps_votes (tr k ! (length (tr k) - 1)))" by simp
  from run_voted [OF run _ this] run_last [OF run] obtain i where
    i: "Suc i < length (tr k)" "ps_votes (tr k ! Suc i) = ps_votes (tr k ! i) @ [v]" by (metis Suc_pred' less_trans_Suc length_greater_0_conv protocol_run_def run)
  have "cast P vss (tr k ! i) (tr k ! Suc i) v"
  proof (rule step_votes [OF run_step [OF run i(1)] system_run(3) [OF sys assms(2)]])
    show "i < length (tr k)" "linked just (ps_blocks (tr k ! Suc i))" using i(1) run_linked [OF run system_run(2) [OF sys assms(2)] i(1)] by simp_all
    show "static_app app" "vss_update_height vss = None" using sys by (simp_all add: honest_system_def)
  qed (use i(2) in auto)
  with i that show thesis by blast
qed

text \<open>The lock that the votes for the third certificate leave decides what can be voted for later.\<close>

lemma safe_extends_lock:
  assumes inv: "chain_inv P vss just p" and link: "linked just (ps_blocks p)" and safe: "safe_pc P (ps_store p) c pc = Inr True"
    and good: "good_pc P vss (ps_blocks p) pc" and lock: "kv_locked_pc P (ps_store p) = Inr l" and ng: "\<not> is_genesis_pc l"
  shows "\<not> is_genesis_pc pc \<and> (\<exists>y w. extends just (pc_block pc) y \<and> certified P vss y w \<and> pc_view l \<le> w)"
proof -
  have l: "certified P vss (pc_block l) (pc_view l)" "pc_block l \<noteq> pc_block genesis_pc"
    using inv lock ng link by (auto simp: chain_inv_def good_pc_def certified_def linked_def)
  have stored: "j = just x \<and> x \<noteq> pc_block genesis_pc" if "kv_block_justify P (ps_store p) x = Inr j" for x j
    using that inv link unfolding chain_inv_def linked_def by metis
  from safe lock consider "pc_view pc > pc_view l" | "pc_block pc = pc_block l"
    | j where "kv_block_justify P (ps_store p) (pc_block pc) = Inr j" "pc_block j = pc_block l"
    | j j' where "kv_block_justify P (ps_store p) (pc_block pc) = Inr j" "kv_block_justify P (ps_store p) (pc_block j) = Inr j'"
        "pc_block j' = pc_block l"
    by (auto simp: safe_pc_def rand_eq_True extends_locked_pc_block_def Let_def res_ok_def bind_eq_Some_conv
        split: if_splits sum.splits)
  then show ?thesis
  proof cases
    case 1
    then have "\<not> is_genesis_pc pc" by (auto simp: is_genesis_pc_def genesis_pc_def view_init_def)
    with good 1 show ?thesis by (auto simp: good_pc_def certified_def intro!: exI extends.here)
  next
    case 2
    with l show ?thesis by (auto simp: is_genesis_pc_def intro: extends.here)
  next
    case (3 j)
    with stored [OF 3(1)] l have "\<not> is_genesis_pc pc" "extends just (pc_block pc) (pc_block l)"
      by (auto simp: is_genesis_pc_def intro!: extends.link [of just "pc_block pc"] extends.here)
    with l show ?thesis by blast
  next
    case (4 j j')
    with stored [OF 4(1)] stored [OF 4(2)] l have "extends just (pc_block j) (pc_block l)"
      by (intro extends.link [of just "pc_block j"]) (auto simp: is_genesis_pc_def intro: extends.here)
    moreover have "\<not> is_genesis_pc pc" "\<not> is_genesis_pc j" using stored [OF 4(1)] stored [OF 4(2)] by (auto simp: is_genesis_pc_def)
    ultimately have "extends just (pc_block pc) (pc_block l)" using stored [OF 4(1)] by (auto intro: extends.link)
    with l \<open>\<not> is_genesis_pc pc\<close> show ?thesis by blast
  qed
qed

lemma later_vote:
  assumes sys: "honest_system P app vss F H u tr just" and mono: "\<And>k. k \<in> H \<Longrightarrow> never_unlocks P (tr k)"
    and cert: "commit_cert P vss just pc b" and x: "certified P vss x w" and w: "pc_view pc < w"
  shows "\<not> is_genesis_pc (just x) \<and>
    (\<exists>y w'. extends just (pc_block (just x)) y \<and> certified P vss y w' \<and> pc_view (just (pc_block (just (pc_block pc)))) \<le> w')"
proof -
  define pc2 pc1 where "pc2 = just (pc_block pc)" and "pc1 = just (pc_block pc2)"
  have c: "signed P vss pc" "\<not> is_genesis_pc pc2" "\<not> is_genesis_pc pc1"
    using cert by (simp_all add: commit_cert_def Let_def pc2_def pc1_def)
  then have "certified P vss (pc_block pc) (pc_view pc)" by (auto simp: certified_def)
  from common_voter [OF sys this x] obtain k v v' where k: "k \<in> H" "v \<in> set (ps_votes (last (tr k)))" "v' \<in> set (ps_votes (last (tr k)))"
    "pv_view v = pc_view pc" "pv_block v = pc_block pc" "pv_view v' = w" "pv_block v' = x" .
  note run = system_run(1) [OF sys k(1)] and inv = system_run(3) [OF sys k(1)] and link = run_linked [OF system_run(1,2) [OF sys k(1)]]
  obtain i where i: "Suc i < length (tr k)" "ps_votes (tr k ! Suc i) = ps_votes (tr k ! i) @ [v]" "cast P vss (tr k ! i) (tr k ! Suc i) v"
    by (rule voted_when [OF sys k(1,2)])
  obtain j where j: "Suc j < length (tr k)" "ps_votes (tr k ! Suc j) = ps_votes (tr k ! j) @ [v']" "cast P vss (tr k ! j) (tr k ! Suc j) v'"
    by (rule voted_when [OF sys k(1,3)])
  have "i < j" using votes_in_order [OF run i(1) j(1) i(2) j(2) system_run(4) [OF sys k(1) i(1)]] w k by simp
  have "kv_locked_pc P (ps_store (tr k ! Suc i)) = Inr pc1"
    using i(3) c link [OF i(1)] k(5) unfolding cast_def linked_def pc1_def pc2_def by metis
  then obtain l where l: "kv_locked_pc P (ps_store (tr k ! j)) = Inr l" "l = pc1 \<or> pc_view pc1 < pc_view l"
    using lock_rises [OF mono [OF k(1)], of "Suc i" j] \<open>i < j\<close> j(1) inv unfolding chain_inv_def by (metis Suc_leI Suc_lessD)
  have ng: "\<not> is_genesis_pc l" using l(2) c(3) by (auto simp: is_genesis_pc_def genesis_pc_def view_init_def)
  have le: "pc_view pc1 \<le> pc_view l" using l(2) by auto
  from j(3) obtain bx where bx: "bx \<in> set (ps_blocks (tr k ! Suc j))" "b_hash bx = pv_block v'" "good_pc P vss (ps_blocks (tr k ! j)) (b_justify bx)"
    and "\<exists>c. safe_pc P (ps_store (tr k ! j)) c (b_justify bx) = Inr True" unfolding cast_def by blast
  then obtain ch where safe: "safe_pc P (ps_store (tr k ! j)) ch (b_justify bx) = Inr True" by blast
  have "b_justify bx = just x" using bx(1,2) link [OF j(1)] k(7) by (simp add: linked_def)
  with safe_extends_lock [OF inv link safe bx(3) l(1) ng] j(1) le show ?thesis
    unfolding pc1_def pc2_def by (metis Suc_lessD order_trans)
qed

lemma word_between:
  fixes v w :: "'n::len word"
  assumes "v \<le> w" and "w \<le> v + 1 + 1" and "v < - 1" and "v + 1 < - 1"
  shows "w = v \<or> w = v + 1 \<or> w = v + 1 + 1"
proof -
  have s: "unat (a + 1) = unat a + 1" if "a < - 1" for a :: "'n word"
  proof -
    have "1 + a \<noteq> 0" using that by (metis add_eq_0_iff less_irrefl)
    then show ?thesis by (simp add: unatSuc add.commute)
  qed
  have "unat v \<le> unat w" "unat w \<le> unat v + 1 + 1"
    using assms(1,2) s [OF assms(4)] s [OF assms(3)] by (simp_all add: word_le_nat_alt)
  then have "unat w = unat v \<or> unat w = unat (v + 1) \<or> unat w = unat (v + 1 + 1)"
    using s [OF assms(4)] s [OF assms(3)] by linarith
  then show ?thesis using unsigned_word_eqI by blast
qed

lemma near_certified:
  assumes sys: "honest_system P app vss F H u tr just" and cert: "commit_cert P vss just pc b"
    and z: "certified P vss z w" "pc_view (just (pc_block (just (pc_block pc)))) \<le> w" "w \<le> pc_view pc"
  shows "extends just z b"
proof -
  define pc2 pc1 where "pc2 = just (pc_block pc)" and "pc1 = just (pc_block pc2)"
  have c: "\<not> is_genesis_pc pc2" "\<not> is_genesis_pc pc1" "pc_view pc = pc_view pc2 + 1" "pc_view pc2 = pc_view pc1 + 1" "pc_block pc1 = b"
    and s: "signed P vss pc" "signed P vss pc2" "signed P vss pc1"
    using cert by (simp_all add: commit_cert_def Let_def pc2_def pc1_def)
  have cs: "certified P vss (pc_block q) (pc_view q)" if "signed P vss q" for q using that by (auto simp: certified_def)
  have "pc_view pc1 < - 1" "pc_view pc2 < - 1" using certified_same_view [OF sys cs cs] s(2,3) by blast+
  with word_between [of "pc_view pc1" w] z(2,3) c(3,4) have "w = pc_view pc1 \<or> w = pc_view pc2 \<or> w = pc_view pc"
    by (simp add: pc1_def pc2_def)
  then have "z = b \<or> z = pc_block pc2 \<or> z = pc_block pc"
    using certified_same_view [OF sys z(1)] cs s c(5) by metis
  moreover have "extends just (pc_block pc2) b" using c(2,5) by (auto simp: pc1_def intro: extends.link extends.here)
  moreover from this have "extends just (pc_block pc) b" using c(1) by (auto simp: pc2_def intro: extends.link)
  ultimately show ?thesis by (auto intro: extends.here)
qed

lemma committed_branch:
  assumes sys: "honest_system P app vss F H u tr just" and mono: "\<And>k. k \<in> H \<Longrightarrow> never_unlocks P (tr k)"
    and cert: "commit_cert P vss just pc b"
  shows "rooted just x \<Longrightarrow> extends just x z \<Longrightarrow> certified P vss z w \<Longrightarrow>
    pc_view (just (pc_block (just (pc_block pc)))) \<le> w \<Longrightarrow> extends just z b"
proof (induction x arbitrary: z w rule: rooted.induct)
  case (genesis x)
  then have "z = x" by (auto simp: extends_iff [of just x])
  with genesis later_vote [OF sys mono cert, of x w] near_certified [OF sys cert, of z w] show ?case
    by (cases "w \<le> pc_view pc") (auto simp: not_le)
next
  case (child x)
  show ?case
  proof (cases "z = x \<and> pc_view pc < w")
    case True
    with later_vote [OF sys mono cert, of x w] child.prems(2) obtain y w' where ng: "\<not> is_genesis_pc (just x)"
      and y: "extends just (pc_block (just x)) y" "certified P vss y w'" "pc_view (just (pc_block (just (pc_block pc)))) \<le> w'" by blast
    from child.IH [OF y] y(1) have "extends just (pc_block (just x)) b" by (blast intro: extends_trans)
    with ng True show ?thesis by (simp add: extends.link)
  next
    case False
    then consider "w \<le> pc_view pc" | "z \<noteq> x" by fastforce
    then show ?thesis
    proof cases
      case 1
      with near_certified [OF sys cert child.prems(2,3)] show ?thesis .
    next
      case 2
      with child.prems(1) have "extends just (pc_block (just x)) z" by (auto simp: extends_iff [of just x])
      with child.IH child.prems(2,3) show ?thesis by blast
    qed
  qed
qed

lemma certified_rooted:
  assumes sys: "honest_system P app vss F H u tr just" and "certified P vss x w"
  shows "rooted just x"
proof -
  obtain k v where k: "k \<in> H" "v \<in> set (ps_votes (last (tr k)))" "pv_block v = x" by (rule common_voter [OF sys assms(2,2)])
  obtain i where i: "Suc i < length (tr k)" "cast P vss (tr k ! i) (tr k ! Suc i) v" by (rule voted_when [OF sys k(1,2)])
  from i(2) k(3) obtain b where "b \<in> set (ps_blocks (tr k ! Suc i))" "b_hash b = x" by (auto simp: cast_def)
  with system_run(3) [OF sys k(1) i(1)] show ?thesis by (auto simp: chain_inv_def)
qed

text \<open>
  C1. Agreement. Take any number of honest replicas that run this code, among them all validators outside a set with at most
  a third of the power, while everyone else behaves arbitrarily and the network loses, delays and reorders messages. Assume
  signatures cannot be forged, no two inserted blocks collide on their hash, the application does not change the
  validator set, and no honest replica ever replaces its locked PC by one of a view that is not higher. Then whatever
  block is the highest committed block of one honest replica at some time, and of the same or another honest replica at
  some other time, one of the two extends the other: committed branches never fork.
\<close>

lemma agreement:
  assumes "honest_system P app vss F H u tr just" and "\<And>k. k \<in> H \<Longrightarrow> never_unlocks P (tr k)"
    and "k \<in> H" and "p \<in> set (tr k)" and "kv_highest_committed_block P (ps_store p) = Inr (Some b)"
    and "k' \<in> H" and "p' \<in> set (tr k')" and "kv_highest_committed_block P (ps_store p') = Inr (Some b')"
  shows "extends just b b' \<or> extends just b' b"
proof -
  have cert: "\<exists>pc. commit_cert P vss just pc c" if "q \<in> H" "s \<in> set (tr q)" "kv_highest_committed_block P (ps_store s) = Inr (Some c)" for q s c
  proof -
    from that(2) obtain i where "i < length (tr q)" "s = tr q ! i" by (auto simp: in_set_conv_nth)
    with system_run(3) [OF assms(1) that(1)] have "chain_inv P vss just s" by simp
    with that(3) show ?thesis by (simp add: chain_inv_def)
  qed
  have ext: "extends just c' c" if "commit_cert P vss just pc c" "commit_cert P vss just pc' c'"
    "pc_view (just (pc_block (just (pc_block pc)))) \<le> pc_view (just (pc_block (just (pc_block pc'))))" for pc pc' c c'
  proof -
    have c': "certified P vss c' (pc_view (just (pc_block (just (pc_block pc')))))"
      using that(2) by (auto simp: commit_cert_def Let_def certified_def)
    show ?thesis by (rule committed_branch [OF assms(1,2) that(1) certified_rooted [OF assms(1) c'] extends.here c' that(3)])
  qed
  obtain pc where pc: "commit_cert P vss just pc b" using cert [OF assms(3-5)] by blast
  obtain pc' where pc': "commit_cert P vss just pc' b'" using cert [OF assms(6-8)] by blast
  consider "pc_view (just (pc_block (just (pc_block pc)))) \<le> pc_view (just (pc_block (just (pc_block pc'))))"
    | "pc_view (just (pc_block (just (pc_block pc')))) \<le> pc_view (just (pc_block (just (pc_block pc))))" using linear by blast
  then show ?thesis by cases (use ext [OF pc pc'] ext [OF pc' pc] in simp_all)
qed

end
