(* ===== verification/Agreement_Witnesses.thy ===== *)
theory Agreement_Witnesses
  imports Agreement Witnesses
begin

text \<open>
  A concrete system for the agreement property: one honest validator with three quarters of the power, and a run in which it
  accepts a chain of blocks and commits. The same run, continued, shows what happens when a lock is given up: the
  replica commits a block on another branch.
\<close>

section \<open>What the checks see of a tree\<close>

text \<open>
  \<open>tree_shows P vss s J Ch lock hpc cm voted\<close>: the store holds the blocks \<open>J\<close>, with height and justify, none of them with data or
  updates, the children \<open>Ch\<close>, and the given locked PC, highest PC, highest committed block and highest view voted in.
\<close>

definition tree_shows :: "prims \<Rightarrow> validator_set_state \<Rightarrow> kv_store \<Rightarrow> (crypto_hash \<Rightarrow> (block_height \<times> phase_certificate) option)
    \<Rightarrow> (crypto_hash \<Rightarrow> children_list option) \<Rightarrow> phase_certificate \<Rightarrow> phase_certificate \<Rightarrow> crypto_hash option \<Rightarrow> view_number option \<Rightarrow> bool" where
  "tree_shows P vss s J Ch lock hpc cm voted \<longleftrightarrow> no_status P s \<and> kv_validator_set_state P s = Inr vss \<and>
     (\<forall>x. s (path_bytes P (PBlockHeight x)) = map_option (\<lambda>hj. VU64 (fst hj)) (J x)) \<and>
     (\<forall>x. s (path_bytes P (PBlockJustify x)) = map_option (\<lambda>hj. VPc (snd hj)) (J x)) \<and>
     (\<forall>x. s (path_bytes P (PBlockDataHash x)) = map_option (\<lambda>_. VHash x) (J x)) \<and>
     (\<forall>x. s (path_bytes P (PBlockDataLen x)) = map_option (\<lambda>_. VU32 0) (J x)) \<and>
     (\<forall>x. s (path_bytes P (PPendingAppState x)) = None) \<and>
     (\<forall>x. s (path_bytes P (PChildren x)) = map_option VChildren (Ch x)) \<and>
     kv_locked_pc P s = Inr lock \<and> kv_highest_pc P s = Inr hpc \<and> kv_highest_committed_block P s = Inr cm \<and>
     kv_highest_view_phase_voted P s = Inr voted"

definition plain_block :: "block_height \<Rightarrow> crypto_hash \<Rightarrow> phase_certificate \<Rightarrow> block" where
  "plain_block h x j = \<lparr>b_height = h, b_hash = x, b_justify = j, b_data_hash = x, b_data = []\<rparr>"

lemma plain_block_sel [simp]:
  "b_height (plain_block h x j) = h" "b_hash (plain_block h x j) = x" "b_justify (plain_block h x j) = j"
  "b_data_hash (plain_block h x j) = x" "b_data (plain_block h x j) = []"
  by (simp_all add: plain_block_def)

lemma tree_shows_reads:
  assumes "tree_shows P vss s J Ch lock hpc cm voted"
  shows "kv_block_height P s x = Inr (map_option fst (J x))"
    "kv_block_justify P s x = (case J x of None \<Rightarrow> Inl (get_err (ValueExpectedButNotFound (BlockJustifyKey x))) | Some hj \<Rightarrow> Inr (snd hj))"
    "bt_contains P s x = (J x \<noteq> None)" "kv_pending_app_state_updates P s x = Inr None"
    "kv_children P s x = (case Ch x of None \<Rightarrow> Inl (get_err (ValueExpectedButNotFound (BlockChildrenKey x))) | Some cs \<Rightarrow> Inr cs)"
    "kv_validator_set_updates_status P s x = Inr NoUpdates" "kv_validator_set_state P s = Inr vss"
    "kv_locked_pc P s = Inr lock" "kv_highest_pc P s = Inr hpc" "kv_highest_committed_block P s = Inr cm"
    "kv_highest_view_phase_voted P s = Inr voted"
proof -
  show h: "kv_block_height P s x = Inr (map_option fst (J x))"
    using assms by (cases "J x") (simp_all add: tree_shows_def kv_block_height_def kv_get_opt_def)
  show j: "kv_block_justify P s x = (case J x of None \<Rightarrow> Inl (get_err (ValueExpectedButNotFound (BlockJustifyKey x))) | Some hj \<Rightarrow> Inr (snd hj))"
    using assms by (cases "J x") (simp_all add: tree_shows_def kv_block_justify_def kv_get_req_def ok_or_def)
  have l: "kv_block_data P s x = Inr (map_option (\<lambda>_. []) (J x))"
    using assms by (cases "J x") (simp_all add: tree_shows_def kv_block_data_eq kv_block_data_len_def kv_get_opt_def)
  have "kv_block_data_hash P s x = Inr (map_option (\<lambda>_. x) (J x))"
    using assms by (cases "J x") (simp_all add: tree_shows_def kv_block_data_hash_def kv_get_opt_def)
  with h j l show "bt_contains P s x = (J x \<noteq> None)" by (cases "J x") (simp_all add: bt_contains_def kv_block_def ok_or_def)
  show "kv_children P s x = (case Ch x of None \<Rightarrow> Inl (get_err (ValueExpectedButNotFound (BlockChildrenKey x))) | Some cs \<Rightarrow> Inr cs)"
    using assms by (cases "Ch x") (simp_all add: tree_shows_def kv_children_def kv_get_req_def ok_or_def)
qed (use assms in \<open>simp_all add: tree_shows_def kv_pending_app_state_updates_def kv_get_opt_def no_status_read\<close>)

lemma tree_shows_insert:
  assumes "tree_shows P vss s J Ch lock hpc cm voted"
  shows "tree_shows P vss (bt_insert P (plain_block h x j) None None s) (J(x \<mapsto> (h, j)))
    (Ch(pc_block j \<mapsto> (case Ch (pc_block j) of None \<Rightarrow> [] | Some cs \<Rightarrow> cs) @ [x])) lock hpc cm voted"
proof -
  let ?b = "plain_block h x j" and ?s' = "bt_insert P (plain_block h x j) None None s"
  have st: "no_status P s" using assms by (simp add: tree_shows_def)
  have path: "?s' (path_bytes P p) = (if p = PChildren (pc_block j) then Some (VChildren ((case kv_children P s (pc_block j) of Inr cs \<Rightarrow> cs | Inl _ \<Rightarrow> []) @ [x]))
      else if p = PNewestBlock then Some (VHash x) else if p = PBlockHeight x then Some (VU64 h) else if p = PBlockJustify x then Some (VPc j)
      else if p = PBlockDataHash x then Some (VHash x) else if p = PBlockDataLen x then Some (VU32 0) else s (path_bytes P p))"
    if "\<not> is_datum p" for p
    using that by (auto simp: bt_insert_path wb_set_block_def Let_def store_simps data_len_of_def)
  have keep: "kv_highest_pc P ?s' = kv_highest_pc P s" "kv_highest_view_phase_voted P ?s' = kv_highest_view_phase_voted P s"
    by (simp_all add: kv_getter_defs kv_get_req_def kv_get_opt_def path)
  show ?thesis
    using assms insert_tree [OF st, of ?b None] keep tree_shows_reads(5) [OF assms, of "pc_block j"]
    by (auto simp: tree_shows_def path split: option.splits)
qed

text \<open>The locked and the highest PC after an update.\<close>

definition next_lock :: "(crypto_hash \<Rightarrow> (block_height \<times> phase_certificate) option) \<Rightarrow> phase_certificate \<Rightarrow> phase_certificate \<Rightarrow> phase_certificate" where
  "next_lock J lock pc = (if is_genesis_pc pc then lock else snd (the (J (pc_block pc))))"

definition next_highest :: "phase_certificate \<Rightarrow> phase_certificate \<Rightarrow> phase_certificate" where
  "next_highest hpc pc = (if pc_view pc > pc_view hpc then pc else hpc)"

definition update_batch :: "prims \<Rightarrow> phase_certificate \<Rightarrow> phase_certificate \<Rightarrow> phase_certificate \<Rightarrow> phase_certificate \<Rightarrow> write_batch" where
  "update_batch P lock hpc lock' pc = (if lock' = lock then id else wb_set_locked_pc P lock')
     (if pc_view pc > pc_view hpc then wb_set_highest_pc P pc wb_new else wb_new)"

lemma tree_shows_lock:
  assumes "tree_shows P vss s J Ch lock hpc cm voted" and "pc_phase pc = Generic" and "is_genesis_pc pc \<or> J (pc_block pc) \<noteq> None"
  shows "pc_to_lock P s pc = Inr (if next_lock J lock pc = lock then None else Some (next_lock J lock pc))"
  using assms(2,3) tree_shows_reads [OF assms(1)] by (auto simp: pc_to_lock_def next_lock_def)

lemma tree_shows_batch:
  assumes "tree_shows P vss s J Ch lock hpc cm voted"
  shows "tree_shows P vss (kv_write (update_batch P lock hpc lock' pc) s) J Ch lock' (next_highest hpc pc) cm voted"
  using assms
  by (auto simp: tree_shows_def update_batch_def next_highest_def no_status_def kv_validator_set_state_def kv_getter_defs kv_get_req_def
      kv_get_opt_def wb_setter_defs store_simps)

lemma tree_shows_update:
  assumes "tree_shows P vss s J Ch lock hpc cm voted" and "pc_phase pc = Generic" and "is_genesis_pc pc \<or> J (pc_block pc) \<noteq> None"
    and "block_to_commit P s pc = Inr None"
  shows "\<exists>r evs s'. bt_update P pub pc s = Inr (r, evs, s') \<and>
    tree_shows P vss s' J Ch (next_lock J lock pc) (next_highest hpc pc) cm voted"
proof -
  let ?l = "next_lock J lock pc"
  have "\<exists>r evs. bt_update P pub pc s = Inr (r, evs, kv_write (update_batch P lock hpc ?l pc) s)"
    using tree_shows_lock [OF assms(1-3)] assms(2,4) tree_shows_reads(9) [OF assms(1)]
    by (simp add: bt_update_def update_batch_def)
  with tree_shows_batch [OF assms(1)] show ?thesis by blast
qed

text \<open>Committing one block that has no siblings.\<close>

lemma tree_shows_commit:
  assumes t: "tree_shows P vss s J Ch lock hpc cm voted" and "pc_phase pc = Generic" and "is_genesis_pc pc \<or> J (pc_block pc) \<noteq> None"
    and c: "block_to_commit P s pc = Inr (Some c)" and J: "J c = Some (h, j)" and Ch: "Ch (pc_block j) = Some [c]"
    and b: "borsh_ints P" and mh: "bt_highest_committed_block_height P s = Inr mh" and l: "uncommitted_loop P s mh c = Some (Inr [c])"
  shows "\<exists>r evs s'. bt_update P pub pc s = Inr (r, evs, s') \<and>
    tree_shows P vss s' J Ch (next_lock J lock pc) (next_highest hpc pc) (Some c) voted"
proof -
  let ?l = "next_lock J lock pc"
  let ?base = "update_batch P lock hpc ?l pc"
  let ?wb = "wb_set_highest_committed_block P c (wb_set_children P (pc_block j) [c] (wb_set_block_at_height P h c ?base))"
  note reads = tree_shows_reads [OF t]
  have commit: "bt_commit P s c ?base = Inr ([(c, None)], ?wb)"
    by (simp add: bt_commit_def mh l commit_block_def delete_siblings_def reads J Ch ok_or_def)
  have "\<exists>r evs. bt_update P pub pc s = Inr (r, evs, kv_write ?wb s)"
    using tree_shows_lock [OF t assms(2,3)] assms(2) c reads(9) commit
    by (cases "?l = lock"; cases "pc_view hpc < pc_view pc") (simp_all add: bt_update_def update_batch_def)
  moreover have "tree_shows P vss (kv_write ?wb s) J Ch ?l (next_highest hpc pc) (Some c) voted"
    using tree_shows_batch [OF t, of ?l pc] Ch
    by (auto simp: tree_shows_def no_status_def kv_validator_set_state_def kv_getter_defs kv_get_req_def
        kv_get_opt_def wb_set_block_at_height_eq [OF b] wb_setter_defs store_simps)
  ultimately show ?thesis by blast
qed

lemma tree_shows_vote:
  "tree_shows P vss s J Ch lock hpc cm voted \<Longrightarrow> tree_shows P vss (bt_set_highest_view_phase_voted P v s) J Ch lock hpc cm (Some v)"
  by (auto simp: tree_shows_def no_status_def kv_validator_set_state_def kv_getter_defs kv_get_req_def kv_get_opt_def bt_setter_defs
      wb_setter_defs store_simps)

section \<open>The system\<close>

text \<open>
  Primitives for a system in which the honest replica, with key 1, votes in the views \<open>V\<close>, in each for the block whose hash is the
  number of the view: only these votes verify. The hash of a block is the last byte of its data hash.
\<close>

fun sys_borsh :: "borsh \<Rightarrow> u8 list" where
  "sys_borsh (BU64 w) = le_bytes 8 w"
| "sys_borsh (BU32 w) = le_bytes 4 w"
| "sys_borsh (BBytes xs) = xs"
| "sys_borsh (BTuple [BU64 c, BU64 v, BBytes b, BU8 p]) = le_bytes 8 c @ le_bytes 8 v @ b @ [p]"
| "sys_borsh _ = []"

definition sys_message :: "view_number \<Rightarrow> u8 list" where
  "sys_message v = le_bytes 8 (0 :: chain_id) @ le_bytes 8 v @ crypto_hash_bytes (ucast v) @ [phase_tag Generic]"

definition sys_prims :: "view_number list \<Rightarrow> prims" where
  "sys_prims V = \<lparr>try_to_vec = sys_borsh, sha256 = (\<lambda>bs. ucast (last bs)), vk_from_bytes = Some, sig_from_slice = (\<lambda>s. True),
     vk_verify = (\<lambda>k m s. k = 1 \<and> m \<in> sys_message ` set V), sk_sign = (\<lambda>sk m. 0), sk_verifying_key = id\<rparr>"

definition spc :: "view_number \<Rightarrow> phase_certificate" where
  "spc v = \<lparr>pc_chain_id = 0, pc_view = v, pc_block = ucast v, pc_phase = Generic, pc_signatures = [Some 0, None]\<rparr>"

definition sys_vote :: "view_number \<Rightarrow> phase_vote" where
  "sys_vote v = \<lparr>pv_chain_id = 0, pv_view = v, pv_block = ucast v, pv_phase = Generic, pv_signature = 0\<rparr>"

definition sys_app :: "unit app_ops" where
  "sys_app = \<lparr>app_produce_block = (\<lambda>_ a. (\<lparr>pbr_data_hash = 0, pbr_data = [], pbr_app_state_updates = None, pbr_validator_set_updates = None\<rparr>, a)),
     app_validate_block = (\<lambda>_ a. (Valid None None, a)), app_validate_block_for_sync = (\<lambda>_ a. (Valid None None, a))\<rparr>"

lemma spc_sel [simp]:
  "pc_chain_id (spc v) = 0" "pc_view (spc v) = v" "pc_block (spc v) = ucast v" "pc_phase (spc v) = Generic" "\<not> is_genesis_pc (spc v)"
  "spc v \<noteq> genesis_pc" "genesis_pc \<noteq> spc v" "spc v = spc w \<longleftrightarrow> v = w"
  by (auto simp: spc_def is_genesis_pc_def genesis_pc_def signature_set_genesis_def)

lemma genesis_sel [simp]: "pc_view genesis_pc = 0" "pc_block genesis_pc = 0" "pc_phase genesis_pc = Generic" "is_genesis_pc genesis_pc"
  by (simp_all add: genesis_pc_def view_init_def is_genesis_pc_def)

lemma sys_prims_borsh: "borsh_ints (sys_prims V)"
  by (simp add: borsh_ints_def sys_prims_def)

lemma sys_phase_message: "phase_message (sys_prims V) c v b ph = le_bytes 8 c @ le_bytes 8 v @ crypto_hash_bytes b @ [phase_tag ph]"
  by (simp add: phase_message_def sys_prims_def)

lemma spc_signed: "v \<in> set V \<Longrightarrow> pc_is_correctly_signed (sys_prims V) (spc v) demo_vs = Inr True"
proof -
  assume v: "v \<in> set V"
  have "phase_message (sys_prims V) 0 v (ucast v) Generic = sys_message v" by (simp add: sys_phase_message sys_message_def)
  with v have "slots_valid (sys_prims V) (phase_message (sys_prims V) 0 v (ucast v) Generic) [Some 0, None] demo_vs"
    by (auto simp: slots_valid_def sys_prims_def demo_vs_def less_Suc_eq)
  moreover have "signers demo_vs [Some 0, None] = {1}"
    unfolding signers_def by (auto simp: demo_vs_def vs_len_def less_Suc_eq intro!: exI [of _ 0])
  moreover have "vs_is_quorum demo_vs {1}"
    using vs_quorum_value [of demo_vs] by (auto simp: vs_is_quorum_def demo_vs_ok vs_power_of_def) (auto simp: demo_vs_def vs_power_def hm_get_def)
  ultimately show ?thesis
    using is_correctly_signed_iff [OF demo_vs_ok(3)] by (simp add: pc_is_correctly_signed_def spc_def demo_vs_ok)
qed


section \<open>One step of the run\<close>

text \<open>The heights rise along the links between the blocks \<open>J\<close>.\<close>

definition links_ok :: "(crypto_hash \<Rightarrow> (block_height \<times> phase_certificate) option) \<Rightarrow> bool" where
  "links_ok J \<longleftrightarrow> (\<forall>x h j. J x = Some (h, j) \<longrightarrow> is_genesis_pc j \<or> (\<exists>h' j'. J (pc_block j) = Some (h', j') \<and> h' < h))"

lemma tree_shows_chain_wf: "tree_shows P vss s J Ch lock hpc cm voted \<Longrightarrow> links_ok J \<Longrightarrow> chain_wf P s"
  using tree_shows_reads [of P vss s J Ch lock hpc cm voted]
  by (fastforce simp: chain_wf_def links_ok_def chain_next_def split: option.splits sum.splits if_splits)

lemma sys_block_hash: "ucast (ucast x :: u8) = x \<Longrightarrow> block_compute_hash (sys_prims V) h j x = x"
  by (simp add: block_compute_hash_def sys_prims_def crypto_hash_bytes_def be_bytes_def le_bytes_def upt_conv_Cons)

text \<open>Certificates for the locked block, or of a higher view, are safe.\<close>

definition lock_allows :: "phase_certificate \<Rightarrow> phase_certificate \<Rightarrow> bool" where
  "lock_allows lock j \<longleftrightarrow> pc_view j > pc_view lock \<or> pc_block j = pc_block lock"

lemma sys_acceptable:
  assumes t: "tree_shows (sys_prims V) demo_vss s J Ch lock hpc cm voted" and "links_ok J" and "ucast (ucast x :: u8) = x"
    and j: "j = genesis_pc \<or> (\<exists>v \<in> set V. j = spc v \<and> J (ucast v) \<noteq> None)" and lock: "lock_allows lock j"
    and cm: "case cm of None \<Rightarrow> True | Some c \<Rightarrow> J c \<noteq> None"
  shows "acceptable (sys_prims V) sys_app s (plain_block h x j) None None"
proof -
  note reads = tree_shows_reads [OF t]
  have phase: "pc_phase j = Generic" using j by auto
  have "pc_is_correct (sys_prims V) s j = Inr True"
    using j spc_signed [of _ V] reads by (auto simp: pc_is_correct_def demo_vss_def)
  with assms(3) have correct: "block_is_correct (sys_prims V) s (plain_block h x j) = Inr True"
    by (simp add: block_is_correct_def sys_block_hash rand_def)
  have safe: "safe_block (sys_prims V) s 0 (plain_block h x j) = Inr True"
    using j lock by (auto simp: safe_block_def safe_pc_def reads rand_def ror_def lock_allows_def extends_locked_pc_block_def Let_def
        is_block_justify_def phased_def)
  have hc: "\<exists>hc. bt_highest_committed_block_height (sys_prims V) s = Inr hc"
    using cm by (auto simp: bt_highest_committed_block_height_def reads split: option.splits)
  then obtain hc where hc: "bt_highest_committed_block_height (sys_prims V) s = Inr hc" by blast
  have "\<exists>l. app_view_loop (sys_prims V) s hc (parent_of (plain_block h x j)) (parent_of (plain_block h x j)) = Some l"
  proof (cases "is_genesis_pc j")
    case True
    then show ?thesis by (subst app_view_loop.simps) (simp add: parent_of_def)
  next
    case False
    with j obtain v hb where "j = spc v" "kv_block_height (sys_prims V) s (ucast v) = Inr (Some hb)" by (auto simp: reads)
    with walks_agree [OF tree_shows_chain_wf [OF t assms(2)], of "ucast v" hb hc] show ?thesis by (auto simp: parent_of_def)
  qed
  then have "\<exists>view. bt_app_view (sys_prims V) s (parent_of (plain_block h x j)) = Inr view"
    by (auto simp: bt_app_view_def hc returns_def)
  then have "validated (sys_prims V) sys_app s (plain_block h x j) None None"
    by (auto simp: validated_def sys_app_def)
  with correct safe show ?thesis by (auto simp: acceptable_def)
qed


text \<open>The block that a certificate commits, read off the blocks \<open>J\<close>.\<close>

definition commit_of :: "(crypto_hash \<Rightarrow> (block_height \<times> phase_certificate) option) \<Rightarrow> crypto_hash option \<Rightarrow> phase_certificate \<Rightarrow> crypto_hash option" where
  "commit_of J cm pc =
     (let pc2 = snd (the (J (pc_block pc))); pc1 = snd (the (J (pc_block pc2))) in
      if is_genesis_pc pc \<or> is_genesis_pc pc2 \<or> is_genesis_pc pc1 then None
      else if pc_view pc = pc_view pc2 + 1 \<and> pc_view pc2 = pc_view pc1 + 1 \<and>
        (case cm of None \<Rightarrow> True | Some c \<Rightarrow> fst (the (J c)) < fst (the (J (pc_block pc1)))) then Some (pc_block pc1) else None)"

lemma sys_committed_height:
  assumes "tree_shows P vss s J Ch lock hpc cm voted" and "case cm of None \<Rightarrow> True | Some c \<Rightarrow> J c \<noteq> None"
  shows "bt_highest_committed_block_height P s = Inr (map_option (\<lambda>c. fst (the (J c))) cm)"
  using assms(2) tree_shows_reads [OF assms(1)] by (auto simp: bt_highest_committed_block_height_def split: option.splits)

lemma tree_shows_to_commit:
  assumes t: "tree_shows P vss s J Ch lock hpc cm voted" and l: "links_ok J" and "pc_phase pc = Generic"
    and pc: "is_genesis_pc pc \<or> J (pc_block pc) \<noteq> None" and cm: "case cm of None \<Rightarrow> True | Some c \<Rightarrow> J c \<noteq> None"
  shows "block_to_commit P s pc = Inr (commit_of J cm pc)"
proof (cases "is_genesis_pc pc")
  case True
  then show ?thesis by (simp add: block_to_commit_def commit_of_def)
next
  case False
  note reads = tree_shows_reads [OF t]
  obtain h1 j1 where 1: "J (pc_block pc) = Some (h1, j1)" using pc False by force
  show ?thesis
  proof (cases "is_genesis_pc j1")
    case True
    then show ?thesis using False by (simp add: block_to_commit_def commit_of_def reads 1 assms(3))
  next
    case g1: False
    with l 1 obtain h2 j2 where 2: "J (pc_block j1) = Some (h2, j2)" unfolding links_ok_def by blast
    show ?thesis
    proof (cases "is_genesis_pc j2")
      case True
      then show ?thesis using False g1 by (simp add: block_to_commit_def commit_of_def reads 1 2 assms(3))
    next
      case g2: False
      with l 2 obtain h3 j3 where 3: "J (pc_block j2) = Some (h3, j3)" unfolding links_ok_def by blast
      then have "not_committed_yet P s (pc_block j2) = Inr (case cm of None \<Rightarrow> True | Some c \<Rightarrow> fst (the (J c)) < h3)"
        by (simp add: not_committed_yet_def reads ok_or_def sys_committed_height [OF t cm] split: option.splits)
      then show ?thesis using False g1 g2 by (cases cm) (simp_all add: block_to_commit_def commit_of_def reads 1 2 3 assms(3))
    qed
  qed
qed

text \<open>A commit that takes exactly one block, with no siblings to delete.\<close>

definition commits_one :: "(crypto_hash \<Rightarrow> (block_height \<times> phase_certificate) option) \<Rightarrow> (crypto_hash \<Rightarrow> children_list option)
    \<Rightarrow> crypto_hash option \<Rightarrow> crypto_hash \<Rightarrow> bool" where
  "commits_one J Ch cm c \<longleftrightarrow> J c \<noteq> None \<and> Ch (pc_block (snd (the (J c)))) = Some [c] \<and>
     (case cm of None \<Rightarrow> is_genesis_pc (snd (the (J c)))
      | Some m \<Rightarrow> \<not> is_genesis_pc (snd (the (J c))) \<and> J m \<noteq> None \<and> fst (the (J m)) < fst (the (J c)) \<and>
          fst (the (J (pc_block (snd (the (J c)))))) \<le> fst (the (J m)))"

lemma commits_one_loop:
  assumes t: "tree_shows P vss s J Ch lock hpc cm voted" and "links_ok J" and c: "commits_one J Ch cm c"
  shows "uncommitted_loop P s (map_option (\<lambda>c. fst (the (J c))) cm) c = Some (Inr [c])"
proof -
  note reads = tree_shows_reads [OF t]
  obtain h j where J: "J c = Some (h, j)" using c by (auto simp: commits_one_def)
  show ?thesis
  proof (cases "is_genesis_pc j")
    case True
    with c J show ?thesis by (cases cm; subst uncommitted_loop.simps) (simp_all add: commits_one_def chain_next_def reads)
  next
    case False
    with c J obtain m where m: "cm = Some m" "J m \<noteq> None" "fst (the (J (pc_block j))) \<le> fst (the (J m))" "fst (the (J m)) < h"
      by (cases cm) (auto simp: commits_one_def)
    from False J assms(2) obtain h' j' where J': "J (pc_block j) = Some (h', j')" unfolding links_ok_def by blast
    have "uncommitted_loop P s (map_option (\<lambda>c. fst (the (J c))) cm) (pc_block j) = Some (Inr [])"
      using m J' by (subst uncommitted_loop.simps) (auto simp: reads)
    with m J False show ?thesis by (subst uncommitted_loop.simps) (simp add: reads chain_next_def)
  qed
qed

lemma tree_shows_any_update:
  assumes t: "tree_shows P vss s J Ch lock hpc cm voted" and "borsh_ints P" and l: "links_ok J" and g: "pc_phase pc = Generic"
    and pc: "is_genesis_pc pc \<or> J (pc_block pc) \<noteq> None" and cm: "case cm of None \<Rightarrow> True | Some c \<Rightarrow> J c \<noteq> None"
    and one: "\<And>c. commit_of J cm pc = Some c \<Longrightarrow> commits_one J Ch cm c"
  shows "\<exists>r evs s'. bt_update P pub pc s = Inr (r, evs, s') \<and> tree_shows P vss s' J Ch (next_lock J lock pc) (next_highest hpc pc)
    (case commit_of J cm pc of None \<Rightarrow> cm | Some c \<Rightarrow> Some c) voted"
proof (cases "commit_of J cm pc")
  case None
  with tree_shows_update [OF t g pc] tree_shows_to_commit [OF t l g pc cm] show ?thesis by simp
next
  case (Some c)
  note c = one [OF Some]
  then obtain h j where J: "J c = Some (h, j)" "Ch (pc_block j) = Some [c]" by (auto simp: commits_one_def)
  show ?thesis
    using tree_shows_commit [OF t g pc _ J assms(2) sys_committed_height [OF t cm] commits_one_loop [OF t l c]]
      tree_shows_to_commit [OF t l g pc cm] Some by simp
qed


section \<open>Runs\<close>

text \<open>
  \<open>sys_run V tr up J Ch lock hpc cm vs\<close>: a run of the honest replica that shows the given tree at its end, in which it has voted in the
  views \<open>vs\<close>; if \<open>up\<close>, it never went back to an older lock.
\<close>

definition sys_run :: "view_number list \<Rightarrow> protocol_state list \<Rightarrow> bool \<Rightarrow> (crypto_hash \<Rightarrow> (block_height \<times> phase_certificate) option)
    \<Rightarrow> (crypto_hash \<Rightarrow> children_list option) \<Rightarrow> phase_certificate \<Rightarrow> phase_certificate \<Rightarrow> crypto_hash option \<Rightarrow> view_number list \<Rightarrow> bool" where
  "sys_run V tr up J Ch lock hpc cm vs \<longleftrightarrow> protocol_run (sys_prims V) sys_app us_new demo_vss tr \<and>
     tree_shows (sys_prims V) demo_vss (ps_store (last tr)) J Ch lock hpc cm (if vs = [] then None else Some (last vs)) \<and>
     links_ok J \<and> (case cm of None \<Rightarrow> True | Some c \<Rightarrow> J c \<noteq> None) \<and> ps_votes (last tr) = map sys_vote vs \<and>
     (\<forall>b \<in> set (ps_blocks (last tr)). J (b_hash b) = Some (b_height b, b_justify b)) \<and> J 0 = None \<and>
     (up \<longrightarrow> never_unlocks (sys_prims V) tr)"

lemma sys_vss_ok: "vss_ok (sys_prims V) demo_vss"
  by (simp add: vss_ok_def demo_vss_def demo_vs_ok vs_keys_parse_def sys_prims_def)

lemma sys_run_start: "sys_run V [protocol_start (sys_prims V) us_new demo_vss] True Map.empty Map.empty genesis_pc genesis_pc None []"
proof -
  let ?P = "sys_prims V" and ?s = "bt_initialize (sys_prims V) us_new demo_vss Map.empty"
  have "?s (path_bytes ?P p) = None" if "of_block p \<noteq> None" for p
    using that by (cases p) (simp_all add: bt_initialize_def Let_def wb_setter_defs store_simps us_new_def wb_apply_app_state_updates_def demo_vss_def)
  then show ?thesis
    using bt_initialize_gets [OF demo_vss_ok(1), of demo_vss ?P] sys_vss_ok [of V]
    by (simp add: sys_run_def protocol_run_def protocol_start_def tree_shows_def no_status_def links_ok_def never_unlocks_def vss_ok_def)
qed

lemma sys_run_step:
  fixes h v j
  defines "x \<equiv> ucast v"
  assumes run: "sys_run V tr up J Ch lock hpc cm vs" and x: "ucast (ucast x :: u8) = x" "x \<noteq> 0" "J x = None"
    and j: "j = genesis_pc \<or> (\<exists>w \<in> set V. j = spc w)" "is_genesis_pc j \<or> (\<exists>h' j'. J (pc_block j) = Some (h', j') \<and> h' < h)"
    and lock: "lock_allows lock j" and vs: "vs = [] \<or> last vs < v"
    and J': "J' = J(x \<mapsto> (h, j))" and Ch': "Ch' = Ch(pc_block j \<mapsto> (case Ch (pc_block j) of None \<Rightarrow> [] | Some cs \<Rightarrow> cs) @ [x])"
    and one: "\<And>c. commit_of J' cm j = Some c \<Longrightarrow> commits_one J' Ch' cm c"
    and new: "lock' = next_lock J' lock j" "cm' = (case commit_of J' cm j of None \<Rightarrow> cm | Some c \<Rightarrow> Some c)"
  shows "\<exists>p. sys_run V (tr @ [p]) (up \<and> (lock' = lock \<or> pc_view lock < pc_view lock')) J' Ch' lock' (next_highest hpc j) cm' (vs @ [v])"
proof -
  let ?P = "sys_prims V" and ?p = "last tr" and ?b = "plain_block h x j" and ?voted = "if vs = [] then None else Some (last vs)"
  have t: "tree_shows ?P demo_vss (ps_store ?p) J Ch lock hpc cm ?voted" and l: "links_ok J"
    and cm: "case cm of None \<Rightarrow> True | Some c \<Rightarrow> J c \<noteq> None" and r: "protocol_run ?P sys_app us_new demo_vss tr"
    using run by (simp_all add: sys_run_def)
  have ok: "acceptable ?P sys_app (ps_store ?p) ?b None None"
    using sys_acceptable [OF t l x(1) _ lock cm] j by fastforce
  note t' = tree_shows_insert [OF t, of h x j, folded J' Ch']
  have l': "links_ok J'" using l j(2) x(2,3) unfolding links_ok_def J' by (metis fun_upd_apply option.distinct(1) option.inject prod.inject)
  have cm': "case cm of None \<Rightarrow> True | Some c \<Rightarrow> J' c \<noteq> None" using cm by (auto simp: J' split: option.splits)
  have "pc_phase j = Generic" "is_genesis_pc j \<or> J' (pc_block j) \<noteq> None" using j by (auto simp: J')
  from tree_shows_any_update [OF t' sys_prims_borsh l' this cm' one, where pub = True] obtain r' evs s where
    u: "bt_update ?P True j (bt_insert ?P ?b None None (ps_store ?p)) = Inr (r', evs, s)"
    and s: "tree_shows ?P demo_vss s J' Ch' lock' (next_highest hpc j) cm' ?voted" unfolding new by blast
  let ?p' = "?p\<lparr>ps_store := bt_set_highest_view_phase_voted ?P v s, ps_votes := ps_votes ?p @ [sys_vote v], ps_blocks := ps_blocks ?p @ [?b]\<rparr>"
  have "new_vote ?P s (sys_vote v)" using tree_shows_reads(11) [OF s] vs by (auto simp: new_vote_def sys_vote_def)
  from protocol_step.accept_vote [where pub = True, OF ok _ this] u have step: "protocol_step ?P sys_app ?p ?p'" by (simp add: sys_vote_def x_def)
  have new_lock: "kv_locked_pc ?P (ps_store ?p') = Inr lock'" using tree_shows_reads(8) [OF tree_shows_vote [OF s]] by simp
  have "never_unlocks ?P (tr @ [?p'])" if "up" "lock' = lock \<or> pc_view lock < pc_view lock'"
    using that run tree_shows_reads(8) [OF t] new_lock by (auto simp: never_unlocks_def sys_run_def successively_append_iff)
  moreover have "case cm' of None \<Rightarrow> True | Some c \<Rightarrow> J' c \<noteq> None"
    using cm' one unfolding new by (auto simp: commits_one_def split: option.splits)
  moreover have "\<forall>b \<in> set (ps_blocks ?p @ [?b]). J' (b_hash b) = Some (b_height b, b_justify b)"
    using run x(3) by (auto simp: sys_run_def J')
  moreover have J'0: "J' 0 = None" using run x(2) by (simp add: sys_run_def J')
  ultimately have "sys_run V (tr @ [?p']) (up \<and> (lock' = lock \<or> pc_view lock < pc_view lock')) J' Ch' lock' (next_highest hpc j) cm' (vs @ [v])"
    using protocol_run_snoc [OF r step] tree_shows_vote [OF s] l' J'0 run by (simp add: sys_run_def)
  then show ?thesis by blast
qed


text \<open>The justify of the blocks \<open>J\<close>.\<close>

definition just_of :: "(crypto_hash \<Rightarrow> (block_height \<times> phase_certificate) option) \<Rightarrow> crypto_hash \<Rightarrow> phase_certificate" where
  "just_of J x = (case J x of None \<Rightarrow> genesis_pc | Some hj \<Rightarrow> snd hj)"

lemma sys_message_inject:
  assumes "phase_message (sys_prims V) c view b ph = sys_message v"
  shows "view = v \<and> b = ucast v \<and> ph = Generic"
proof -
  have "le_bytes 8 view = le_bytes 8 v" "crypto_hash_bytes b = crypto_hash_bytes (ucast v)" "phase_tag ph = phase_tag Generic"
    using assms by (simp_all add: sys_phase_message sys_message_def crypto_hash_bytes_def be_bytes_def)
  then show ?thesis by (cases ph) (simp_all add: crypto_hash_bytes_def be_bytes_def phase_tag_def)
qed

lemma sys_run_honest:
  assumes run: "sys_run V tr up J Ch lock hpc cm vs" and V: "set V = set vs" "- 1 \<notin> set vs"
  shows "honest_system (sys_prims V) sys_app demo_vss {2} {1} (\<lambda>_. us_new) (\<lambda>_. tr) (just_of J)"
proof -
  have "unforgeable (sys_prims V) {1} (\<lambda>_. tr)"
  proof -
    have "vk_verify (sys_prims V) 1 m sig \<longleftrightarrow> m \<in> sys_message ` set vs" for m sig using V(1) by (simp add: sys_prims_def)
    moreover have "ps_votes (last tr) = map sys_vote vs" using run by (simp add: sys_run_def)
    ultimately show ?thesis using sys_message_inject [of V] by (fastforce simp: unforgeable_def sys_vote_def)
  qed
  moreover have "collision_free (just_of J) {1} (\<lambda>_. tr)"
    using run by (force simp: collision_free_def sys_run_def just_of_def)
  moreover have "static_app sys_app" by (simp add: static_app_def sys_app_def)
  moreover have "vs_tolerates demo_vs {2}" by (simp add: vs_tolerates_def demo_vs_ok vs_power_of_def) (simp add: demo_vs_def vs_power_def hm_get_def)
  moreover have "\<forall>v \<in> set vs. v < - 1" using V(2) by (metis word_order.not_eq_extremum)
  ultimately show ?thesis
    using run sys_vss_ok [of V] demo_vss_ok(1) by (auto simp: honest_system_def sys_run_def sys_vote_def demo_vss_def demo_vs_ok) (auto simp: demo_vs_def)
qed

section \<open>Executing a run\<close>

text \<open>
  A run is a list of triples: a block of the given height, whose hash is the number of the view, extends the block of
  another view (0 for the genesis block) and is voted for. The state that such a run reaches can be computed.
\<close>

record sys_state =
  ss_up :: bool
  ss_blocks :: "crypto_hash \<Rightarrow> (block_height \<times> phase_certificate) option"
  ss_children :: "crypto_hash \<Rightarrow> children_list option"
  ss_lock :: phase_certificate
  ss_highest :: phase_certificate
  ss_committed :: "crypto_hash option"
  ss_views :: "view_number list"

definition step_pc :: "view_number \<Rightarrow> phase_certificate" where
  "step_pc w = (if w = 0 then genesis_pc else spc w)"

definition sys_init :: sys_state where
  "sys_init = \<lparr>ss_up = True, ss_blocks = Map.empty, ss_children = Map.empty, ss_lock = genesis_pc, ss_highest = genesis_pc,
     ss_committed = None, ss_views = []\<rparr>"

fun sys_next :: "view_number \<times> block_height \<times> view_number \<Rightarrow> sys_state \<Rightarrow> sys_state" where
  "sys_next (v, h, w) \<sigma> =
     (let j = step_pc w; J = (ss_blocks \<sigma>)(ucast v \<mapsto> (h, j)); lock = next_lock J (ss_lock \<sigma>) j;
          Ch = (ss_children \<sigma>)(pc_block j \<mapsto> (case ss_children \<sigma> (pc_block j) of None \<Rightarrow> [] | Some cs \<Rightarrow> cs) @ [ucast v])
      in \<lparr>ss_up = (ss_up \<sigma> \<and> (lock = ss_lock \<sigma> \<or> pc_view (ss_lock \<sigma>) < pc_view lock)), ss_blocks = J, ss_children = Ch,
          ss_lock = lock, ss_highest = next_highest (ss_highest \<sigma>) j,
          ss_committed = (case commit_of J (ss_committed \<sigma>) j of None \<Rightarrow> ss_committed \<sigma> | Some c \<Rightarrow> Some c), ss_views = ss_views \<sigma> @ [v]\<rparr>)"

fun sys_allowed :: "view_number list \<Rightarrow> view_number \<times> block_height \<times> view_number \<Rightarrow> sys_state \<Rightarrow> bool" where
  "sys_allowed V (v, h, w) \<sigma> \<longleftrightarrow>
     (let \<sigma>' = sys_next (v, h, w) \<sigma>; x = ucast v in
      ucast (ucast x :: u8) = x \<and> x \<noteq> 0 \<and> ss_blocks \<sigma> x = None \<and>
      (w = 0 \<or> w \<in> set V \<and> (case ss_blocks \<sigma> (ucast w) of None \<Rightarrow> False | Some hj \<Rightarrow> fst hj < h)) \<and>
      lock_allows (ss_lock \<sigma>) (step_pc w) \<and> (ss_views \<sigma> = [] \<or> last (ss_views \<sigma>) < v) \<and>
      (case commit_of (ss_blocks \<sigma>') (ss_committed \<sigma>) (step_pc w) of None \<Rightarrow> True
       | Some c \<Rightarrow> commits_one (ss_blocks \<sigma>') (ss_children \<sigma>') (ss_committed \<sigma>) c))"

fun sys_all_allowed :: "view_number list \<Rightarrow> (view_number \<times> block_height \<times> view_number) list \<Rightarrow> sys_state \<Rightarrow> bool" where
  "sys_all_allowed V [] \<sigma> \<longleftrightarrow> True"
| "sys_all_allowed V (step # steps) \<sigma> \<longleftrightarrow> sys_allowed V step \<sigma> \<and> sys_all_allowed V steps (sys_next step \<sigma>)"

definition sys_reaches :: "view_number list \<Rightarrow> protocol_state list \<Rightarrow> sys_state \<Rightarrow> bool" where
  "sys_reaches V tr \<sigma> \<longleftrightarrow> sys_run V tr (ss_up \<sigma>) (ss_blocks \<sigma>) (ss_children \<sigma>) (ss_lock \<sigma>) (ss_highest \<sigma>) (ss_committed \<sigma>) (ss_views \<sigma>)"

lemma sys_reaches_step:
  assumes "sys_reaches V tr \<sigma>" and "sys_allowed V (v, h, w) \<sigma>"
  shows "\<exists>p. sys_reaches V (tr @ [p]) (sys_next (v, h, w) \<sigma>)"
proof -
  note ok = assms(2) [unfolded sys_allowed.simps Let_def]
  have j: "step_pc w = genesis_pc \<or> (\<exists>w' \<in> set V. step_pc w = spc w')"
    "is_genesis_pc (step_pc w) \<or> (\<exists>h' j'. ss_blocks \<sigma> (pc_block (step_pc w)) = Some (h', j') \<and> h' < h)"
    using ok by (auto simp: step_pc_def split: option.splits)
  have one: "commits_one (ss_blocks (sys_next (v, h, w) \<sigma>)) (ss_children (sys_next (v, h, w) \<sigma>)) (ss_committed \<sigma>) c"
    if "commit_of (ss_blocks (sys_next (v, h, w) \<sigma>)) (ss_committed \<sigma>) (step_pc w) = Some c" for c
    using ok that by (simp del: sys_next.simps)
  show ?thesis
    using sys_run_step [OF assms(1) [unfolded sys_reaches_def], where v = v and h = h and j = "step_pc w" and
        J' = "ss_blocks (sys_next (v, h, w) \<sigma>)" and Ch' = "ss_children (sys_next (v, h, w) \<sigma>)" and
        lock' = "ss_lock (sys_next (v, h, w) \<sigma>)" and cm' = "ss_committed (sys_next (v, h, w) \<sigma>)", OF _ _ _ j _ _ _ _ one] ok
    by (simp add: sys_reaches_def Let_def)
qed

lemma sys_reaches_steps:
  "sys_reaches V tr \<sigma> \<Longrightarrow> sys_all_allowed V steps \<sigma> \<Longrightarrow> \<exists>tr'. sys_reaches V (tr @ tr') (fold sys_next steps \<sigma>)"
proof (induction steps arbitrary: tr \<sigma>)
  case Nil
  then show ?case by (auto intro: exI [of _ "[]"])
next
  case (Cons step steps)
  obtain v h w where step: "step = (v, h, w)" by (cases step) auto
  with sys_reaches_step [of V tr \<sigma> v h w] Cons.prems obtain p where "sys_reaches V (tr @ [p]) (sys_next step \<sigma>)" by auto
  from Cons.IH [OF this] Cons.prems(2) obtain tr' where "sys_reaches V ((tr @ [p]) @ tr') (fold sys_next steps (sys_next step \<sigma>))" by auto
  then show ?case by auto
qed

text \<open>Four blocks in a row, voted for in the views 1 to 4: the fourth commits the first.\<close>

definition chain_steps :: "(view_number \<times> block_height \<times> view_number) list" where
  "chain_steps = [(1, 0, 0), (2, 1, 1), (3, 2, 2), (4, 3, 3)]"

text \<open>
  After that, blocks that extend blocks 2 and 1 take the lock back, so that a second branch can start at the genesis
  block. Its fifth block commits its second.
\<close>

definition fork_steps :: "(view_number \<times> block_height \<times> view_number) list" where
  "fork_steps = [(5, 2, 2), (6, 1, 1), (7, 0, 0), (8, 1, 7), (9, 2, 8), (10, 3, 9), (11, 4, 10)]"

definition sys_views :: "view_number list" where
  "sys_views = [1, 2, 3, 4, 5, 6, 7, 8, 9, 10, 11]"

lemma chain_allowed: "sys_all_allowed [1, 2, 3, 4] chain_steps sys_init" "sys_all_allowed sys_views chain_steps sys_init"
  by code_simp+

lemma chain_state: "ss_up (fold sys_next chain_steps sys_init)" "ss_committed (fold sys_next chain_steps sys_init) = Some 1"
  "ss_views (fold sys_next chain_steps sys_init) = [1, 2, 3, 4]"
  by code_simp+

lemma fork_allowed: "sys_all_allowed sys_views fork_steps (fold sys_next chain_steps sys_init)"
  by code_simp

lemma fork_state: "ss_committed (fold sys_next fork_steps (fold sys_next chain_steps sys_init)) = Some 8"
  "ss_views (fold sys_next fork_steps (fold sys_next chain_steps sys_init)) = sys_views"
  by code_simp+

lemma fork_links:
  "just_of (ss_blocks (fold sys_next fork_steps (fold sys_next chain_steps sys_init))) 1 = genesis_pc"
  "just_of (ss_blocks (fold sys_next fork_steps (fold sys_next chain_steps sys_init))) 7 = genesis_pc"
  "just_of (ss_blocks (fold sys_next fork_steps (fold sys_next chain_steps sys_init))) 8 = spc 7"
  by code_simp+

lemma sys_reaches_committed: "sys_reaches V tr \<sigma> \<Longrightarrow> kv_highest_committed_block (sys_prims V) (ps_store (last tr)) = Inr (ss_committed \<sigma>)"
  using tree_shows_reads(10) by (auto simp: sys_reaches_def sys_run_def)

lemma sys_reaches_nonempty: "sys_reaches V tr \<sigma> \<Longrightarrow> tr \<noteq> []"
  by (auto simp: sys_reaches_def sys_run_def protocol_run_def)

lemma sys_reaches_chain:
  assumes "sys_all_allowed V chain_steps sys_init"
  obtains tr where "sys_reaches V tr (fold sys_next chain_steps sys_init)"
  using sys_reaches_steps [OF _ assms] sys_run_start [of V] by (auto simp: sys_reaches_def sys_init_def)

section \<open>Agreement, and why it needs the locks\<close>

lemma agreement_witness:
  "\<exists>tr. honest_system (sys_prims [1, 2, 3, 4]) sys_app demo_vss {2} {1} (\<lambda>_. us_new) (\<lambda>_. tr)
       (just_of (ss_blocks (fold sys_next chain_steps sys_init))) \<and>
     kv_highest_committed_block (sys_prims [1, 2, 3, 4]) (ps_store (last tr)) = Inr (Some 1) \<and>
     extends (just_of (ss_blocks (fold sys_next chain_steps sys_init))) 1 1"
proof -
  let ?V = "[1, 2, 3, 4] :: view_number list" and ?\<sigma> = "fold sys_next chain_steps sys_init"
  obtain tr where r: "sys_reaches ?V tr ?\<sigma>" by (rule sys_reaches_chain [OF chain_allowed(1)])
  have sys: "honest_system (sys_prims ?V) sys_app demo_vss {2} {1} (\<lambda>_. us_new) (\<lambda>_. tr) (just_of (ss_blocks ?\<sigma>))"
    by (rule sys_run_honest [OF r [unfolded sys_reaches_def]]) (simp_all add: chain_state)
  have up: "never_unlocks (sys_prims ?V) tr" using r chain_state(1) by (simp add: sys_reaches_def sys_run_def)
  have c: "kv_highest_committed_block (sys_prims ?V) (ps_store (last tr)) = Inr (Some 1)"
    using sys_reaches_committed [OF r] by (simp add: chain_state)
  have "last tr \<in> set tr" using sys_reaches_nonempty [OF r] by simp
  from agreement [OF sys up _ this c _ this c] sys c show ?thesis by blast
qed

text \<open>
  C13. The lock is what agreement rests on, and the code gives it up: there is a system as in the agreement property, with one
  honest validator that holds three quarters of the power and follows the protocol, in which the validator commits a block and
  later, having gone back to older locks because it processed certificates it knew already, commits
  another block on a branch that does not contain the first. So the rule that picks the certificate to lock, which
  compares no views, does not by itself keep committed branches from forking.
\<close>

lemma lock_regress_forks:
  "\<exists>(P :: prims) (app :: unit app_ops) vss F H u tr just k p p' b b'. honest_system P app vss F H u tr just \<and> k \<in> H \<and>
     p \<in> set (tr k) \<and> kv_highest_committed_block P (ps_store p) = Inr (Some b) \<and>
     p' \<in> set (tr k) \<and> kv_highest_committed_block P (ps_store p') = Inr (Some b') \<and>
     \<not> extends just b b' \<and> \<not> extends just b' b"
proof -
  let ?V = "sys_views" and ?\<sigma> = "fold sys_next chain_steps sys_init"
  let ?\<tau> = "fold sys_next fork_steps ?\<sigma>"
  obtain tr where r: "sys_reaches ?V tr ?\<sigma>" by (rule sys_reaches_chain [OF chain_allowed(2)])
  from sys_reaches_steps [OF this fork_allowed] obtain tr' where r': "sys_reaches ?V (tr @ tr') ?\<tau>" by blast
  have sys: "honest_system (sys_prims ?V) sys_app demo_vss {2} {1} (\<lambda>_. us_new) (\<lambda>_. tr @ tr') (just_of (ss_blocks ?\<tau>))"
    by (rule sys_run_honest [OF r' [unfolded sys_reaches_def]]) (simp_all add: fork_state sys_views_def)
  have c: "kv_highest_committed_block (sys_prims ?V) (ps_store (last tr)) = Inr (Some 1)"
    "kv_highest_committed_block (sys_prims ?V) (ps_store (last (tr @ tr'))) = Inr (Some 8)"
    using sys_reaches_committed [OF r] sys_reaches_committed [OF r'] by (simp_all add: chain_state fork_state)
  have m: "last tr \<in> set (tr @ tr')" "last (tr @ tr') \<in> set (tr @ tr')"
    using sys_reaches_nonempty [OF r] last_in_set [of "tr @ tr'"] by auto
  have "\<not> extends (just_of (ss_blocks ?\<tau>)) 1 8" "\<not> extends (just_of (ss_blocks ?\<tau>)) 8 1"
    by (simp_all add: extends_iff [of _ 1] extends_iff [of _ 7] extends_iff [of _ 8] fork_links)
  with sys c m show ?thesis by blast
qed

end
