(* ===== verification/Spec2Isabelle.thy ===== *)
theory Spec2Isabelle
  imports Progress_Witnesses Agreement_Witnesses
begin

text \<open>
  A verification of HotStuff-rs, a library for Byzantine fault tolerant state machine replication.

  \<^bold>\<open>The program.\<close> A replica runs an algorithm thread (\<^verbatim>\<open>algorithm.rs\<close>) whose main loop lets the pacemaker
  (\<^verbatim>\<open>pacemaker/\<close>) keep the current view and its deadline, enters views and handles messages with the HotStuff
  subprotocol (\<^verbatim>\<open>hotstuff/\<close>), and catches up with other replicas through the block sync client
  (\<^verbatim>\<open>block_sync/client.rs\<close>). Messages come from a poller thread through a buffer that holds messages of later
  views (\<^verbatim>\<open>networking/receiving.rs\<close>). A server thread (\<^verbatim>\<open>block_sync/server.rs\<close>) answers sync requests. All of them
  share the block tree (\<^verbatim>\<open>block_tree/\<close>), which is kept in a key-value store of the user. An event bus thread
  (\<^verbatim>\<open>event_bus.rs\<close>) runs handlers on the events the threads publish, and \<^verbatim>\<open>replica.rs\<close> puts the threads together.

  \<^bold>\<open>The theories\<close>, from the bottom up, with the sources under \<^verbatim>\<open>src/\<close> that they model:

  \<^item> \<open>Prelude\<close>: results with errors (\<open>rbind\<close>, \<open>rand\<close>, \<open>rfold\<close>), procedures that pass a state and may fail (\<open>pbind\<close>,
    \<open>pthen\<close>), the relation between states that a procedure \<open>keeps\<close> and the predicate it \<open>ensures\<close>, byte strings.
  \<^item> \<open>Rust_Std\<close>: hash maps and sets as lists in an arbitrary order, the binary search of slices, channels.
  \<^item> \<open>Data_Types\<close>: \<^verbatim>\<open>types/data_types.rs\<close>, \<^verbatim>\<open>types/block.rs\<close>, \<^verbatim>\<open>types/crypto_primitives.rs\<close>, phases and certificates, errors and panics
    as values, and the record \<open>prims\<close> of what other crates compute (Borsh, SHA-256, Ed25519).
  \<^item> \<open>Update_Sets\<close>, \<open>Validator_Set\<close>: \<^verbatim>\<open>types/update_sets.rs\<close>, \<^verbatim>\<open>types/validator_set.rs\<close>. A locale of stores to which an
    update set can be applied gives the refinement of \<^verbatim>\<open>apply_updates\<close> to an update of a map; a locale of quorum
    systems gives the overlap of quorums.
  \<^item> \<open>Leader\<close>: the leader selection of \<^verbatim>\<open>pacemaker/implementation.rs\<close>: total and fair by power.
  \<^item> \<open>Certificates\<close>, \<open>Collectors\<close>: \<^verbatim>\<open>types/signed_messages.rs\<close>, the votes and certificates of \<^verbatim>\<open>hotstuff/\<close> and \<^verbatim>\<open>pacemaker/\<close>. What a
    certificate must be to pass, and that collecting correct votes yields such certificates and loses no quorum.
  \<^item> \<open>Kv_Store\<close>: \<^verbatim>\<open>block_tree/pluggables.rs\<close>, \<^verbatim>\<open>block_tree/variables.rs\<close>: keys, typed getters, write batches.
  \<^item> \<open>Messages\<close>: the messages of all subprotocols, the events, and the effects of a handler.
  \<^item> \<open>Invariants\<close>, \<open>Block_Tree\<close>: \<^verbatim>\<open>block_tree/invariants.rs\<close>, \<^verbatim>\<open>block_tree/accessors/internal.rs\<close>, \<^verbatim>\<open>app.rs\<close>: the safety, locking and
    commit rules, insertion, update, commit, pruning and the view of the tree that applications get.
  \<^item> \<open>Accessors\<close>: \<^verbatim>\<open>block_tree/accessors/\<close>: the getters of the tree handle, of snapshots and of the view for applications, with
    a locale for what all three promise on blocks.
  \<^item> \<open>App_View\<close>: links and children of the tree; a commit deletes no block of its own branch, and the app state shown for
    a block does not depend on how much has been committed.
  \<^item> \<open>Batch_Writes\<close>: which writes a commit can make, as a locale over a property of single writes.
  \<^item> \<open>Tree_Invariant\<close>: the invariant \<open>tree_ok\<close> of the tree, that commits, pruning and insertions keep it, and that an update
    never fails on it.
  \<^item> \<open>Node\<close>: the state of the algorithm thread, the application interface, the roles, the steps all handlers are
    made of, and a hierarchy of locales for relations between node states: \<open>node_base\<close> and \<open>pacemaker_base\<close> for the quiet steps,
    \<open>checked_rel\<close> and \<open>turn_rel\<close> for relations that hold when blocks and certificates take effect after their
    checks, \<open>node_rel\<close> and \<open>pacemaker_rel\<close> for relations that need no checks. A relation that every elementary step keeps
    is kept by every handler. They are interpreted for the voting record, the highest PC, the view of the
    pacemaker, the blacklist of the sync client, the types of the store and the protocol steps.
  \<^item> \<open>Hotstuff\<close>, \<open>Pacemaker\<close>, \<open>Block_Sync\<close>, \<open>Msg_Buffer\<close>: the handlers of each part, whole, with their effects and errors.
  \<^item> \<open>Algorithm\<close>: \<^verbatim>\<open>Algorithm::new\<close>, one turn of the main loop, and the inductive set of states reachable over turns and
    restarts; the invariants of all reachable states.
  \<^item> \<open>Store_Typing\<close>: under every key the store holds a value that its getter decodes; a replica can be started again on the tree of
    every reachable state.
  \<^item> \<open>Protocol\<close>: the abstract protocol, an inductive step relation on block tree, votes and inserted blocks, and that every turn
    of the main loop is a sequence of its steps.
  \<^item> \<open>Store_History\<close>: stored heights and pending validator set updates come from inserted blocks, along every run of the protocol;
    with the types of the other values, the tree of every reachable state is readable.
  \<^item> \<open>Validator_Lifecycle\<close>: how certificates move the validator set state, and its history along a run of the protocol.
  \<^item> \<open>Agreement\<close>: agreement of all honest replicas on committed branches, from the protocol steps.
  \<^item> \<open>Progress\<close>: the invariant along runs of the protocol, and the vote for a good proposal.
  \<^item> \<open>Sync_Composition\<close>: the block sync server and client together.
  \<^item> \<open>Safety\<close>: at most one certificate per view, what a vote presupposes, what a leader proposes.
  \<^item> \<open>Logging\<close>, \<open>Event_Bus\<close>, \<open>Replica\<close>: \<^verbatim>\<open>logging.rs\<close>, \<^verbatim>\<open>event_bus.rs\<close>, \<^verbatim>\<open>replica.rs\<close>.
  \<^item> \<open>Witnesses\<close>, \<open>Replica_Witnesses\<close>, \<open>Tree_Witnesses\<close>, \<open>Progress_Witnesses\<close>, \<open>Agreement_Witnesses\<close>: concrete validator sets, trees, nodes and runs on which
    the hypotheses of the properties hold; the last one executes runs of a system with one honest validator, among them one
    that commits two branches after it gave up a lock.

  \<^bold>\<open>How the code is modelled.\<close> Structs are records, enums datatypes. Machine integers are words and wrap as in a
  release build. A fallible function returns a value of \<open>fault + 'a\<close>, where a fault is an error of the code, a panic, or
  \<open>Diverged\<close>. A handler is a procedure on the state of the node: the changes made before an error are kept. Sent
  messages, validator set updates for the network and published events are appended to the log \<open>nd_out\<close>. Clock readings,
  random choices, what channels yield and the callbacks of the application are arguments, so the properties hold for
  all of them. Times are in nanoseconds; adding a duration to an instant
  panics at the limit that Unix platforms have for instants (\<open>instant_limit\<close>), so properties on timeouts and blacklisting assume a clock
  that is far enough from it (\<open>clock_in_range\<close>, a whole epoch for the pacemaker). The key-value store is a map from byte strings to typed values, which stands
  for the serialized form; the laws of Borsh for integers are the hypothesis \<open>borsh_ints\<close>, those of Ed25519 are
  \<open>vk_parse_exact\<close> and \<open>sigs_verify\<close>.

  \<^bold>\<open>Loops.\<close> Loops over data are structural recursion or have a termination proof. Walks along the links of the tree,
  which need not end on an arbitrary store, are \<open>partial_function (option)\<close>, where \<open>None\<close> becomes the fault
  \<open>Diverged\<close>; on trees whose links go down in height (\<open>chain_wf\<close>, part of \<open>tree_ok\<close>, which insertions and updates keep) they are proved to end. No fuel
  is used. The main loops of the threads are one definition per iteration; a run of the algorithm is a derivation of
  \<open>reachable\<close>, and each turn is one atomic step, so a crash of the process in the middle of a turn is not covered.

  \<^bold>\<open>Agreement.\<close> The main safety property is proved in three layers: every turn of the code refines the
  protocol steps; the steps keep an invariant (certificates that take effect are signed by a quorum and are for inserted
  blocks, a committed block has three certificates of consecutive views); and by the overlap of quorums a vote after the third
  certificate is bound by the lock it left. Assumed are: faulty validators with at most a third of the power, unforgeable
  signatures, no hash collisions among inserted blocks, an application that does not change the validator set, views
  below the largest number, and that no honest replica replaces its locked PC by one of a view that is not higher. The code does
  not ensure the last one, and a run shows that without it agreement fails for the protocol steps.

  \<^bold>\<open>Progress.\<close> The invariant \<open>tree_ok\<close> says that every stored block has all its links, and that nothing else is linked. It holds
  in all states of a run, given an application that rejects blocks that are not above their parents, which the
  code does not check itself, and hashes that tell the inserted blocks apart. On such a tree processing checked
  certificates and accepting checked blocks cannot fail, pruning included, and a good proposal gets its vote.

  \<^bold>\<open>What is proved.\<close> Agreement, refinement of the protocol, readability of the store and restarts, as above. Safety of voting and certificates (at most one vote per view over restarts, checked votes,
  no conflicting certificates); permanence and effect of commits; that applications see the state that a commit would
  produce, whatever has been committed; the history of validator sets; exactness of certificate checks and completeness of vote collection; fairness of leaders; progress of
  the pacemaker on timeouts and certificates; that messages reach the handlers only in the documented views; exact
  eviction from the message buffer; what sync responses contain and that synced blocks are checked; round trips of the
  storage formats; order of events. Some properties state what the code does against its intention, such as the
  blacklisting of honest sync servers, the expiry of the blacklist, the byte counter of the message buffer, the lock that can move back, or the unchecked
  height of blocks.

  \<^bold>\<open>Epochs.\<close> The model follows the code of the pacemaker: epoch-change views are the multiples of the epoch length \<open>N\<close>, view 0
  included, and the epochs are \<open>[0]\<close>, \<open>[1..N]\<close>, \<open>[N+1..2N]\<close> and so on. The documentation in \<^verbatim>\<open>pacemaker/mod.rs\<close> counts differently: epochs
  \<open>[0..N-1]\<close>, \<open>[N..2N-1]\<close> and epoch-change views \<open>N-1\<close>, \<open>2N-1\<close>. The theorems on timeouts are about the code's views.

  \<^bold>\<open>Not modelled.\<close> The builders that the typed_builder crate generates, the texts of error messages, the scheduling of the
  threads (the server reads one snapshot per turn), agreement across changes of the validator set, and the integration tests.
\<close>

end
